(* ===== verification/GoStd.thy ===== *)
theory GoStd
  imports Prelude
begin

text \<open>
  The parts of Go's language and standard library that the program calls: \<open>strconv.ParseInt\<close>,
  \<open>strconv.Atoi\<close> and decimal formatting of an \<open>int64\<close>, \<open>strings.Split\<close>, \<open>strings.SplitN\<close>,
  \<open>strings.TrimSpace\<close>, \<open>strings.ToLower\<close> (on ASCII letters), \<open>hash/crc32.ChecksumIEEE\<close>,
  and \<open>time.Time\<close> with \<open>time.Duration\<close>. Integers keep Go's widths; parse errors are values.
\<close>

section \<open>strconv\<close>

datatype num_error = ErrSyntax | ErrRange

definition max_uint64 :: nat where
  "max_uint64 = 2 ^ 64 - 1"

fun ParseUint_loop :: "nat \<Rightarrow> string \<Rightarrow> nat \<times> num_error option" where
  "ParseUint_loop n [] = (n, None)"
| "ParseUint_loop n (c # cs) =
     (if \<not> is_digit c then (0, Some ErrSyntax)
      else if max_uint64 div 10 + 1 \<le> n then (max_uint64, Some ErrRange)
      else if max_uint64 < n * 10 + digit_val c then (max_uint64, Some ErrRange)
      else ParseUint_loop (n * 10 + digit_val c) cs)"

definition ParseUint :: "string \<Rightarrow> nat \<times> num_error option" where
  "ParseUint s = (if s = [] then (0, Some ErrSyntax) else ParseUint_loop 0 s)"

definition ParseInt_signed :: "bool \<Rightarrow> string \<Rightarrow> int64 \<times> num_error option" where
  "ParseInt_signed neg s =
     (case ParseUint s of
        (un, Some ErrSyntax) \<Rightarrow> (0, Some ErrSyntax)
      | (un, _) \<Rightarrow>
          if \<not> neg \<and> 2 ^ 63 \<le> un then (word_of_int (2 ^ 63 - 1), Some ErrRange)
          else if neg \<and> 2 ^ 63 < un then (word_of_int (- (2 ^ 63)), Some ErrRange)
          else (word_of_int (if neg then - int un else int un), None))"

definition ParseInt :: "string \<Rightarrow> int64 \<times> num_error option" where
  "ParseInt s =
     (case s of
        [] \<Rightarrow> (0, Some ErrSyntax)
      | c # cs \<Rightarrow>
          if c = CHR ''+'' then ParseInt_signed False cs
          else if c = CHR ''-'' then ParseInt_signed True cs
          else ParseInt_signed False s)"

fun Atoi_loop :: "int \<Rightarrow> string \<Rightarrow> int option" where
  "Atoi_loop n [] = Some n"
| "Atoi_loop n (c # cs) = (if is_digit c then Atoi_loop (n * 10 + int (digit_val c)) cs else None)"

text \<open>\<open>Atoi\<close> on a 64-bit platform: a fast path for up to 18 characters, else \<open>ParseInt\<close>.\<close>

definition Atoi :: "string \<Rightarrow> int64 \<times> num_error option" where
  "Atoi s =
     (if 0 < length s \<and> length s < 19 then
        (let signed = (hd s = CHR ''-'' \<or> hd s = CHR ''+'');
             t = (if signed then tl s else s)
         in if t = [] then (0, Some ErrSyntax)
            else case Atoi_loop 0 t of
                   None \<Rightarrow> (0, Some ErrSyntax)
                 | Some n \<Rightarrow> (word_of_int (if hd s = CHR ''-'' then - n else n), None))
      else ParseInt s)"

definition FormatInt :: "int64 \<Rightarrow> string" where
  "FormatInt w = show_int (sint w)"

section \<open>strings\<close>

fun Split :: "char \<Rightarrow> string \<Rightarrow> string list" where
  "Split sep [] = [[]]"
| "Split sep (c # cs) =
     (if c = sep then [] # Split sep cs
      else case Split sep cs of [] \<Rightarrow> [[c]] | p # ps \<Rightarrow> (c # p) # ps)"

fun SplitN :: "nat \<Rightarrow> char \<Rightarrow> string \<Rightarrow> string list" where
  "SplitN 0 sep s = []"
| "SplitN (Suc 0) sep s = [s]"
| "SplitN (Suc (Suc n)) sep s =
     (case dropWhile (\<lambda>c. c \<noteq> sep) s of
        [] \<Rightarrow> [s]
      | _ # rest \<Rightarrow> takeWhile (\<lambda>c. c \<noteq> sep) s # SplitN (Suc n) sep rest)"

text \<open>The UTF-8 encodings of the runes for which \<open>unicode.IsSpace\<close> holds.\<close>

definition space_runes :: "string list" where
  "space_runes =
     map (map char_of)
       ([[9], [10], [11], [12], [13], [32], [0xC2, 0x85], [0xC2, 0xA0], [0xE1, 0x9A, 0x80]]
        @ map (\<lambda>b. [0xE2, 0x80, b]) [0x80, 0x81, 0x82, 0x83, 0x84, 0x85, 0x86, 0x87, 0x88, 0x89, 0x8A]
        @ [[0xE2, 0x80, 0xA8], [0xE2, 0x80, 0xA9], [0xE2, 0x80, 0xAF], [0xE2, 0x81, 0x9F],
           [0xE3, 0x80, 0x80 :: nat]])"

definition starts_with :: "string \<Rightarrow> string \<Rightarrow> bool" where
  "starts_with p s \<longleftrightarrow> p \<noteq> [] \<and> length p \<le> length s \<and> take (length p) s = p"

lemma starts_with_shrinks: "starts_with p s \<Longrightarrow> length s - length p < length s"
  by (cases s; cases p) (auto simp: starts_with_def)

function trim_by :: "string list \<Rightarrow> string \<Rightarrow> string" where
  "trim_by rs s =
     (case find (\<lambda>p. starts_with p s) rs of
        None \<Rightarrow> s
      | Some p \<Rightarrow> trim_by rs (drop (length p) s))"
  by pat_completeness auto
termination
  by (relation "measure (\<lambda>(rs, s). length s)")
     (auto simp: find_Some_iff starts_with_shrinks)

declare trim_by.simps [simp del]

definition TrimSpace :: "string \<Rightarrow> string" where
  "TrimSpace s = rev (trim_by (map rev space_runes) (rev (trim_by space_runes s)))"

definition lower_char :: "char \<Rightarrow> char" where
  "lower_char c = (if 65 \<le> (of_char c :: nat) \<and> (of_char c :: nat) \<le> 90
                   then char_of ((of_char c :: nat) + 32) else c)"

definition ToLower :: "string \<Rightarrow> string" where
  "ToLower s = map lower_char s"

section \<open>hash/crc32\<close>

definition crc_shift :: "uint32 \<Rightarrow> uint32" where
  "crc_shift c = (if bit c 0 then drop_bit 1 c XOR 0xEDB88320 else drop_bit 1 c)"

definition crc_byte :: "uint32 \<Rightarrow> char \<Rightarrow> uint32" where
  "crc_byte c b = (crc_shift ^^ 8) (c XOR of_nat (of_char b))"

definition ChecksumIEEE :: "string \<Rightarrow> uint32" where
  "ChecksumIEEE s = NOT (foldl crc_byte (NOT 0) s)"

section \<open>time\<close>

text \<open>
  A \<open>time.Time\<close> is its distance from the Unix epoch in nanoseconds, an unbounded integer (Go
  keeps 64-bit seconds beside the nanoseconds). A \<open>time.Duration\<close> is an \<open>int64\<close> of nanoseconds.
\<close>

type_synonym time = int
type_synonym duration = int64

definition zero_time :: time where
  "zero_time = - 62135596800 * 10 ^ 9"

definition IsZero :: "time \<Rightarrow> bool" where
  "IsZero t \<longleftrightarrow> t = zero_time"

definition Add :: "time \<Rightarrow> duration \<Rightarrow> time" where
  "Add t d = t + sint d"

definition UnixNano :: "time \<Rightarrow> int64" where
  "UnixNano t = word_of_int t"

definition UnixMilli :: "time \<Rightarrow> int64" where
  "UnixMilli t = word_of_int (t div 10 ^ 6)"

text \<open>\<open>Duration.Milliseconds\<close>: Go's division truncates towards zero.\<close>

definition Milliseconds :: "duration \<Rightarrow> int64" where
  "Milliseconds d = word_of_int (sgn (sint d) * (\<bar>sint d\<bar> div 10 ^ 6))"

definition Millisecond :: duration where [go_durations]: "Millisecond = 1000000"
definition Second :: duration where [go_durations]: "Second = 1000000000"
definition Minute :: duration where [go_durations]: "Minute = 60000000000"

section \<open>Facts\<close>

lemma ParseUint_loop_digits:
  assumes "\<forall>c \<in> set s. is_digit c" and "digits_val n s \<le> max_uint64"
  shows "ParseUint_loop n s = (digits_val n s, None)"
  using assms
proof (induction s arbitrary: n)
  case (Cons c cs)
  have le: "n * 10 + digit_val c \<le> max_uint64"
    using digits_val_mono [of "n * 10 + digit_val c" cs] Cons.prems(2) by simp
  then have "\<not> max_uint64 div 10 + 1 \<le> n" by (simp add: max_uint64_def)
  with le Cons show ?case by simp
qed simp

lemma ParseUint_show_nat: "n \<le> max_uint64 \<Longrightarrow> ParseUint (show_nat n) = (n, None)"
  by (simp add: ParseUint_def ParseUint_loop_digits show_nat_digits)

lemma ParseInt_unsigned:
  "is_digit c \<Longrightarrow> ParseInt (c # cs) = ParseInt_signed False (c # cs)"
  by (simp add: ParseInt_def)

text \<open>Formatting an \<open>int64\<close> and parsing it back gives the same value and no error.\<close>

lemma ParseInt_show_int:
  assumes "- (2 ^ 63) \<le> i" and "i < 2 ^ 63"
  shows "ParseInt (show_int i) = (word_of_int i, None)"
proof (cases "i < 0")
  case True
  with assms have "nat (- i) \<le> 2 ^ 63" by simp
  moreover then have "ParseUint (show_nat (nat (- i))) = (nat (- i), None)"
    by (intro ParseUint_show_nat) (simp add: max_uint64_def)
  ultimately show ?thesis
    using True by (simp add: show_int_def ParseInt_def ParseInt_signed_def)
next
  case False
  with assms have b: "nat i < 2 ^ 63" by simp
  then have p: "ParseUint (show_nat (nat i)) = (nat i, None)"
    by (intro ParseUint_show_nat) (simp add: max_uint64_def)
  obtain c cs where s: "show_nat (nat i) = c # cs"
    by (cases "show_nat (nat i)") auto
  then have "is_digit c" using show_nat_Cons by blast
  with s p b False show ?thesis
    by (simp add: show_int_def ParseInt_unsigned ParseInt_signed_def)
qed

lemma ParseInt_FormatInt [simp]: "ParseInt (FormatInt w) = (w, None)"
proof -
  have "- (2 ^ 63) \<le> sint w" "sint w < 2 ^ 63"
    using sint_range_size [of w] by (simp_all add: word_size)
  then show ?thesis by (simp add: FormatInt_def ParseInt_show_int)
qed

lemma bar_notin_FormatInt [simp]: "CHR ''|'' \<notin> set (FormatInt w)"
  by (simp add: FormatInt_def)

text \<open>The fast path of \<open>Atoi\<close> agrees with \<open>ParseInt\<close>.\<close>

lemma Atoi_loop_digits:
  "Atoi_loop (int n) s = (if \<forall>c \<in> set s. is_digit c then Some (int (digits_val n s)) else None)"
proof (induction s arbitrary: n)
  case (Cons c cs)
  have e: "int n * 10 + int (digit_val c) = int (n * 10 + digit_val c)" by simp
  show ?case
    by (simp only: Atoi_loop.simps e Cons.IH) simp
qed simp

lemma ParseUint_loop_syntax:
  assumes "\<not> (\<forall>c \<in> set s. is_digit c)" and "(n + 1) * 10 ^ length s \<le> max_uint64"
  shows "ParseUint_loop n s = (0, Some ErrSyntax)"
  using assms
proof (induction s arbitrary: n)
  case (Cons c cs)
  show ?case
  proof (cases "is_digit c")
    case True
    then have d: "digit_val c \<le> 9" by (rule digit_val_le)
    have "(n * 10 + digit_val c + 1) * 10 ^ length cs \<le> ((n + 1) * 10) * 10 ^ length cs"
      using d by (intro mult_le_mono1) simp
    also have "\<dots> \<le> max_uint64" using Cons.prems(2) by (simp add: algebra_simps)
    finally have b: "(n * 10 + digit_val c + 1) * 10 ^ length cs \<le> max_uint64" .
    have "(n * 10 + digit_val c + 1) * 1 \<le> (n * 10 + digit_val c + 1) * 10 ^ length cs"
      by (intro mult_le_mono2) simp
    from order_trans [OF this b] have "n * 10 + digit_val c \<le> max_uint64" by simp
    moreover then have "\<not> max_uint64 div 10 + 1 \<le> n" by (simp add: max_uint64_def)
    ultimately show ?thesis using True Cons.IH [OF _ b] Cons.prems(1) by simp
  qed simp
qed simp

lemma digits_val_bound:
  "\<forall>c \<in> set s. is_digit c \<Longrightarrow> digits_val n s < (n + 1) * 10 ^ length s"
proof (induction s arbitrary: n)
  case (Cons c cs)
  then have d: "digit_val c \<le> 9" by (simp add: digit_val_le)
  have "digits_val (n * 10 + digit_val c) cs < (n * 10 + digit_val c + 1) * 10 ^ length cs"
    using Cons by simp
  also have "\<dots> \<le> ((n + 1) * 10) * 10 ^ length cs"
    using d by (intro mult_le_mono1) simp
  finally show ?case by (simp add: algebra_simps)
qed simp

lemma ParseInt_signed_short:
  assumes "s \<noteq> []" and "length s < 19"
  shows "ParseInt_signed neg s =
    (case Atoi_loop 0 s of
       None \<Rightarrow> (0, Some ErrSyntax)
     | Some n \<Rightarrow> (word_of_int (if neg then - n else n), None))"
proof -
  have p: "(10::nat) ^ length s \<le> 10 ^ 18" using assms(2) by (intro power_increasing) auto
  then have q: "(0 + 1) * 10 ^ length s \<le> max_uint64"
    by (simp add: max_uint64_def)
  show ?thesis
  proof (cases "\<forall>c \<in> set s. is_digit c")
    case True
    then have v: "digits_val 0 s < 10 ^ 18" using digits_val_bound [of s 0] p by simp
    then have "ParseUint s = (digits_val 0 s, None)"
      using True assms(1) by (simp add: ParseUint_def ParseUint_loop_digits max_uint64_def)
    then show ?thesis
      using v True Atoi_loop_digits [of 0 s] by (simp add: ParseInt_signed_def)
  next
    case False
    then have "ParseUint s = (0, Some ErrSyntax)"
      using assms(1) ParseUint_loop_syntax [OF False q] by (simp add: ParseUint_def)
    then show ?thesis
      using False Atoi_loop_digits [of 0 s] by (auto simp: ParseInt_signed_def)
  qed
qed

lemma ParseInt_signed_Nil: "ParseInt_signed neg [] = (0, Some ErrSyntax)"
  by (simp add: ParseInt_signed_def ParseUint_def)

lemma Atoi_ParseInt: "Atoi s = ParseInt s"
proof (cases s)
  case Nil
  then show ?thesis by (simp add: Atoi_def)
next
  case (Cons c cs)
  show ?thesis
  proof (cases "length s < 19")
    case True
    with Cons show ?thesis
      using ParseInt_signed_short [of cs] ParseInt_signed_short [of s]
      by (cases "cs = []")
         (auto simp: Atoi_def ParseInt_def ParseInt_signed_Nil Let_def split: option.splits)
  next
    case False
    with Cons show ?thesis by (simp add: Atoi_def)
  qed
qed

text \<open>Splitting at a separator that a field does not contain.\<close>

lemma SplitN_field:
  "sep \<notin> set f \<Longrightarrow> SplitN (Suc (Suc n)) sep (f @ sep # s) = f # SplitN (Suc n) sep s"
proof -
  assume a: "sep \<notin> set f"
  then have "takeWhile (\<lambda>c. c \<noteq> sep) (f @ sep # s) = f"
    and "dropWhile (\<lambda>c. c \<noteq> sep) (f @ sep # s) = sep # s"
    by (induction f) auto
  then show ?thesis by simp
qed

lemma SplitN_length: "length (SplitN n sep s) \<le> n"
proof (induction n sep s rule: SplitN.induct)
  case (3 n sep s)
  then show ?case by (auto split: list.splits)
qed auto

lemma Split_nonempty [simp]: "Split sep s \<noteq> []"
  by (induction s) (auto split: list.splits)

text \<open>The checksum of the standard test vector.\<close>

lemma funpow_8: "(f ^^ 8) x = f (f (f (f (f (f (f (f x)))))))"
  by (simp add: eval_nat_numeral)

lemma ChecksumIEEE_check: "ChecksumIEEE ''123456789'' = 0xCBF43926"
  by (simp add: ChecksumIEEE_def crc_byte_def crc_shift_def funpow_8)

lemma trim_by_Nil [simp]: "trim_by rs [] = []"
proof -
  have "find (\<lambda>p. starts_with p []) rs = None"
    by (auto simp: find_None_iff starts_with_def)
  then show ?thesis by (simp add: trim_by.simps)
qed

lemma TrimSpace_Nil [simp]: "TrimSpace [] = []"
  by (simp add: TrimSpace_def)

end
