(* ===== verification/Types.thy ===== *)
theory Types
  imports GoStd
begin

text \<open>
  The data the engine passes around (\<open>internal/engine/types.go\<close>), one record per Go struct, and the
  error values of the engine: the package-level sentinels of \<open>service.go\<close> and \<open>breaker.go\<close>, the
  errors \<open>redis_store.go\<close> builds on the spot, and the errors its callees hand up.
\<close>

section \<open>Requests, results and events\<close>

record PlaceBidRequest =
  AuctionID :: string
  BidID :: string
  UserID :: string
  AmountCents :: int64

record PlaceBidResult =
  Accepted :: bool
  Duplicate :: bool
  Reason :: string
  CurrentPrice :: int64
  WinnerUserID :: string
  Version :: int64
  EventID :: string
  ServerUnixMilli :: int64

record CreateAuctionRequest =
  NewAuctionID :: string
  OpeningPriceCents :: int64
  EndAt :: time

record AuctionEvent =
  evID :: string
  evAuctionID :: string
  evBidID :: string
  evUserID :: string
  evAmountCents :: int64
  evVersion :: int64
  evServerUnixMilli :: int64

text \<open>Go's zero value \<open>PlaceBidResult{}\<close>.\<close>

definition zero_result :: PlaceBidResult where
  "zero_result =
     \<lparr>Accepted = False, Duplicate = False, Reason = [], CurrentPrice = 0, WinnerUserID = [],
      Version = 0, EventID = [], ServerUnixMilli = 0\<rparr>"

section \<open>Errors\<close>

datatype go_error =
    ErrInvalidAuctionID
  | ErrInvalidBidID
  | ErrInvalidUserID
  | ErrInvalidAmount
  | ErrRedisBreakerOpen
  | ErrUnexpectedResponse
  | ErrReason string
  | DeadlineExceeded
  | RedisNil
  | ClientError string

fun error_text :: "go_error \<Rightarrow> string" where
  "error_text ErrInvalidAuctionID = ''auction_id is required''"
| "error_text ErrInvalidBidID = ''bid_id is required''"
| "error_text ErrInvalidUserID = ''user_id is required''"
| "error_text ErrInvalidAmount = ''amount must be > 0''"
| "error_text ErrRedisBreakerOpen = ''redis breaker is open''"
| "error_text ErrUnexpectedResponse = ''unexpected script response''"
| "error_text (ErrReason r) = r"
| "error_text DeadlineExceeded = ''context deadline exceeded''"
| "error_text RedisNil = ''redis: nil''"
| "error_text (ClientError m) = m"

end
