(* ===== verification/Breaker.thy ===== *)
theory Breaker
  imports Types
begin

text \<open>
  The circuit breaker of \<open>internal/engine/breaker.go\<close>. The struct's atomics are fields of a record;
  each method is a function of the state and of the clock readings it makes. The methods are
  modelled first as one goroutine runs them (its compare-and-swap then succeeds at once), with the
  contract the store relies on as the locale \<open>breaker_contract\<close>; the second half models the
  methods as sequences of atomic accesses interleaved between goroutines.
\<close>

section \<open>The struct and its methods\<close>

record circuitBreaker =
  failureThreshold :: int32
  openForNs :: int64
  consecutiveFails :: int32
  openUntilNs :: int64

definition newCircuitBreaker :: "int64 \<Rightarrow> duration \<Rightarrow> circuitBreaker" where
  "newCircuitBreaker threshold openFor =
     (let threshold' = (if sint threshold \<le> 0 then 5 else threshold);
          openFor' = (if sint openFor \<le> 0 then 500 * Millisecond else openFor)
      in \<lparr>failureThreshold = word_of_int (sint threshold'), openForNs = openFor',
          consecutiveFails = 0, openUntilNs = 0\<rparr>)"

definition allow :: "int64 \<Rightarrow> circuitBreaker \<Rightarrow> bool \<times> circuitBreaker" where
  "allow now b =
     (if openUntilNs b = 0 then (True, b)
      else if sint now < sint (openUntilNs b) then (False, b)
      else (True, b\<lparr>openUntilNs := 0, consecutiveFails := 0\<rparr>))"

definition success :: "circuitBreaker \<Rightarrow> circuitBreaker" where
  "success b = b\<lparr>consecutiveFails := 0, openUntilNs := 0\<rparr>"

definition fail :: "int64 \<Rightarrow> circuitBreaker \<Rightarrow> circuitBreaker" where
  "fail now b =
     (let b' = b\<lparr>consecutiveFails := consecutiveFails b + 1\<rparr>
      in if sint (consecutiveFails b') < sint (failureThreshold b) then b'
         else b'\<lparr>openUntilNs := now + openForNs b\<rparr>)"

definition isOpen :: "int64 \<Rightarrow> circuitBreaker \<Rightarrow> bool" where
  "isOpen now b \<longleftrightarrow> openUntilNs b \<noteq> 0 \<and> sint now < sint (openUntilNs b)"

section \<open>Runs of the sequential breaker\<close>

datatype breaker_event = Ask int64 | Succeed | Fail int64

fun breaker_step :: "circuitBreaker \<Rightarrow> breaker_event \<Rightarrow> circuitBreaker" where
  "breaker_step b (Ask now) = snd (allow now b)"
| "breaker_step b Succeed = success b"
| "breaker_step b (Fail now) = fail now b"

definition breaker_run :: "circuitBreaker \<Rightarrow> breaker_event list \<Rightarrow> circuitBreaker" where
  "breaker_run b es = foldl breaker_step b es"

text \<open>
  The invariant: positive settings, a failure count that never went negative, and the breaker is
  armed exactly when the count has reached the threshold.
\<close>

definition breaker_inv :: "circuitBreaker \<Rightarrow> bool" where
  "breaker_inv b \<longleftrightarrow>
     0 < sint (failureThreshold b) \<and> 0 < sint (openForNs b) \<and> 0 \<le> sint (consecutiveFails b) \<and>
     (openUntilNs b = 0 \<longleftrightarrow> sint (consecutiveFails b) < sint (failureThreshold b))"

text \<open>
  The two counters stay in range: fewer than \<open>2^31\<close> failures without a reset, and a deadline
  \<open>now + openFor\<close> that is positive and does not wrap.
\<close>

definition no_wrap :: "circuitBreaker \<Rightarrow> breaker_event \<Rightarrow> bool" where
  "no_wrap b e \<longleftrightarrow>
     (case e of
        Fail now \<Rightarrow> sint (consecutiveFails b) < 2 ^ 31 - 1 \<and> 0 \<le> sint now \<and>
                    sint now + sint (openForNs b) < 2 ^ 63
      | _ \<Rightarrow> True)"

section \<open>Goroutines sharing one breaker\<close>

text \<open>
  Where a goroutine stands inside a method. \<open>ACheck u\<close> and \<open>ACas u\<close> hold the value
  \<open>until\<close> loaded by \<open>allow\<close>; \<open>AReset\<close> has won the compare-and-swap and is about to clear
  the failure count; \<open>ADone r\<close> has returned \<open>r\<close>. \<open>FStore\<close> has counted a failure that
  reached the threshold.
\<close>

datatype breaker_pc =
    Idle | ALoad | ACheck int64 | ACas int64 | AReset | ADone bool
  | SFails | SUntil | FAdd | FStore

datatype breaker_op = OpAllow | OpSuccess | OpFail | OpClock

record breaker_sys =
  shared :: circuitBreaker
  clock_ns :: int64
  pcs :: "nat \<Rightarrow> breaker_pc"

abbreviation goto :: "breaker_sys \<Rightarrow> nat \<Rightarrow> breaker_pc \<Rightarrow> breaker_sys" where
  "goto s i p \<equiv> s\<lparr>pcs := (pcs s)(i := p)\<rparr>"

inductive breaker_thread :: "breaker_op \<Rightarrow> breaker_sys \<Rightarrow> breaker_sys \<Rightarrow> bool" where
  call_allow: "pcs s i = Idle \<Longrightarrow> breaker_thread OpAllow s (goto s i ALoad)"
| load_zero: "pcs s i = ALoad \<Longrightarrow> openUntilNs (shared s) = 0 \<Longrightarrow>
    breaker_thread OpAllow s (goto s i (ADone True))"
| load_armed: "pcs s i = ALoad \<Longrightarrow> openUntilNs (shared s) \<noteq> 0 \<Longrightarrow>
    breaker_thread OpAllow s (goto s i (ACheck (openUntilNs (shared s))))"
| check_open: "pcs s i = ACheck u \<Longrightarrow> sint (clock_ns s) < sint u \<Longrightarrow>
    breaker_thread OpAllow s (goto s i (ADone False))"
| check_elapsed: "pcs s i = ACheck u \<Longrightarrow> \<not> sint (clock_ns s) < sint u \<Longrightarrow>
    breaker_thread OpAllow s (goto s i (ACas u))"
| cas_won: "pcs s i = ACas u \<Longrightarrow> openUntilNs (shared s) = u \<Longrightarrow>
    breaker_thread OpAllow s (goto (s\<lparr>shared := (shared s)\<lparr>openUntilNs := 0\<rparr>\<rparr>) i AReset)"
| cas_lost: "pcs s i = ACas u \<Longrightarrow> openUntilNs (shared s) \<noteq> u \<Longrightarrow>
    breaker_thread OpAllow s (goto s i ALoad)"
| reset: "pcs s i = AReset \<Longrightarrow>
    breaker_thread OpAllow s (goto (s\<lparr>shared := (shared s)\<lparr>consecutiveFails := 0\<rparr>\<rparr>) i (ADone True))"
| return: "pcs s i = ADone r \<Longrightarrow> breaker_thread OpAllow s (goto s i Idle)"
| call_success: "pcs s i = Idle \<Longrightarrow> breaker_thread OpSuccess s (goto s i SFails)"
| success_fails: "pcs s i = SFails \<Longrightarrow>
    breaker_thread OpSuccess s (goto (s\<lparr>shared := (shared s)\<lparr>consecutiveFails := 0\<rparr>\<rparr>) i SUntil)"
| success_until: "pcs s i = SUntil \<Longrightarrow>
    breaker_thread OpSuccess s (goto (s\<lparr>shared := (shared s)\<lparr>openUntilNs := 0\<rparr>\<rparr>) i Idle)"
| call_fail: "pcs s i = Idle \<Longrightarrow> breaker_thread OpFail s (goto s i FAdd)"
| fail_below: "pcs s i = FAdd \<Longrightarrow>
    sint (consecutiveFails (shared s) + 1) < sint (failureThreshold (shared s)) \<Longrightarrow>
    breaker_thread OpFail s
      (goto (s\<lparr>shared := (shared s)\<lparr>consecutiveFails := consecutiveFails (shared s) + 1\<rparr>\<rparr>) i Idle)"
| fail_reached: "pcs s i = FAdd \<Longrightarrow>
    \<not> sint (consecutiveFails (shared s) + 1) < sint (failureThreshold (shared s)) \<Longrightarrow>
    breaker_thread OpFail s
      (goto (s\<lparr>shared := (shared s)\<lparr>consecutiveFails := consecutiveFails (shared s) + 1\<rparr>\<rparr>) i FStore)"
| fail_store: "pcs s i = FStore \<Longrightarrow>
    breaker_thread OpFail s
      (goto (s\<lparr>shared := (shared s)\<lparr>openUntilNs := clock_ns s + openForNs (shared s)\<rparr>\<rparr>) i Idle)"
| tick: "sint (clock_ns s) \<le> sint t \<Longrightarrow> breaker_thread OpClock s (s\<lparr>clock_ns := t\<rparr>)"

text \<open>Runs in which nobody calls \<open>success\<close>.\<close>

inductive breaker_runs :: "breaker_sys \<Rightarrow> breaker_sys \<Rightarrow> bool" where
  runs_refl: "breaker_runs s s"
| runs_step: "breaker_runs s t \<Longrightarrow> breaker_thread op t u \<Longrightarrow> op \<noteq> OpSuccess \<Longrightarrow> breaker_runs s u"

section \<open>The abstract breaker\<close>

datatype breaker_spec = Closed nat | Tripped int

fun spec_step :: "int \<Rightarrow> int \<Rightarrow> breaker_spec \<Rightarrow> breaker_event \<Rightarrow> breaker_spec" where
  "spec_step thr dur (Closed k) (Ask now) = Closed k"
| "spec_step thr dur (Tripped u) (Ask now) = (if sint now < u then Tripped u else Closed 0)"
| "spec_step thr dur a Succeed = Closed 0"
| "spec_step thr dur (Closed k) (Fail now) =
     (if int k + 1 < thr then Closed (k + 1) else Tripped (sint now + dur))"
| "spec_step thr dur (Tripped u) (Fail now) = Tripped (sint now + dur)"

definition breaker_abs :: "circuitBreaker \<Rightarrow> breaker_spec" where
  "breaker_abs b = (if openUntilNs b = 0 then Closed (nat (sint (consecutiveFails b)))
                    else Tripped (sint (openUntilNs b)))"

fun run_no_wrap :: "circuitBreaker \<Rightarrow> breaker_event list \<Rightarrow> bool" where
  "run_no_wrap b [] = True"
| "run_no_wrap b (e # es) = (no_wrap b e \<and> run_no_wrap (breaker_step b e) es)"

text \<open>
  The states in which a window up to \<open>u\<close> is open: the armed deadline is at least \<open>u\<close>, every
  goroutine inside \<open>allow\<close> has loaded such a deadline or nothing yet, and none has been let in.
\<close>

fun pc_refusing :: "int \<Rightarrow> breaker_pc \<Rightarrow> bool" where
  "pc_refusing u (ACheck v) = (u \<le> sint v)"
| "pc_refusing u (ACas v) = False"
| "pc_refusing u AReset = False"
| "pc_refusing u (ADone r) = (\<not> r)"
| "pc_refusing u SFails = False"
| "pc_refusing u SUntil = False"
| "pc_refusing u p = True"

definition window_open :: "int \<Rightarrow> breaker_sys \<Rightarrow> bool" where
  "window_open u s \<longleftrightarrow>
     0 < u \<and> u \<le> sint (openUntilNs (shared s)) \<and>
     u \<le> sint (clock_ns s) + sint (openForNs (shared s)) \<and> (\<forall>i. pc_refusing u (pcs s i))"

text \<open>One goroutine at a point of \<open>allow\<close>, the others idle, with the breaker open until 1300.\<close>

definition one_caller :: "breaker_pc \<Rightarrow> breaker_sys" where
  "one_caller p =
     \<lparr>shared = \<lparr>failureThreshold = 1, openForNs = 1000, consecutiveFails = 1, openUntilNs = 1300\<rparr>,
      clock_ns = 400, pcs = (\<lambda>_. Idle)(0 := p)\<rparr>"

section \<open>The contract a caller relies on\<close>

locale breaker_contract =
  fixes may_pass :: "int64 \<Rightarrow> 'b \<Rightarrow> bool \<times> 'b"
    and on_success :: "'b \<Rightarrow> 'b"
    and is_open :: "int64 \<Rightarrow> 'b \<Rightarrow> bool"
  assumes open_refuses: "is_open now b \<Longrightarrow> may_pass now b = (False, b)"
    and closed_passes: "\<not> is_open now b \<Longrightarrow> fst (may_pass now b)"
    and passing_closes: "fst (may_pass now b) \<Longrightarrow> \<not> is_open now' (snd (may_pass now b))"
    and success_closes: "\<not> is_open now (on_success b)"
begin

lemma passes_iff_closed: "fst (may_pass now b) \<longleftrightarrow> \<not> is_open now b"
  using open_refuses closed_passes by (metis fst_conv)

lemma pass_again: "fst (may_pass now b) \<Longrightarrow> fst (may_pass now' (snd (may_pass now b)))"
  using passing_closes closed_passes by blast

lemma refused_unchanged: "\<not> fst (may_pass now b) \<Longrightarrow> snd (may_pass now b) = b"
  using passes_iff_closed open_refuses by simp

lemma success_passes: "fst (may_pass now (on_success b))"
  using success_closes closed_passes by blast

end

interpretation brk: breaker_contract allow success isOpen
  by unfold_locales (auto simp: allow_def isOpen_def success_def split: if_splits)

section \<open>Lemmas\<close>

lemma sint_add_int64:
  fixes a b :: int64
  assumes "- (2 ^ 63) \<le> sint a + sint b" and "sint a + sint b < 2 ^ 63"
  shows "sint (a + b) = sint a + sint b"
  using assms by (simp add: sint_word_ariths signed_take_bit_int_eq_self)

lemma sint_inc_int32:
  fixes a :: int32
  assumes "sint a < 2 ^ 31 - 1"
  shows "sint (a + 1) = sint a + 1"
proof -
  have "- (2 ^ 31) \<le> sint a" using sint_range_size [of a] by (simp add: word_size)
  with assms show ?thesis by (simp add: sint_word_ariths signed_take_bit_int_eq_self)
qed

lemma breaker_inv_allow: "breaker_inv b \<Longrightarrow> breaker_inv (snd (allow now b))"
  by (auto simp: breaker_inv_def allow_def)

lemma breaker_inv_success: "breaker_inv b \<Longrightarrow> breaker_inv (success b)"
  by (auto simp: breaker_inv_def success_def)

lemma breaker_inv_fail:
  assumes "breaker_inv b" and "no_wrap b (Fail now)"
  shows "breaker_inv (fail now b)"
proof -
  have c: "sint (consecutiveFails b + 1) = sint (consecutiveFails b) + 1"
    using assms(2) by (intro sint_inc_int32) (simp add: no_wrap_def)
  have "sint (now + openForNs b) = sint now + sint (openForNs b)"
    using assms by (intro sint_add_int64) (auto simp: no_wrap_def breaker_inv_def)
  then have "0 < sint (now + openForNs b)"
    using assms by (simp add: no_wrap_def breaker_inv_def)
  then have "now + openForNs b \<noteq> 0" by auto
  with assms(1) c show ?thesis
    by (auto simp: breaker_inv_def fail_def Let_def)
qed

lemma breaker_inv_step: "breaker_inv b \<Longrightarrow> no_wrap b e \<Longrightarrow> breaker_inv (breaker_step b e)"
  by (cases e) (simp_all add: breaker_inv_allow breaker_inv_success breaker_inv_fail)

lemma breaker_step_settings [simp]:
  "failureThreshold (breaker_step b e) = failureThreshold b"
  "openForNs (breaker_step b e) = openForNs b"
  by (cases e; simp add: allow_def success_def fail_def Let_def)+

lemma breaker_abs_Ask: "breaker_abs (snd (allow now b)) = spec_step thr dur (breaker_abs b) (Ask now)"
  by (simp add: breaker_abs_def allow_def)

lemma breaker_abs_fail:
  assumes inv: "breaker_inv b" and nw: "no_wrap b (Fail now)"
  shows "breaker_abs (fail now b) =
         spec_step (sint (failureThreshold b)) (sint (openForNs b)) (breaker_abs b) (Fail now)"
proof -
  have c: "sint (consecutiveFails b + 1) = sint (consecutiveFails b) + 1"
    using nw by (intro sint_inc_int32) (simp add: no_wrap_def)
  have d: "sint (now + openForNs b) = sint now + sint (openForNs b)"
    using assms by (intro sint_add_int64) (auto simp: no_wrap_def breaker_inv_def)
  then have "now + openForNs b \<noteq> 0"
    using assms by (auto simp: no_wrap_def breaker_inv_def)
  with assms c d show ?thesis
    by (auto simp: breaker_abs_def breaker_inv_def fail_def Let_def nat_add_distrib)
qed

lemma breaker_abs_step:
  "breaker_inv b \<Longrightarrow> no_wrap b e \<Longrightarrow>
   breaker_abs (breaker_step b e) =
   spec_step (sint (failureThreshold b)) (sint (openForNs b)) (breaker_abs b) e"
  by (cases e) (simp_all add: breaker_abs_Ask breaker_abs_fail, simp add: breaker_abs_def success_def)

lemma breaker_run_inv:
  "breaker_inv b \<Longrightarrow> run_no_wrap b es \<Longrightarrow> breaker_inv (breaker_run b es)"
  by (induction es arbitrary: b) (simp_all add: breaker_run_def breaker_inv_step)

lemma breaker_run_refines:
  "breaker_inv b \<Longrightarrow> run_no_wrap b es \<Longrightarrow>
   breaker_abs (breaker_run b es) =
   foldl (spec_step (sint (failureThreshold b)) (sint (openForNs b))) (breaker_abs b) es"
proof (induction es arbitrary: b)
  case (Cons e es)
  then have "breaker_inv (breaker_step b e)" by (simp add: breaker_inv_step)
  from Cons.IH [OF this] Cons.prems show ?case
    by (simp add: breaker_run_def breaker_abs_step)
qed (simp add: breaker_run_def)

lemma sint_scast_int32:
  fixes n :: int64
  assumes "- (2 ^ 31) \<le> sint n" and "sint n < 2 ^ 31"
  shows "sint (scast n :: int32) = sint n"
proof -
  have "sint (word_of_int (sint n) :: int32) = signed_take_bit 31 (sint n)"
    by (simp only: sint_sbintrunc') simp
  with assms show ?thesis by (simp add: signed_take_bit_int_eq_self)
qed

lemma newCircuitBreaker_settings:
  assumes "0 < sint n" and "sint n < 2 ^ 31" and "0 < sint d"
  shows "sint (failureThreshold (newCircuitBreaker n d)) = sint n"
    and "openForNs (newCircuitBreaker n d) = d"
    and "breaker_inv (newCircuitBreaker n d)"
    and "breaker_abs (newCircuitBreaker n d) = Closed 0"
  using assms
  by (simp_all add: newCircuitBreaker_def breaker_inv_def breaker_abs_def sint_scast_int32)

lemma fails_no_wrap:
  assumes "sint (consecutiveFails b) + int (length ts) < 2 ^ 31"
    and "\<forall>t \<in> set ts. 0 \<le> sint t \<and> sint t + sint (openForNs b) < 2 ^ 63"
  shows "run_no_wrap b (map Fail ts)"
  using assms
proof (induction ts arbitrary: b)
  case (Cons t ts)
  have "sint (consecutiveFails b + 1) = sint (consecutiveFails b) + 1"
    using Cons.prems(1) by (intro sint_inc_int32) simp
  moreover have "consecutiveFails (fail t b) = consecutiveFails b + 1" "openForNs (fail t b) = openForNs b"
    by (simp_all add: fail_def Let_def)
  ultimately have "run_no_wrap (fail t b) (map Fail ts)"
    using Cons.prems by (intro Cons.IH) simp_all
  with Cons.prems show ?case by (simp add: no_wrap_def)
qed simp

lemma spec_tripped_fails:
  "ts \<noteq> [] \<Longrightarrow> foldl (spec_step thr dur) (Tripped u) (map Fail ts) = Tripped (sint (last ts) + dur)"
proof (induction ts arbitrary: u)
  case (Cons t ts)
  then show ?case by (cases "ts = []") simp_all
qed simp

lemma spec_closed_fails:
  "int k < thr \<Longrightarrow> foldl (spec_step thr dur) (Closed k) (map Fail ts) =
    (if int k + int (length ts) < thr then Closed (k + length ts)
     else Tripped (sint (last ts) + dur))"
proof (induction ts arbitrary: k)
  case (Cons t ts)
  show ?case
  proof (cases "int k + 1 < thr")
    case True
    then have "foldl (spec_step thr dur) (Closed k) (map Fail (t # ts)) =
        (if int (k + 1) + int (length ts) < thr then Closed (k + 1 + length ts)
         else Tripped (sint (last ts) + dur))"
      using Cons.IH [of "k + 1"] by simp
    with True show ?thesis by (cases "ts = []") simp_all
  next
    case False
    then show ?thesis by (cases "ts = []") (simp_all add: spec_tripped_fails)
  qed
qed simp

lemma isOpen_abs: "isOpen now b \<longleftrightarrow> (\<exists>u. breaker_abs b = Tripped u \<and> sint now < u)"
  by (auto simp: isOpen_def breaker_abs_def)

lemma window_open_step:
  assumes "breaker_thread op s t" and "op \<noteq> OpSuccess" and "window_open u s"
    and "sint (clock_ns s) < u" and "sint (clock_ns s) + sint (openForNs (shared s)) < 2 ^ 63"
  shows "window_open u t"
  using assms
proof (induction rule: breaker_thread.induct)
  case (check_elapsed s i v)
  then have "pc_refusing u (ACheck v)" by (auto simp: window_open_def dest: spec [of _ i])
  with check_elapsed show ?case by simp
next
  case (cas_won s i v)
  then have "pc_refusing u (ACas v)" by (auto simp: window_open_def dest: spec [of _ i])
  then show ?case by simp
next
  case (cas_lost s i v)
  then have "pc_refusing u (ACas v)" by (auto simp: window_open_def dest: spec [of _ i])
  then show ?case by simp
next
  case (reset s i)
  then have "pc_refusing u AReset" by (auto simp: window_open_def dest: spec [of _ i])
  then show ?case by simp
next
  case (fail_store s i)
  have "sint (clock_ns s + openForNs (shared s)) = sint (clock_ns s) + sint (openForNs (shared s))"
    using fail_store by (intro sint_add_int64) (auto simp: window_open_def)
  with fail_store show ?case by (auto simp: window_open_def)
qed (auto simp: window_open_def)

lemma breaker_thread_frame:
  "breaker_thread op s t \<Longrightarrow>
     sint (clock_ns s) \<le> sint (clock_ns t) \<and> openForNs (shared t) = openForNs (shared s)"
  by (induction rule: breaker_thread.induct) auto

lemma window_open_runs:
  assumes "breaker_runs s t" and "window_open u s"
    and "sint (clock_ns t) < u" and "sint (clock_ns t) + sint (openForNs (shared s)) < 2 ^ 63"
  shows "window_open u t"
proof -
  have "window_open u t \<and> openForNs (shared t) = openForNs (shared s)"
    using assms
  proof (induction rule: breaker_runs.induct)
    case (runs_step s t op v)
    note frame = breaker_thread_frame [OF runs_step.hyps(2)]
    with runs_step have "window_open u t" "openForNs (shared t) = openForNs (shared s)" by auto
    with runs_step frame show ?case by (auto intro: window_open_step)
  qed simp
  then show ?thesis ..
qed

section \<open>Properties\<close>

text \<open>
  (C22) A breaker built with a threshold \<open>n\<close> and an open time \<open>d\<close>, after any number of failures
  in a row, is open at a time \<open>now\<close> exactly when at least \<open>n\<close> failures were counted and
  \<open>now\<close> is before the last failure's time plus \<open>d\<close>; and it lets a call pass exactly when it is
  not open.
\<close>

theorem breaker_trips_at_threshold:
  assumes "0 < sint n" and "sint n < 2 ^ 31" and "0 < sint d"
    and "int (length ts) < 2 ^ 31"
    and "\<forall>t \<in> set ts. 0 \<le> sint t \<and> sint t + sint d < 2 ^ 63"
    and "b = breaker_run (newCircuitBreaker n d) (map Fail ts)"
  shows "(isOpen now b \<longleftrightarrow> sint n \<le> int (length ts) \<and> sint now < sint (last ts) + sint d) \<and>
         (fst (allow now b) \<longleftrightarrow> \<not> isOpen now b)"
proof -
  note new = newCircuitBreaker_settings [OF assms(1-3)]
  have zero: "consecutiveFails (newCircuitBreaker n d) = 0" by (simp add: newCircuitBreaker_def Let_def)
  have "run_no_wrap (newCircuitBreaker n d) (map Fail ts)"
    using assms new zero by (intro fails_no_wrap) simp_all
  then have "breaker_abs b = foldl (spec_step (sint n) (sint d)) (Closed 0) (map Fail ts)"
    using breaker_run_refines [OF new(3)] new assms(6) by simp
  then have "isOpen now b \<longleftrightarrow> sint n \<le> int (length ts) \<and> sint now < sint (last ts) + sint d"
    using assms(1) by (simp add: isOpen_abs spec_closed_fails not_less)
  then show ?thesis by (simp add: brk.passes_iff_closed)
qed

theorem breaker_trips_at_threshold_witness:
  "isOpen 1200 (breaker_run (newCircuitBreaker 2 1000) (map Fail [100, 300])) \<and>
   \<not> isOpen 1200 (breaker_run (newCircuitBreaker 2 1000) (map Fail [300]))"
  using breaker_trips_at_threshold [of 2 1000 "[100, 300]" _ 1200, OF _ _ _ _ _ refl]
    breaker_trips_at_threshold [of 2 1000 "[300]" _ 1200, OF _ _ _ _ _ refl]
  by simp

text \<open>
  (C21) Any sequence of \<open>allow\<close>, \<open>success\<close> and \<open>fail\<close> calls on a new breaker, as long as its
  counters stay in range, keeps the invariant and is a run of the two-state specification:
  closed with a count of consecutive failures, or tripped until a deadline.
\<close>

theorem breaker_refines_spec:
  assumes "0 < sint n" and "sint n < 2 ^ 31" and "0 < sint d"
    and "run_no_wrap (newCircuitBreaker n d) es"
  shows "breaker_inv (breaker_run (newCircuitBreaker n d) es) \<and>
         breaker_abs (breaker_run (newCircuitBreaker n d) es) =
         foldl (spec_step (sint n) (sint d)) (Closed 0) es"
  using breaker_run_inv [OF newCircuitBreaker_settings(3) assms(4)]
    breaker_run_refines [OF newCircuitBreaker_settings(3) assms(4)]
    newCircuitBreaker_settings [OF assms(1-3)] assms(1-3)
  by simp

theorem breaker_refines_spec_witness:
  "breaker_abs (breaker_run (newCircuitBreaker 1 1000) [Fail 50, Ask 100, Ask 2000]) = Closed 0"
  using breaker_refines_spec [of 1 1000 "[Fail 50, Ask 100, Ask 2000]"]
  by (simp add: no_wrap_def newCircuitBreaker_def)

text \<open>
  (C12) Goroutines interleaved at every atomic access: from a breaker armed until \<open>u\<close> (a deadline
  set at some earlier time) and no goroutine inside a method, as long as no goroutine runs
  \<open>success\<close>, no call of \<open>allow\<close> returns true before time \<open>u\<close>, however many goroutines call
  \<open>allow\<close> and \<open>fail\<close> and in whatever order their accesses interleave.
\<close>

theorem open_window_admits_nobody:
  assumes "\<forall>i. pcs s i = Idle" and "0 < sint (openUntilNs (shared s))"
    and "sint (openUntilNs (shared s)) \<le> sint (clock_ns s) + sint (openForNs (shared s))"
    and "breaker_runs s t" and "sint (clock_ns t) < sint (openUntilNs (shared s))"
    and "sint (clock_ns t) + sint (openForNs (shared s)) < 2 ^ 63"
  shows "pcs t i \<noteq> ADone True"
proof
  assume "pcs t i = ADone True"
  moreover have "window_open (sint (openUntilNs (shared s))) s"
    using assms(1-3) by (simp add: window_open_def)
  then have "pc_refusing (sint (openUntilNs (shared s))) (pcs t i)"
    using window_open_runs [OF assms(4) _ assms(5,6)] by (simp add: window_open_def)
  ultimately show False by simp
qed

theorem open_window_admits_nobody_witness:
  "breaker_runs (one_caller Idle) (one_caller (ADone False)) \<and> pcs (one_caller (ADone False)) 0 \<noteq> ADone True"
proof -
  have "breaker_thread OpAllow (one_caller Idle) (one_caller ALoad)"
    using call_allow [of "one_caller Idle" 0] by (simp add: one_caller_def)
  moreover have "breaker_thread OpAllow (one_caller ALoad) (one_caller (ACheck 1300))"
    using load_armed [of "one_caller ALoad" 0] by (simp add: one_caller_def)
  moreover have "breaker_thread OpAllow (one_caller (ACheck 1300)) (one_caller (ADone False))"
    using check_open [of "one_caller (ACheck 1300)" 0 1300] by (simp add: one_caller_def)
  ultimately have r: "breaker_runs (one_caller Idle) (one_caller (ADone False))"
    by (blast intro: runs_refl runs_step)
  from open_window_admits_nobody [OF _ _ _ r, of 0] r show ?thesis
    by (simp add: one_caller_def)
qed

text \<open>
  The threshold is checked as an \<open>int\<close> and then truncated to 32 bits: a configured threshold
  of \<open>2^32\<close> becomes 0, and a single failure opens the breaker.
\<close>

theorem threshold_truncated_to_zero:
  assumes "0 < sint d" and "0 \<le> sint t" and "sint t + sint d < 2 ^ 63"
  shows "failureThreshold (newCircuitBreaker 4294967296 d) = 0 \<and>
         isOpen t (fail t (newCircuitBreaker 4294967296 d))"
proof -
  have "sint (t + d) = sint t + sint d" using assms by (intro sint_add_int64) auto
  moreover then have "t + d \<noteq> 0" using assms by auto
  ultimately show ?thesis
    using assms by (simp add: newCircuitBreaker_def fail_def isOpen_def Let_def)
qed

theorem threshold_truncated_to_zero_witness:
  "isOpen 7 (fail 7 (newCircuitBreaker 4294967296 500000000))"
  using threshold_truncated_to_zero [of 500000000 7] by simp

end
