(* ===== verification/Router.thy ===== *)
theory Router
  imports Types
begin

text \<open>
  \<open>RedisRouter\<close> of \<open>internal/engine/redis_store.go\<close>: one client per configured address, and the
  choice of a client by the CRC-32 of the auction identifier. A client is the options it was built
  with and whether it was closed; the connections behind it belong to the driver. \<open>None\<close> as a
  result is a Go panic (of the driver, a division by zero, or an index out of range).
\<close>

section \<open>Definitions\<close>

record redis_options =
  Addr :: string
  Password :: string
  DB :: int64
  PoolSize :: int64
  MinIdleConns :: int64
  ReadTimeout :: duration
  WriteTimeout :: duration
  DialTimeout :: duration

record redis_client =
  Options :: redis_options
  client_closed :: bool

record RedisRouter =
  clients :: "redis_client list"
  closed :: bool

definition idle_conns :: "int64 \<Rightarrow> int64" where
  "idle_conns poolSize =
     word_of_int (max (sgn (sint poolSize) * (\<bar>sint poolSize\<bar> div 8)) 8)"

definition client_options :: "string \<Rightarrow> string \<Rightarrow> int64 \<Rightarrow> int64 \<Rightarrow> redis_options" where
  "client_options addr password db poolSize =
     \<lparr>Addr = addr, Password = password, DB = db, PoolSize = poolSize, MinIdleConns = idle_conns poolSize,
      ReadTimeout = 100 * Millisecond, WriteTimeout = 100 * Millisecond, DialTimeout = 200 * Millisecond\<rparr>"

definition client_of :: "redis_options \<Rightarrow> redis_client" where
  "client_of opts = \<lparr>Options = opts, client_closed = False\<rparr>"

text \<open>
  \<open>redis.NewClient\<close> returns a client or panics (it does for a negative pool size, for instance):
  \<open>accepts\<close> says for which options it returns.
\<close>

definition new_client :: "(redis_options \<Rightarrow> bool) \<Rightarrow> string \<Rightarrow> string \<Rightarrow> int64 \<Rightarrow> int64 \<Rightarrow> redis_client option" where
  "new_client accepts addr password db poolSize =
     (let opts = client_options addr password db poolSize in if accepts opts then Some (client_of opts) else None)"

fun router_clients :: "(redis_options \<Rightarrow> bool) \<Rightarrow> string list \<Rightarrow> string \<Rightarrow> int64 \<Rightarrow> int64 \<Rightarrow> redis_client list option" where
  "router_clients accepts [] password db poolSize = Some []"
| "router_clients accepts (addr # addrs) password db poolSize =
     (if TrimSpace addr = [] then router_clients accepts addrs password db poolSize
      else case new_client accepts (TrimSpace addr) password db poolSize of
             None \<Rightarrow> None
           | Some c \<Rightarrow> map_option ((#) c) (router_clients accepts addrs password db poolSize))"

definition NewRedisRouter :: "(redis_options \<Rightarrow> bool) \<Rightarrow> string list \<Rightarrow> string \<Rightarrow> int64 \<Rightarrow> int64 \<Rightarrow>
    (string + RedisRouter) option" where
  "NewRedisRouter accepts addresses password db poolSize =
     (case router_clients accepts addresses password db poolSize of
        None \<Rightarrow> None
      | Some cs \<Rightarrow>
          Some (if cs = [] then Inl ''no redis clients configured'' else Inr \<lparr>clients = cs, closed = False\<rparr>))"

definition shard :: "RedisRouter \<Rightarrow> string \<Rightarrow> nat option" where
  "shard r auctionID =
     (let n = length (clients r)
      in if n = 1 then Some 0
         else if (of_nat n :: uint32) = 0 then None
         else Some (unat (ChecksumIEEE auctionID mod of_nat n)))"

definition ForAuction :: "RedisRouter \<Rightarrow> string \<Rightarrow> nat option" where
  "ForAuction r auctionID =
     (case shard r auctionID of
        None \<Rightarrow> None
      | Some i \<Rightarrow> if i < length (clients r) then Some i else None)"

definition Close :: "RedisRouter \<Rightarrow> RedisRouter" where
  "Close r =
     (if closed r then r
      else r\<lparr>closed := True, clients := map (\<lambda>c. c\<lparr>client_closed := True\<rparr>) (clients r)\<rparr>)"

section \<open>Lemmas\<close>

definition router_ok :: "RedisRouter \<Rightarrow> bool" where
  "router_ok r \<longleftrightarrow> clients r \<noteq> [] \<and> length (clients r) < 2 ^ 32"

lemma shard_in_range:
  assumes "router_ok r"
  obtains i where "shard r a = Some i" and "i < length (clients r)"
proof (cases "length (clients r) = 1")
  case True
  with that [of 0] show ?thesis by (simp add: shard_def)
next
  case False
  let ?n = "length (clients r)"
  have n: "0 < ?n" "?n < 2 ^ 32" using assms by (simp_all add: router_ok_def)
  then have u: "unat (of_nat ?n :: uint32) = ?n" by (simp add: unat_of_nat)
  then have nz: "(of_nat ?n :: uint32) \<noteq> 0" using n(1) by auto
  have "unat (ChecksumIEEE a mod of_nat ?n) < ?n"
    using n(1) u by (simp add: unat_mod)
  with that False nz show ?thesis by (simp add: shard_def Let_def)
qed

lemma ForAuction_total:
  "router_ok r \<Longrightarrow> \<exists>i. ForAuction r a = Some i \<and> shard r a = Some i \<and> i < length (clients r)"
  by (rule shard_in_range [of r a]) (auto simp: ForAuction_def)

text \<open>The options the router asks for, one per address that is not blank; it panics if one is refused.\<close>

definition wanted_options :: "string list \<Rightarrow> string \<Rightarrow> int64 \<Rightarrow> int64 \<Rightarrow> redis_options list" where
  "wanted_options addrs password db poolSize =
     map (\<lambda>a. client_options a password db poolSize) (filter (\<lambda>a. a \<noteq> []) (map TrimSpace addrs))"

lemma router_clients_wanted:
  "router_clients accepts addrs password db poolSize =
   (if \<forall>opts \<in> set (wanted_options addrs password db poolSize). accepts opts
    then Some (map client_of (wanted_options addrs password db poolSize)) else None)"
  by (induction addrs) (auto simp: wanted_options_def new_client_def Let_def)

lemma wanted_length: "length (wanted_options addrs password db poolSize) \<le> length addrs"
  using length_filter_le [of _ "map TrimSpace addrs"] by (simp add: wanted_options_def)

lemma client_of_simps [simp]: "Options (client_of opts) = opts" "\<not> client_closed (client_of opts)"
  by (simp_all add: client_of_def)

lemma router_ok_Close [simp]: "router_ok (Close r) = router_ok r"
  by (simp add: router_ok_def Close_def)

lemma idle_conns_ge: "8 \<le> sint (idle_conns poolSize)"
proof -
  let ?q = "sgn (sint poolSize) * (\<bar>sint poolSize\<bar> div 8)"
  have "\<bar>sint poolSize\<bar> \<le> 2 ^ 63" using int64_range [of poolSize] by auto
  then have "\<bar>sint poolSize\<bar> div 8 \<le> 2 ^ 60" by (simp add: div_le_mono)
  then have "?q \<le> 2 ^ 60" "8 \<le> max ?q 8" by (auto simp: sgn_if)
  then show ?thesis by (simp add: idle_conns_def sint_int64)
qed

end
