(* ===== verification/LuaNum.thy ===== *)
theory LuaNum
  imports GoStd
begin

text \<open>
  Numbers of the Lua 5.1 interpreter that runs the bid script. Every number the script handles is
  integral (decimal strings of Go integers, and what the script itself wrote), so a number is an
  \<open>int\<close> that an IEEE double represents: \<open>to_double\<close> rounds to a 53-bit significand, ties to even.
  \<open>lua_tostring\<close> is C's \<open>%.14g\<close> on such a number, and \<open>lua_tonumber\<close> reads decimal
  notation with an optional fraction and exponent, the notation that \<open>%.14g\<close> and Go produce.
\<close>

section \<open>Doubles\<close>

type_synonym lua_num = int

fun bit_length :: "nat \<Rightarrow> nat" where
  "bit_length n = (if n = 0 then 0 else Suc (bit_length (n div 2)))"

declare bit_length.simps [simp del]

definition round_even :: "nat \<Rightarrow> nat \<Rightarrow> nat" where
  "round_even n d =
     (let q = n div d; r = n mod d
      in if 2 * r < d \<or> (2 * r = d \<and> even q) then q else q + 1)"

definition to_double_nat :: "nat \<Rightarrow> nat" where
  "to_double_nat n = (let u = 2 ^ (bit_length n - 53) in round_even n u * u)"

definition to_double :: "int \<Rightarrow> lua_num" where
  "to_double i = (if i < 0 then - int (to_double_nat (nat (- i))) else int (to_double_nat (nat i)))"

definition lua_add :: "lua_num \<Rightarrow> lua_num \<Rightarrow> lua_num" where
  "lua_add a b = to_double (a + b)"

section \<open>tostring\<close>

definition strip_zeros :: "string \<Rightarrow> string" where
  "strip_zeros s = rev (dropWhile (\<lambda>c. c = CHR ''0'') (rev s))"

definition sci_notation :: "nat \<Rightarrow> nat \<Rightarrow> string" where
  "sci_notation m e =
     (let ds = show_nat m; frac = strip_zeros (tl ds)
      in hd ds # (if frac = [] then [] else CHR ''.'' # frac) @ ''e+'' @
         (if e < 10 then ''0'' else []) @ show_nat e)"

text \<open>\<open>%.14g\<close>: plain decimal below \<open>10^14\<close>, otherwise 14 significant digits and an exponent.\<close>

definition fmt_g14 :: "nat \<Rightarrow> string" where
  "fmt_g14 n =
     (if n < 10 ^ 14 then show_nat n
      else let k = length (show_nat n); q = round_even n (10 ^ (k - 14))
           in if q = 10 ^ 14 then sci_notation (10 ^ 13) k else sci_notation q (k - 1))"

definition lua_tostring :: "lua_num \<Rightarrow> string" where
  "lua_tostring v = (if v < 0 then CHR ''-'' # fmt_g14 (nat (- v)) else fmt_g14 (nat v))"

section \<open>tonumber\<close>

definition read_exponent :: "string \<Rightarrow> nat option" where
  "read_exponent s =
     (case s of
        [] \<Rightarrow> Some 0
      | c # cs \<Rightarrow>
          if c \<noteq> CHR ''e'' then None
          else (let ds = (case cs of CHR ''+'' # ds \<Rightarrow> ds | _ \<Rightarrow> cs)
                in if ds \<noteq> [] \<and> list_all is_digit ds then Some (digits_val 0 ds) else None))"

definition read_decimal :: "string \<Rightarrow> nat option" where
  "read_decimal s =
     (let ip = takeWhile is_digit s;
          r = dropWhile is_digit s;
          fp = (case r of CHR ''.'' # cs \<Rightarrow> takeWhile is_digit cs | _ \<Rightarrow> []);
          r' = (case r of CHR ''.'' # cs \<Rightarrow> dropWhile is_digit cs | _ \<Rightarrow> r)
      in if ip = [] then None
         else case read_exponent r' of
                None \<Rightarrow> None
              | Some e \<Rightarrow>
                  if length fp \<le> e then Some (digits_val 0 (ip @ fp) * 10 ^ (e - length fp))
                  else None)"

definition lua_tonumber :: "string \<Rightarrow> lua_num option" where
  "lua_tonumber s =
     (case s of
        CHR ''-'' # cs \<Rightarrow> map_option (\<lambda>n. to_double (- int n)) (read_decimal cs)
      | _ \<Rightarrow> map_option (\<lambda>n. to_double (int n)) (read_decimal s))"

section \<open>The range in which the conversions are exact\<close>

definition exact14 :: "int \<Rightarrow> bool" where
  "exact14 v \<longleftrightarrow> \<bar>v\<bar> < 10 ^ 14"

lemma bit_length_le: "n < 2 ^ k \<Longrightarrow> bit_length n \<le> k"
proof (induction n arbitrary: k rule: bit_length.induct)
  case (1 n)
  show ?case
  proof (cases "n = 0")
    case False
    with "1.prems" obtain j where k: "k = Suc j" by (cases k) auto
    with "1.prems" have "n div 2 < 2 ^ j" by (simp add: less_mult_imp_div_less)
    with "1.IH" False k show ?thesis by (simp add: bit_length.simps [of n])
  qed (simp add: bit_length.simps)
qed

lemma round_even_1 [simp]: "round_even n (Suc 0) = n"
  by (simp add: round_even_def)

lemma to_double_nat_exact: "n < 2 ^ 53 \<Longrightarrow> to_double_nat n = n"
  using bit_length_le [of n 53] by (simp add: to_double_nat_def)

lemma to_double_exact: "\<bar>i\<bar> < 2 ^ 53 \<Longrightarrow> to_double i = i"
  by (simp add: to_double_def to_double_nat_exact)

lemma to_double_exact14 [simp]: "exact14 v \<Longrightarrow> to_double v = v"
  by (rule to_double_exact) (simp add: exact14_def)

lemma lua_tostring_exact: "exact14 v \<Longrightarrow> lua_tostring v = show_int v"
  by (cases "v < 0") (auto simp: lua_tostring_def show_int_def fmt_g14_def exact14_def nat_less_iff)

lemma digits_take_drop [simp]:
  assumes "\<forall>c \<in> set s. is_digit c"
  shows "takeWhile is_digit s = s" "dropWhile is_digit s = []"
  using assms by (auto simp: dropWhile_eq_Nil_conv)

lemma read_decimal_show_nat [simp]: "read_decimal (show_nat n) = Some n"
  using show_nat_digits [of n]
  by (simp add: read_decimal_def read_exponent_def)

lemma lua_tonumber_unsigned:
  "s \<noteq> [] \<Longrightarrow> is_digit (hd s) \<Longrightarrow>
   lua_tonumber s = map_option (\<lambda>n. to_double (int n)) (read_decimal s)"
  by (cases s) (auto simp: lua_tonumber_def dest: is_digit_neq(1) split: list.splits char.splits bool.splits)

lemma lua_tonumber_show_int: "lua_tonumber (show_int i) = Some (to_double i)"
proof (cases "i < 0")
  case True
  then show ?thesis by (simp add: show_int_def lua_tonumber_def)
next
  case False
  then show ?thesis
    by (simp add: show_int_def lua_tonumber_unsigned show_nat_hd_digit)
qed

lemma lua_tonumber_tostring:
  "exact14 v \<Longrightarrow> lua_tonumber (lua_tostring v) = Some v"
  by (simp add: lua_tostring_exact lua_tonumber_show_int)

lemma bar_notin_strip_zeros: "CHR ''|'' \<notin> set s \<Longrightarrow> CHR ''|'' \<notin> set (strip_zeros s)"
  unfolding strip_zeros_def by (metis set_dropWhileD set_rev)

lemma bar_notin_show_nat [simp]: "CHR ''|'' \<notin> set (show_nat n)"
  using show_nat_digits [of n] by (auto dest: is_digit_neq(3))

lemma bar_notin_sci [simp]: "CHR ''|'' \<notin> set (sci_notation m e)"
proof -
  have "CHR ''|'' \<notin> set (tl (show_nat m))"
    using bar_notin_show_nat [of m] by (cases "show_nat m") auto
  moreover have "hd (show_nat m) \<noteq> CHR ''|''"
    using show_nat_hd_digit [of m] by (auto dest: is_digit_neq(3))
  ultimately show ?thesis
    using bar_notin_strip_zeros [of "tl (show_nat m)"]
    by (auto simp: sci_notation_def Let_def)
qed

lemma bar_notin_tostring [simp]: "CHR ''|'' \<notin> set (lua_tostring v)"
  by (simp add: lua_tostring_def fmt_g14_def Let_def)

end
