(* ===== verification/Redis.thy ===== *)
theory Redis
  imports Types
begin

text \<open>
  The Redis server is not part of the repository. Its commands are a parameter of the model: a
  record of functions on an unknown database type. What the program relies on is the locale
  \<open>redis_server\<close>, stated through four views of a database: the fields of a hash, the entries of a
  stream, the remaining time to live of a key, and which keys can hold a hash or a stream.
  The second half is an in-memory server with hashes, streams, types and expiry, on which the
  contract is interpreted.
\<close>

section \<open>Commands\<close>

type_synonym stream_entry = "string \<times> (string \<times> string) list"

text \<open>
  A command that fails returns \<open>Inl\<close> with the error reply. \<open>XREAD\<close> takes pairs of a stream key and
  the last identifier seen, and the \<open>COUNT\<close> limit; an empty answer is the nil reply.
\<close>

record 'db redis_cmds =
  HGET :: "string \<Rightarrow> string \<Rightarrow> 'db \<Rightarrow> string + string option"
  HMGET :: "string \<Rightarrow> string list \<Rightarrow> 'db \<Rightarrow> string + string option list"
  HSET :: "string \<Rightarrow> (string \<times> string) list \<Rightarrow> 'db \<Rightarrow> string + 'db"
  PEXPIRE :: "string \<Rightarrow> int \<Rightarrow> 'db \<Rightarrow> string + 'db"
  XADD :: "string \<Rightarrow> (string \<times> string) list \<Rightarrow> 'db \<Rightarrow> string + (string \<times> 'db)"
  XREAD :: "(string \<times> string) list \<Rightarrow> int \<Rightarrow> 'db \<Rightarrow> string + (string \<times> stream_entry list) list"

definition written :: "(string \<times> string) list \<Rightarrow> string \<rightharpoonup> string" where
  "written fvs = map_of (rev fvs)"

definition new_entries :: "(string \<Rightarrow> string \<Rightarrow> bool) \<Rightarrow> int \<Rightarrow> string \<Rightarrow> stream_entry list \<Rightarrow> stream_entry list" where
  "new_entries lt count off es = take (nat count) (filter (\<lambda>e. lt off (fst e)) es)"

section \<open>An in-memory server\<close>

datatype mem_value = MHash "string \<rightharpoonup> string" "int option" | MStream "stream_entry list"

record mem_db =
  mem_keys :: "string \<rightharpoonup> mem_value"
  mem_now :: int

definition wrong_type :: string where
  "wrong_type = ''WRONGTYPE Operation against a key holding the wrong kind of value''"

text \<open>A hash whose deadline has passed counts as absent.\<close>

definition mem_live :: "mem_db \<Rightarrow> string \<rightharpoonup> mem_value" where
  "mem_live db k =
     (case mem_keys db k of
        Some (MHash h (Some t)) \<Rightarrow> if t \<le> mem_now db then None else Some (MHash h (Some t))
      | v \<Rightarrow> v)"

definition mem_hash :: "mem_db \<Rightarrow> string \<Rightarrow> string \<rightharpoonup> string" where
  "mem_hash db k = (case mem_live db k of Some (MHash h _) \<Rightarrow> h | _ \<Rightarrow> Map.empty)"

definition mem_stream :: "mem_db \<Rightarrow> string \<Rightarrow> stream_entry list" where
  "mem_stream db k = (case mem_live db k of Some (MStream es) \<Rightarrow> es | _ \<Rightarrow> [])"

definition mem_ttl :: "mem_db \<Rightarrow> string \<Rightarrow> int option" where
  "mem_ttl db k = (case mem_live db k of Some (MHash _ (Some t)) \<Rightarrow> Some (t - mem_now db) | _ \<Rightarrow> None)"

definition mem_is_hash :: "mem_db \<Rightarrow> string \<Rightarrow> bool" where
  "mem_is_hash db k \<longleftrightarrow> (case mem_live db k of Some (MStream _) \<Rightarrow> False | _ \<Rightarrow> True)"

definition mem_is_stream :: "mem_db \<Rightarrow> string \<Rightarrow> bool" where
  "mem_is_stream db k \<longleftrightarrow> (case mem_live db k of Some (MHash _ _) \<Rightarrow> False | _ \<Rightarrow> True)"

definition mem_put :: "string \<Rightarrow> mem_value option \<Rightarrow> mem_db \<Rightarrow> mem_db" where
  "mem_put k v db = db\<lparr>mem_keys := (mem_keys db)(k := v)\<rparr>"

definition mem_hget :: "string \<Rightarrow> string \<Rightarrow> mem_db \<Rightarrow> string + string option" where
  "mem_hget k f db = (if mem_is_hash db k then Inr (mem_hash db k f) else Inl wrong_type)"

definition mem_hmget :: "string \<Rightarrow> string list \<Rightarrow> mem_db \<Rightarrow> string + string option list" where
  "mem_hmget k fs db = (if mem_is_hash db k then Inr (map (mem_hash db k) fs) else Inl wrong_type)"

definition mem_hset :: "string \<Rightarrow> (string \<times> string) list \<Rightarrow> mem_db \<Rightarrow> string + mem_db" where
  "mem_hset k fvs db =
     (case mem_live db k of
        None \<Rightarrow> Inr (mem_put k (Some (MHash (written fvs) None)) db)
      | Some (MHash h t) \<Rightarrow> Inr (mem_put k (Some (MHash (h ++ written fvs) t)) db)
      | Some (MStream _) \<Rightarrow> Inl wrong_type)"

definition mem_pexpire :: "string \<Rightarrow> int \<Rightarrow> mem_db \<Rightarrow> string + mem_db" where
  "mem_pexpire k ms db =
     (case mem_live db k of
        Some (MHash h t) \<Rightarrow>
          Inr (mem_put k (if ms \<le> 0 then None else Some (MHash h (Some (mem_now db + ms)))) db)
      | _ \<Rightarrow> Inr db)"

text \<open>Stream identifiers are \<open><milliseconds>-<sequence>\<close>, ordered as pairs of numbers.\<close>

definition id_nums :: "string \<Rightarrow> nat \<times> nat" where
  "id_nums s = (digits_val 0 (takeWhile is_digit s), digits_val 0 (tl (dropWhile is_digit s)))"

definition id_lt :: "string \<Rightarrow> string \<Rightarrow> bool" where
  "id_lt a b \<longleftrightarrow> fst (id_nums a) < fst (id_nums b) \<or>
     (fst (id_nums a) = fst (id_nums b) \<and> snd (id_nums a) < snd (id_nums b))"

definition show_id :: "nat \<times> nat \<Rightarrow> string" where
  "show_id i = show_nat (fst i) @ CHR ''-'' # show_nat (snd i)"

definition next_id :: "nat \<Rightarrow> stream_entry list \<Rightarrow> nat \<times> nat" where
  "next_id now es =
     (let (m, q) = (if es = [] then (0, 0) else id_nums (fst (last es)))
      in if m < now then (now, 0) else (m, q + 1))"

definition mem_xadd :: "string \<Rightarrow> (string \<times> string) list \<Rightarrow> mem_db \<Rightarrow> string + (string \<times> mem_db)" where
  "mem_xadd k fvs db =
     (if mem_is_stream db k then
        (let es = mem_stream db k; i = show_id (next_id (nat (mem_now db)) es)
         in Inr (i, mem_put k (Some (MStream (es @ [(i, fvs)]))) db))
      else Inl wrong_type)"

definition mem_xread :: "(string \<times> string) list \<Rightarrow> int \<Rightarrow> mem_db \<Rightarrow> string + (string \<times> stream_entry list) list" where
  "mem_xread offs count db =
     (if \<forall>(k, off) \<in> set offs. mem_is_stream db k
      then Inr (filter (\<lambda>p. snd p \<noteq> [])
                  (map (\<lambda>(k, off). (k, new_entries id_lt count off (mem_stream db k))) offs))
      else Inl wrong_type)"

definition mem_tick :: "int \<Rightarrow> mem_db \<Rightarrow> mem_db" where
  "mem_tick d db = db\<lparr>mem_now := mem_now db + d\<rparr>"

definition mem_redis :: "mem_db redis_cmds" where
  "mem_redis = \<lparr>HGET = mem_hget, HMGET = mem_hmget, HSET = mem_hset, PEXPIRE = mem_pexpire,
                XADD = mem_xadd, XREAD = mem_xread\<rparr>"

text \<open>Stream entries of the in-memory server carry increasing identifiers.\<close>

definition mem_wf :: "mem_db \<Rightarrow> bool" where
  "mem_wf db \<longleftrightarrow> (\<forall>k. sorted_wrt (\<lambda>a b. id_lt (fst a) (fst b)) (mem_stream db k) \<and>
                    (\<forall>e \<in> set (mem_stream db k). id_lt ''0-0'' (fst e)))"

definition mem_empty :: mem_db where
  "mem_empty = \<lparr>mem_keys = Map.empty, mem_now = 0\<rparr>"

section \<open>The contract\<close>

locale redis_server =
  fixes R :: "'db redis_cmds"
    and valid :: "'db \<Rightarrow> bool"
    and hash :: "'db \<Rightarrow> string \<Rightarrow> string \<rightharpoonup> string"
    and stream :: "'db \<Rightarrow> string \<Rightarrow> stream_entry list"
    and ttl :: "'db \<Rightarrow> string \<Rightarrow> int option"
    and is_hash :: "'db \<Rightarrow> string \<Rightarrow> bool"
    and is_stream :: "'db \<Rightarrow> string \<Rightarrow> bool"
    and before :: "string \<Rightarrow> string \<Rightarrow> bool"
    and tick :: "int \<Rightarrow> 'db \<Rightarrow> 'db"
  assumes hget: "is_hash db k \<Longrightarrow> HGET R k f db = Inr (hash db k f)"
    and hmget: "is_hash db k \<Longrightarrow> HMGET R k fs db = Inr (map (hash db k) fs)"
    and hset: "valid db \<Longrightarrow> is_hash db k \<Longrightarrow> fvs \<noteq> [] \<Longrightarrow>
      \<exists>db'. HSET R k fvs db = Inr db' \<and> valid db' \<and>
        hash db' = (hash db)(k := hash db k ++ written fvs) \<and> stream db' = stream db \<and>
        ttl db' = ttl db \<and> is_hash db' = is_hash db \<and>
        is_stream db' = (is_stream db)(k := False)"
    and pexpire: "valid db \<Longrightarrow> is_hash db k \<Longrightarrow> hash db k \<noteq> Map.empty \<Longrightarrow> 0 < ms \<Longrightarrow> ms < 2 ^ 53 \<Longrightarrow>
      \<exists>db'. PEXPIRE R k ms db = Inr db' \<and> valid db' \<and> hash db' = hash db \<and> stream db' = stream db \<and>
        ttl db' = (ttl db)(k := Some ms) \<and> is_hash db' = is_hash db \<and> is_stream db' = is_stream db"
    and pexpire_past: "valid db \<Longrightarrow> is_hash db k \<Longrightarrow> hash db k \<noteq> Map.empty \<Longrightarrow> ms \<le> 0 \<Longrightarrow> - (2 ^ 53) < ms \<Longrightarrow>
      \<exists>db'. PEXPIRE R k ms db = Inr db' \<and> valid db' \<and> hash db' = (hash db)(k := Map.empty) \<and>
        stream db' = stream db \<and> ttl db' = (ttl db)(k := None) \<and> is_hash db' = is_hash db \<and>
        is_stream db' = (is_stream db)(k := True)"
    and xadd: "valid db \<Longrightarrow> is_stream db k \<Longrightarrow>
      \<exists>i db'. XADD R k fvs db = Inr (i, db') \<and> valid db' \<and>
        stream db' = (stream db)(k := stream db k @ [(i, fvs)]) \<and> hash db' = hash db \<and>
        ttl db' = ttl db \<and> is_hash db' = (is_hash db)(k := False) \<and> is_stream db' = is_stream db \<and>
        i \<noteq> [] \<and> CHR ''|'' \<notin> set i"
    and xread: "valid db \<Longrightarrow> \<forall>(k, off) \<in> set offs. is_stream db k \<Longrightarrow> 0 < count \<Longrightarrow>
      XREAD R offs count db =
        Inr (filter (\<lambda>p. snd p \<noteq> []) (map (\<lambda>(k, off). (k, new_entries before count off (stream db k))) offs))"
    and stream_ordered: "valid db \<Longrightarrow> sorted_wrt (\<lambda>a b. before (fst a) (fst b)) (stream db k)"
    and stream_start: "valid db \<Longrightarrow> e \<in> set (stream db k) \<Longrightarrow> before ''0-0'' (fst e)"
    and before_trans: "before a b \<Longrightarrow> before b c \<Longrightarrow> before a c"
    and before_irrefl: "\<not> before a a"
    and ttl_pos: "valid db \<Longrightarrow> ttl db k = Some t \<Longrightarrow> 0 < t"
    and tick_wf: "valid db \<Longrightarrow> 0 \<le> d \<Longrightarrow> valid (tick d db)"
    and tick_stream: "stream (tick d db) = stream db"
    and tick_keeps: "valid db \<Longrightarrow> 0 \<le> d \<Longrightarrow> ttl db k = None \<or> (\<exists>t. ttl db k = Some t \<and> d < t) \<Longrightarrow>
      hash (tick d db) k = hash db k \<and> ttl (tick d db) k = map_option (\<lambda>t. t - d) (ttl db k) \<and>
      is_hash (tick d db) k = is_hash db k \<and> is_stream (tick d db) k = is_stream db k"
    and tick_expires: "valid db \<Longrightarrow> ttl db k = Some t \<Longrightarrow> t \<le> d \<Longrightarrow>
      hash (tick d db) k = Map.empty \<and> ttl (tick d db) k = None \<and> is_hash (tick d db) k \<and>
      is_stream (tick d db) k"
    and stream_ids: "valid db \<Longrightarrow> e \<in> set (stream db k) \<Longrightarrow> fst e \<noteq> []"

section \<open>The in-memory server meets the contract\<close>

lemma mem_live_put [simp]:
  "mem_live (mem_put k v db) j =
     (if j = k then (case v of
                       Some (MHash h (Some t)) \<Rightarrow> if t \<le> mem_now db then None else v
                     | _ \<Rightarrow> v)
      else mem_live db j)"
  by (simp add: mem_live_def mem_put_def split: option.split mem_value.split)

lemma mem_now_put [simp]: "mem_now (mem_put k v db) = mem_now db"
  by (simp add: mem_put_def)

lemmas mem_views = mem_hash_def mem_stream_def mem_ttl_def mem_is_hash_def mem_is_stream_def

lemma mem_put_stream:
  "mem_hash (mem_put k (Some (MStream es)) db) = (mem_hash db)(k := Map.empty)"
  "mem_stream (mem_put k (Some (MStream es)) db) = (mem_stream db)(k := es)"
  "mem_ttl (mem_put k (Some (MStream es)) db) = (mem_ttl db)(k := None)"
  "mem_is_hash (mem_put k (Some (MStream es)) db) = (mem_is_hash db)(k := False)"
  "mem_is_stream (mem_put k (Some (MStream es)) db) = (mem_is_stream db)(k := True)"
  by (simp_all add: mem_views fun_eq_iff split: option.split mem_value.split)

lemma mem_put_hash:
  assumes "case t of Some e \<Rightarrow> mem_now db < e | None \<Rightarrow> True"
  shows "mem_hash (mem_put k (Some (MHash h t)) db) = (mem_hash db)(k := h)"
    and "mem_stream (mem_put k (Some (MHash h t)) db) = (mem_stream db)(k := [])"
    and "mem_ttl (mem_put k (Some (MHash h t)) db) = (mem_ttl db)(k := map_option (\<lambda>e. e - mem_now db) t)"
    and "mem_is_hash (mem_put k (Some (MHash h t)) db) = (mem_is_hash db)(k := True)"
    and "mem_is_stream (mem_put k (Some (MHash h t)) db) = (mem_is_stream db)(k := False)"
  using assms by (cases t; simp add: mem_views fun_eq_iff split: option.split mem_value.split)+

lemma mem_put_none:
  "mem_hash (mem_put k None db) = (mem_hash db)(k := Map.empty)"
  "mem_stream (mem_put k None db) = (mem_stream db)(k := [])"
  "mem_ttl (mem_put k None db) = (mem_ttl db)(k := None)"
  "mem_is_hash (mem_put k None db) = (mem_is_hash db)(k := True)"
  "mem_is_stream (mem_put k None db) = (mem_is_stream db)(k := True)"
  by (simp_all add: mem_views fun_eq_iff split: option.split mem_value.split)

lemma mem_is_streamD:
  "mem_is_stream db k \<Longrightarrow> mem_hash db k = Map.empty \<and> mem_ttl db k = None"
  by (auto simp: mem_views split: option.splits mem_value.splits)

lemma mem_is_hashE:
  assumes "mem_is_hash db k"
  obtains (absent) "mem_live db k = None" "mem_hash db k = Map.empty" "mem_stream db k = []"
      "mem_ttl db k = None" "mem_is_stream db k"
    | (present) h t where "mem_live db k = Some (MHash h t)" "mem_hash db k = h" "mem_stream db k = []"
      "mem_ttl db k = map_option (\<lambda>e. e - mem_now db) t" "case t of Some e \<Rightarrow> mem_now db < e | None \<Rightarrow> True"
      "\<not> mem_is_stream db k"
proof (cases "mem_live db k")
  case None
  then show ?thesis by (intro absent) (simp_all add: mem_views)
next
  case (Some v)
  with assms obtain h t where v: "v = MHash h t" by (cases v) (auto simp: mem_is_hash_def)
  have "case t of Some e \<Rightarrow> mem_now db < e | None \<Rightarrow> True"
    using Some v by (auto simp: mem_live_def split: option.splits mem_value.splits if_splits)
  with Some v show ?thesis
    by (intro present [of h t]) (auto simp: mem_views split: option.splits)
qed

lemma id_nums_show_id [simp]: "id_nums (show_id i) = i"
proof -
  have d: "\<forall>c \<in> set (show_nat (fst i)). is_digit c" by (rule show_nat_digits)
  have m: "\<not> is_digit CHR ''-''" by (simp add: is_digit_def)
  have "takeWhile is_digit (show_id i) = show_nat (fst i)"
    and "dropWhile is_digit (show_id i) = CHR ''-'' # show_nat (snd i)"
    using d m by (simp_all add: show_id_def takeWhile_append2 dropWhile_append2)
  then show ?thesis by (simp add: id_nums_def)
qed

lemma id_lt_trans: "id_lt a b \<Longrightarrow> id_lt b c \<Longrightarrow> id_lt a c"
  by (auto simp: id_lt_def)

lemma id_lt_next:
  assumes "sorted_wrt (\<lambda>a b. id_lt (fst a) (fst b)) es" and "e \<in> set es"
  shows "id_lt (fst e) (show_id (next_id now es))"
proof -
  from assms(2) have ne: "es \<noteq> []" by auto
  have last: "id_lt (fst (last es)) (show_id (next_id now es))"
    using ne by (auto simp: next_id_def id_lt_def Let_def split: prod.splits)
  show ?thesis
  proof (cases "e = last es")
    case False
    obtain xs where es: "es = xs @ [last es]" using ne append_butlast_last_id by metis
    with False assms(2) have "e \<in> set xs" by (metis Un_iff empty_iff empty_set set_ConsD set_append)
    moreover have "sorted_wrt (\<lambda>a b. id_lt (fst a) (fst b)) (xs @ [last es])"
      using assms(1) es by simp
    ultimately have "id_lt (fst e) (fst (last es))"
      by (simp add: sorted_wrt_append)
    with last show ?thesis by (blast intro: id_lt_trans)
  qed (simp add: last)
qed

lemma id_nums_zero [simp]: "id_nums ''0-0'' = (0, 0)"
  by (simp add: id_nums_def is_digit_def digit_val_def)

lemma id_lt_zero_next: "id_lt ''0-0'' (show_id (next_id now es))"
  by (auto simp: id_lt_def next_id_def Let_def split: prod.splits)

lemma mem_xadd_ok:
  assumes "mem_wf db" and "mem_is_stream db k"
  shows "\<exists>i db'. mem_xadd k fvs db = Inr (i, db') \<and> mem_wf db' \<and>
     mem_stream db' = (mem_stream db)(k := mem_stream db k @ [(i, fvs)]) \<and> mem_hash db' = mem_hash db \<and>
     mem_ttl db' = mem_ttl db \<and> mem_is_hash db' = (mem_is_hash db)(k := False) \<and>
     mem_is_stream db' = mem_is_stream db \<and> i \<noteq> [] \<and> CHR ''|'' \<notin> set i"
proof -
  let ?i = "show_id (next_id (nat (mem_now db)) (mem_stream db k))"
  let ?db' = "mem_put k (Some (MStream (mem_stream db k @ [(?i, fvs)]))) db"
  note v = mem_is_streamD [OF assms(2)]
  have "mem_wf ?db'"
    unfolding mem_wf_def
  proof (intro allI)
    fix j
    show "sorted_wrt (\<lambda>a b. id_lt (fst a) (fst b)) (mem_stream ?db' j) \<and>
          (\<forall>e\<in>set (mem_stream ?db' j). id_lt ''0-0'' (fst e))"
      using assms(1) id_lt_next [of "mem_stream db k"]
      by (cases "j = k") (auto simp: mem_put_stream mem_wf_def sorted_wrt_append id_lt_zero_next)
  qed
  moreover have "?i \<noteq> []" "CHR ''|'' \<notin> set ?i"
    using show_nat_digits by (auto simp: show_id_def dest: is_digit_neq(3))
  moreover have "mem_xadd k fvs db = Inr (?i, ?db')"
    using assms(2) by (simp add: mem_xadd_def Let_def)
  ultimately show ?thesis
    using assms(2) v by (intro exI [of _ ?i] exI [of _ ?db']) (simp add: mem_put_stream fun_upd_idem)
qed

lemma mem_hset_ok:
  assumes "mem_wf db" and "mem_is_hash db k"
  shows "\<exists>db'. mem_hset k fvs db = Inr db' \<and> mem_wf db' \<and>
     mem_hash db' = (mem_hash db)(k := mem_hash db k ++ written fvs) \<and> mem_stream db' = mem_stream db \<and>
     mem_ttl db' = mem_ttl db \<and> mem_is_hash db' = mem_is_hash db \<and>
     mem_is_stream db' = (mem_is_stream db)(k := False)"
  using assms(2)
proof (cases rule: mem_is_hashE)
  case absent
  then show ?thesis
    using assms by (simp add: mem_hset_def mem_put_hash fun_upd_idem mem_wf_def)
next
  case (present h t)
  then show ?thesis
    using assms by (simp add: mem_hset_def mem_put_hash fun_upd_idem mem_wf_def)
qed

lemma mem_pexpire_ok:
  assumes "mem_wf db" and "mem_is_hash db k" and "mem_hash db k \<noteq> Map.empty" and "0 < ms"
  shows "\<exists>db'. mem_pexpire k ms db = Inr db' \<and> mem_wf db' \<and> mem_hash db' = mem_hash db \<and>
     mem_stream db' = mem_stream db \<and> mem_ttl db' = (mem_ttl db)(k := Some ms) \<and>
     mem_is_hash db' = mem_is_hash db \<and> mem_is_stream db' = mem_is_stream db"
  using assms(2)
proof (cases rule: mem_is_hashE)
  case absent
  with assms(3) show ?thesis by simp
next
  case (present h t)
  with assms show ?thesis
    by (simp add: mem_pexpire_def mem_put_hash fun_upd_idem mem_wf_def)
qed

lemma mem_pexpire_past_ok:
  assumes "mem_wf db" and "mem_is_hash db k" and "mem_hash db k \<noteq> Map.empty" and "ms \<le> 0"
  shows "\<exists>db'. mem_pexpire k ms db = Inr db' \<and> mem_wf db' \<and> mem_hash db' = (mem_hash db)(k := Map.empty) \<and>
     mem_stream db' = mem_stream db \<and> mem_ttl db' = (mem_ttl db)(k := None) \<and>
     mem_is_hash db' = mem_is_hash db \<and> mem_is_stream db' = (mem_is_stream db)(k := True)"
  using assms(2)
proof (cases rule: mem_is_hashE)
  case absent
  with assms(3) show ?thesis by simp
next
  case (present h t)
  with assms show ?thesis
    by (simp add: mem_pexpire_def mem_put_none fun_upd_idem mem_wf_def)
qed

lemma mem_tick_stream: "mem_stream (mem_tick d db) = mem_stream db"
  by (auto simp: mem_stream_def mem_tick_def mem_live_def fun_eq_iff
           split: option.splits mem_value.splits)

lemma mem_tick_keeps:
  assumes "0 \<le> d" and "mem_ttl db k = None \<or> (\<exists>t. mem_ttl db k = Some t \<and> d < t)"
  shows "mem_hash (mem_tick d db) k = mem_hash db k \<and>
    mem_ttl (mem_tick d db) k = map_option (\<lambda>t. t - d) (mem_ttl db k) \<and>
    mem_is_hash (mem_tick d db) k = mem_is_hash db k \<and> mem_is_stream (mem_tick d db) k = mem_is_stream db k"
proof -
  have "mem_live (mem_tick d db) k = mem_live db k"
    using assms by (auto simp: mem_tick_def mem_live_def mem_ttl_def
        split: option.splits mem_value.splits if_splits)
  then show ?thesis
    by (auto simp: mem_views mem_tick_def split: option.splits mem_value.splits)
qed

lemma mem_tick_expires:
  assumes "mem_ttl db k = Some t" and "t \<le> d"
  shows "mem_hash (mem_tick d db) k = Map.empty \<and> mem_ttl (mem_tick d db) k = None \<and>
    mem_is_hash (mem_tick d db) k \<and> mem_is_stream (mem_tick d db) k"
proof -
  have "mem_live (mem_tick d db) k = None"
    using assms by (auto simp: mem_tick_def mem_live_def mem_ttl_def
        split: option.splits mem_value.splits if_splits)
  then show ?thesis by (simp add: mem_views)
qed

lemma mem_ttl_pos: "mem_ttl db k = Some t \<Longrightarrow> 0 < t"
  by (auto simp: mem_ttl_def mem_live_def split: option.splits mem_value.splits if_splits)

interpretation mem: redis_server mem_redis mem_wf mem_hash mem_stream mem_ttl mem_is_hash
  mem_is_stream id_lt mem_tick
proof (unfold_locales, goal_cases)
  case (1 db k f)
  then show ?case by (simp add: mem_redis_def mem_hget_def)
next
  case (2 db k fs)
  then show ?case by (simp add: mem_redis_def mem_hmget_def)
next
  case (3 db k fvs)
  then show ?case using mem_hset_ok by (simp add: mem_redis_def)
next
  case (4 db k ms)
  then show ?case using mem_pexpire_ok by (simp add: mem_redis_def)
next
  case (5 db k ms)
  then show ?case using mem_pexpire_past_ok by (simp add: mem_redis_def)
next
  case (6 db k fvs)
  then show ?case using mem_xadd_ok by (simp add: mem_redis_def)
next
  case (7 db offs count)
  then show ?case by (simp add: mem_redis_def mem_xread_def)
next
  case (8 db k)
  then show ?case by (simp add: mem_wf_def)
next
  case (9 db e k)
  then show ?case by (simp add: mem_wf_def)
next
  case (10 a b c)
  then show ?case by (rule id_lt_trans)
next
  case (11 a)
  then show ?case by (simp add: id_lt_def)
next
  case (12 db k t)
  then show ?case using mem_ttl_pos by simp
next
  case (13 db d)
  then show ?case by (simp add: mem_wf_def mem_tick_stream)
next
  case (14 d db)
  then show ?case by (rule mem_tick_stream)
next
  case (15 db d k)
  then show ?case using mem_tick_keeps by simp
next
  case (16 db k t d)
  then show ?case using mem_tick_expires by simp
next
  case (17 db e k)
  then have "id_lt ''0-0'' (fst e)" by (simp add: mem_wf_def)
  then show ?case by (auto simp: id_lt_def id_nums_def)
qed

lemma mem_wf_empty: "mem_wf mem_empty"
  by (simp add: mem_wf_def mem_stream_def mem_live_def mem_empty_def)

end
