(* ===== verification/Script.thy ===== *)
theory Script
  imports LuaNum Redis
begin

text \<open>
  The Lua script \<open>bidScript\<close> of \<open>internal/engine/redis_store.go\<close> and the keys it runs on. A
  \<open>redis.call\<close> that fails raises, which ends the script and keeps what was written before; so does
  comparing or adding a nil. The script returns a tag and an encoded result.
  An auction's state is seen through three views (its state hash, its idempotency hash, its event
  stream); \<open>bid_effect\<close> is the script as a function of these views.
\<close>

section \<open>Keys\<close>

definition stateKey :: "string \<Rightarrow> string" where
  "stateKey auctionID = ''auc:{'' @ auctionID @ ''}:state''"

definition idemKey :: "string \<Rightarrow> string" where
  "idemKey auctionID = ''auc:{'' @ auctionID @ ''}:idem''"

definition eventsKey :: "string \<Rightarrow> string" where
  "eventsKey auctionID = ''auc:{'' @ auctionID @ ''}:events''"

section \<open>The script\<close>

record script_keys =
  key_state :: string
  key_idem :: string
  key_events :: string

record script_args =
  arg_bidId :: string
  arg_userId :: string
  arg_amount :: string
  arg_nowMs :: string
  arg_idemTTL :: string
  arg_auctionId :: string

definition tostring_opt :: "lua_num option \<Rightarrow> string" where
  "tostring_opt v = (case v of None \<Rightarrow> ''nil'' | Some n \<Rightarrow> lua_tostring n)"

definition encode :: "lua_num option \<Rightarrow> string \<Rightarrow> string \<Rightarrow> lua_num option \<Rightarrow> string \<Rightarrow>
    lua_num option \<Rightarrow> string \<Rightarrow> string" where
  "encode nowMs accepted reason price winner version eventId =
     accepted @ ''|'' @ reason @ ''|'' @ tostring_opt price @ ''|'' @ winner @ ''|'' @
     tostring_opt version @ ''|'' @ eventId @ ''|'' @ tostring_opt nowMs"

definition cache :: "'db redis_cmds \<Rightarrow> string \<Rightarrow> string \<Rightarrow> lua_num option \<Rightarrow> string \<Rightarrow> 'db \<Rightarrow>
    'db \<times> (string + unit)" where
  "cache R idem bidId idemTTL encoded db =
     (case HSET R idem [(bidId, encoded)] db of
        Inl e \<Rightarrow> (db, Inl e)
      | Inr db1 \<Rightarrow>
          (case idemTTL of
             None \<Rightarrow> (db1, Inl ''command arguments must be strings or integers'')
           | Some ms \<Rightarrow>
               (case PEXPIRE R idem ms db1 of
                  Inl e \<Rightarrow> (db1, Inl e)
                | Inr db2 \<Rightarrow> (db2, Inr ()))))"

definition cached_reply :: "'db redis_cmds \<Rightarrow> string \<Rightarrow> string \<Rightarrow> lua_num option \<Rightarrow> string \<Rightarrow> 'db \<Rightarrow>
    'db \<times> (string + string \<times> string)" where
  "cached_reply R idem bidId idemTTL encoded db =
     (case cache R idem bidId idemTTL encoded db of
        (db', Inl e) \<Rightarrow> (db', Inl e)
      | (db', Inr _) \<Rightarrow> (db', Inr (''OK'', encoded)))"

definition field_at :: "string option list \<Rightarrow> nat \<Rightarrow> string option" where
  "field_at flds i = (if i < length flds then flds ! i else None)"

definition state_fields :: "string list" where
  "state_fields = [''status'', ''end_at'', ''current_price'', ''winner_user_id'', ''version'']"

definition or_zero :: "string option \<Rightarrow> string" where
  "or_zero v = (case v of None \<Rightarrow> ''0'' | Some s \<Rightarrow> s)"

definition or_empty :: "string option \<Rightarrow> string" where
  "or_empty v = (case v of None \<Rightarrow> [] | Some s \<Rightarrow> s)"

definition bidScript :: "'db redis_cmds \<Rightarrow> script_keys \<Rightarrow> script_args \<Rightarrow> 'db \<Rightarrow>
    'db \<times> (string + string \<times> string)" where
  "bidScript R K A db =
     (let bidId = arg_bidId A; userId = arg_userId A;
          amount = lua_tonumber (arg_amount A);
          nowMs = lua_tonumber (arg_nowMs A);
          idemTTL = lua_tonumber (arg_idemTTL A);
          finish = cached_reply R (key_idem K) bidId idemTTL
      in case HGET R (key_idem K) bidId db of
           Inl e \<Rightarrow> (db, Inl e)
         | Inr (Some cached) \<Rightarrow> (db, Inr (''DUP'', cached))
         | Inr None \<Rightarrow>
       (case HMGET R (key_state K) state_fields db of
          Inl e \<Rightarrow> (db, Inl e)
        | Inr flds \<Rightarrow>
       (case field_at flds 0 of
          None \<Rightarrow> (db, Inr (''ERR'', encode nowMs ''0'' ''auction_not_found'' (Some 0) [] (Some 0) []))
        | Some status \<Rightarrow>
       (let endAt = lua_tonumber (or_zero (field_at flds 1));
            currentPrice = lua_tonumber (or_zero (field_at flds 2));
            winner = or_empty (field_at flds 3);
            version = lua_tonumber (or_zero (field_at flds 4))
        in if status \<noteq> ''open'' then
             finish (encode nowMs ''0'' ''auction_closed'' currentPrice winner version []) db
           else case (nowMs, endAt) of
             (Some n, Some e) \<Rightarrow>
               if e \<le> n then
                 (case HSET R (key_state K) [(''status'', ''closed'')] db of
                    Inl err \<Rightarrow> (db, Inl err)
                  | Inr db1 \<Rightarrow>
                      finish (encode nowMs ''0'' ''auction_ended'' currentPrice winner version []) db1)
               else (case (amount, currentPrice) of
                 (Some a, Some p) \<Rightarrow>
                   if a \<le> p then
                     finish (encode nowMs ''0'' ''bid_too_low'' currentPrice winner version []) db
                   else (case version of
                     None \<Rightarrow> (db, Inl ''attempt to perform arithmetic on a nil value'')
                   | Some v \<Rightarrow>
                       (let v' = lua_add v 1
                        in case HSET R (key_state K)
                             [(''current_price'', lua_tostring a), (''winner_user_id'', userId),
                              (''version'', lua_tostring v')] db of
                             Inl err \<Rightarrow> (db, Inl err)
                           | Inr db1 \<Rightarrow>
                               (case XADD R (key_events K)
                                  [(''auction_id'', arg_auctionId A), (''bid_id'', bidId),
                                   (''user_id'', userId), (''amount'', lua_tostring a),
                                   (''version'', lua_tostring v'), (''server_ts'', lua_tostring n)] db1 of
                                  Inl err \<Rightarrow> (db1, Inl err)
                                | Inr (eventId, db2) \<Rightarrow>
                                    finish (encode nowMs ''1'' ''accepted'' amount userId (Some v') eventId) db2)))
               | _ \<Rightarrow> (db, Inl ''attempt to compare nil with number''))
           | _ \<Rightarrow> (db, Inl ''attempt to compare nil with number'')))))"

section \<open>The script on the views of one auction\<close>

record auction_view =
  av_state :: "string \<rightharpoonup> string"
  av_idem :: "string \<rightharpoonup> string"
  av_events :: "stream_entry list"

text \<open>The numbers a call passes, once the decimal strings of Go's integers are read by Lua.\<close>

record bid_call =
  bc_bid :: string
  bc_user :: string
  bc_amount :: lua_num
  bc_now :: lua_num
  bc_ttl :: lua_num
  bc_auction :: string

definition bid_outcome :: "bid_call \<Rightarrow> (string \<rightharpoonup> string) \<Rightarrow> string" where
  "bid_outcome c st =
     (if st ''status'' = None then ''auction_not_found''
      else if st ''status'' \<noteq> Some ''open'' then ''auction_closed''
      else if the (lua_tonumber (or_zero (st ''end_at''))) \<le> bc_now c then ''auction_ended''
      else if bc_amount c \<le> the (lua_tonumber (or_zero (st ''current_price''))) then ''bid_too_low''
      else ''accepted'')"

definition bid_state :: "bid_call \<Rightarrow> (string \<rightharpoonup> string) \<Rightarrow> (string \<rightharpoonup> string)" where
  "bid_state c st =
     (if bid_outcome c st = ''auction_ended'' then st(''status'' \<mapsto> ''closed'')
      else if bid_outcome c st = ''accepted'' then
        st(''current_price'' \<mapsto> lua_tostring (bc_amount c), ''winner_user_id'' \<mapsto> bc_user c,
           ''version'' \<mapsto> lua_tostring (lua_add (the (lua_tonumber (or_zero (st ''version'')))) 1))
      else st)"

definition bid_encoded :: "bid_call \<Rightarrow> string \<Rightarrow> (string \<rightharpoonup> string) \<Rightarrow> string" where
  "bid_encoded c eid st =
     (let r = bid_outcome c st; st' = bid_state c st;
          num = (\<lambda>f. lua_tonumber (or_zero (st f)))
      in if r = ''auction_not_found'' then encode (Some (bc_now c)) ''0'' r (Some 0) [] (Some 0) []
         else if r = ''accepted'' then
           encode (Some (bc_now c)) ''1'' r (Some (bc_amount c)) (bc_user c)
             (Some (lua_add (the (num ''version'')) 1)) eid
         else encode (Some (bc_now c)) ''0'' r (num ''current_price'')
                (or_empty (st ''winner_user_id'')) (num ''version'') [])"

definition bid_event :: "bid_call \<Rightarrow> (string \<rightharpoonup> string) \<Rightarrow> (string \<times> string) list" where
  "bid_event c st =
     [(''auction_id'', bc_auction c), (''bid_id'', bc_bid c), (''user_id'', bc_user c),
      (''amount'', lua_tostring (bc_amount c)),
      (''version'', lua_tostring (lua_add (the (lua_tonumber (or_zero (st ''version'')))) 1)),
      (''server_ts'', lua_tostring (bc_now c))]"

definition bid_reply :: "bid_call \<Rightarrow> string \<Rightarrow> auction_view \<Rightarrow> string \<times> string" where
  "bid_reply c eid v =
     (case av_idem v (bc_bid c) of
        Some s \<Rightarrow> (''DUP'', s)
      | None \<Rightarrow> (if bid_outcome c (av_state v) = ''auction_not_found'' then ''ERR'' else ''OK'',
                 bid_encoded c eid (av_state v)))"

definition bid_effect :: "bid_call \<Rightarrow> string \<Rightarrow> auction_view \<Rightarrow> auction_view" where
  "bid_effect c eid v =
     (if av_idem v (bc_bid c) \<noteq> None \<or> bid_outcome c (av_state v) = ''auction_not_found'' then v
      else \<lparr>av_state = bid_state c (av_state v),
            av_idem = (if bc_ttl c \<le> 0 then Map.empty
                       else (av_idem v)(bc_bid c \<mapsto> bid_encoded c eid (av_state v))),
            av_events = av_events v @
              (if bid_outcome c (av_state v) = ''accepted'' then [(eid, bid_event c (av_state v))] else [])\<rparr>)"

text \<open>A state hash whose numeric fields Lua can read, as the program always writes them.\<close>

definition numeric_state :: "(string \<rightharpoonup> string) \<Rightarrow> bool" where
  "numeric_state st \<longleftrightarrow>
     (\<forall>f \<in> {''end_at'', ''current_price'', ''version''}. lua_tonumber (or_zero (st f)) \<noteq> None)"

definition view_of :: "('db \<Rightarrow> string \<Rightarrow> string \<rightharpoonup> string) \<Rightarrow> ('db \<Rightarrow> string \<Rightarrow> stream_entry list) \<Rightarrow>
    string \<Rightarrow> 'db \<Rightarrow> auction_view" where
  "view_of hash stream a db =
     \<lparr>av_state = hash db (stateKey a), av_idem = hash db (idemKey a), av_events = stream db (eventsKey a)\<rparr>"

text \<open>Every auction's keys hold a value of the right type, or nothing.\<close>

definition kinds_ok :: "('db \<Rightarrow> string \<Rightarrow> bool) \<Rightarrow> ('db \<Rightarrow> string \<Rightarrow> bool) \<Rightarrow> 'db \<Rightarrow> bool" where
  "kinds_ok is_hash is_stream db \<longleftrightarrow>
     (\<forall>a. is_hash db (stateKey a) \<and> is_hash db (idemKey a) \<and> is_stream db (eventsKey a))"

definition bid_keys :: "string \<Rightarrow> script_keys" where
  "bid_keys a = \<lparr>key_state = stateKey a, key_idem = idemKey a, key_events = eventsKey a\<rparr>"

definition reads_as :: "script_args \<Rightarrow> bid_call \<Rightarrow> bool" where
  "reads_as A c \<longleftrightarrow>
     arg_bidId A = bc_bid c \<and> arg_userId A = bc_user c \<and> arg_auctionId A = bc_auction c \<and>
     lua_tonumber (arg_amount A) = Some (bc_amount c) \<and>
     lua_tonumber (arg_nowMs A) = Some (bc_now c) \<and>
     lua_tonumber (arg_idemTTL A) = Some (bc_ttl c)"

section \<open>Lemmas\<close>

lemma last_of_keys [simp]:
  "last (stateKey a) = CHR ''e''" "last (idemKey a) = CHR ''m''" "last (eventsKey a) = CHR ''s''"
  by (simp_all add: stateKey_def idemKey_def eventsKey_def)

lemma keys_distinct [simp]:
  "stateKey a \<noteq> idemKey b" "stateKey a \<noteq> eventsKey b" "idemKey a \<noteq> eventsKey b"
  "idemKey a \<noteq> stateKey b" "eventsKey a \<noteq> stateKey b" "eventsKey a \<noteq> idemKey b"
  by (auto dest: arg_cong [where f = last])

lemma keys_inject [simp]:
  "stateKey a = stateKey b \<longleftrightarrow> a = b" "idemKey a = idemKey b \<longleftrightarrow> a = b"
  "eventsKey a = eventsKey b \<longleftrightarrow> a = b"
  by (simp_all add: stateKey_def idemKey_def eventsKey_def)

lemma written_Nil [simp]: "written [] = Map.empty"
  and written_single [simp]: "written [(f, v)] = [f \<mapsto> v]"
  and written_three: "written [(f, v), (g, w), (h, x)] = [f \<mapsto> v, g \<mapsto> w, h \<mapsto> x]"
  by (auto simp: written_def)

lemma view_of_simps [simp]:
  "av_state (view_of hash stream a db) = hash db (stateKey a)"
  "av_idem (view_of hash stream a db) = hash db (idemKey a)"
  "av_events (view_of hash stream a db) = stream db (eventsKey a)"
  by (simp_all add: view_of_def)

lemma field_at_map [simp]: "i < length fs \<Longrightarrow> field_at (map h fs) i = h (fs ! i)"
  by (simp add: field_at_def)

lemma state_fields_nth [simp]:
  "length state_fields = 5"
  "state_fields ! 0 = ''status''" "state_fields ! Suc 0 = ''end_at''" "state_fields ! 2 = ''current_price''"
  "state_fields ! 3 = ''winner_user_id''" "state_fields ! 4 = ''version''"
  by (simp_all add: state_fields_def)

lemma bid_outcome_cases:
  obtains (none) "bid_outcome c st = ''auction_not_found''" "st ''status'' = None"
    | (closed) s where "bid_outcome c st = ''auction_closed''" "st ''status'' = Some s" "s \<noteq> ''open''"
    | (ended) "bid_outcome c st = ''auction_ended''" "st ''status'' = Some ''open''"
        "the (lua_tonumber (or_zero (st ''end_at''))) \<le> bc_now c"
    | (low) "bid_outcome c st = ''bid_too_low''" "st ''status'' = Some ''open''"
        "\<not> the (lua_tonumber (or_zero (st ''end_at''))) \<le> bc_now c"
        "bc_amount c \<le> the (lua_tonumber (or_zero (st ''current_price'')))"
    | (accepted) "bid_outcome c st = ''accepted''" "st ''status'' = Some ''open''"
        "\<not> the (lua_tonumber (or_zero (st ''end_at''))) \<le> bc_now c"
        "\<not> bc_amount c \<le> the (lua_tonumber (or_zero (st ''current_price'')))"
proof (cases "st ''status''")
  case None
  then show ?thesis by (intro none) (simp_all add: bid_outcome_def)
next
  case (Some s)
  show ?thesis
  proof (cases "s = ''open''")
    case True
    let ?ended = "the (lua_tonumber (or_zero (st ''end_at''))) \<le> bc_now c"
    let ?low = "bc_amount c \<le> the (lua_tonumber (or_zero (st ''current_price'')))"
    show ?thesis
    proof (cases ?ended)
      case True
      with Some \<open>s = _\<close> show ?thesis by (intro ended) (simp_all add: bid_outcome_def)
    next
      case False
      with Some \<open>s = _\<close> show ?thesis
        by (cases ?low) (auto intro: low accepted simp: bid_outcome_def)
    qed
  next
    case False
    with Some show ?thesis by (intro closed [of s]) (simp_all add: bid_outcome_def)
  qed
qed

lemma numeric_stateE:
  assumes "numeric_state st"
  obtains e p v where "lua_tonumber (or_zero (st ''end_at'')) = Some e"
    "lua_tonumber (or_zero (st ''current_price'')) = Some p"
    "lua_tonumber (or_zero (st ''version'')) = Some v"
  using assms by (auto simp: numeric_state_def)

context redis_server
begin

lemma cached_reply_ok:
  assumes "valid db" and "kinds_ok is_hash is_stream db" and "- (2 ^ 53) < t" and "t < 2 ^ 53"
  shows "\<exists>db'. cached_reply R (idemKey a) bid (Some t) enc db = (db', Inr (''OK'', enc)) \<and>
     valid db' \<and> kinds_ok is_hash is_stream db' \<and>
     hash db' = (hash db)(idemKey a := (if t \<le> 0 then Map.empty else (hash db (idemKey a))(bid \<mapsto> enc))) \<and>
     stream db' = stream db \<and> ttl db' = (ttl db)(idemKey a := (if t \<le> 0 then None else Some t))"
proof -
  obtain db1 where h: "HSET R (idemKey a) [(bid, enc)] db = Inr db1" "valid db1"
    "hash db1 = (hash db)(idemKey a := (hash db (idemKey a))(bid \<mapsto> enc))" "stream db1 = stream db"
    "ttl db1 = ttl db" "is_hash db1 = is_hash db" "is_stream db1 = (is_stream db)(idemKey a := False)"
    using hset [of db "idemKey a" "[(bid, enc)]"] assms(1,2) by (auto simp: kinds_ok_def)
  have k: "is_hash db1 (idemKey a)" "hash db1 (idemKey a) \<noteq> Map.empty"
    using assms(2) h by (auto simp: kinds_ok_def)
  show ?thesis
  proof (cases "t \<le> 0")
    case True
    from pexpire_past [OF h(2) k True assms(3)] h assms(2) True show ?thesis
      by (auto simp: cached_reply_def cache_def kinds_ok_def)
  next
    case False
    then have "0 < t" by simp
    from pexpire [OF h(2) k this assms(4)] h assms(2) False show ?thesis
      by (auto simp: cached_reply_def cache_def kinds_ok_def)
  qed
qed

lemma hset_state:
  assumes "valid db" and "kinds_ok is_hash is_stream db" and "fvs \<noteq> []"
  shows "\<exists>db'. HSET R (stateKey a) fvs db = Inr db' \<and> valid db' \<and> kinds_ok is_hash is_stream db' \<and>
     hash db' = (hash db)(stateKey a := hash db (stateKey a) ++ written fvs) \<and>
     stream db' = stream db \<and> ttl db' = ttl db"
  using hset [OF assms(1) _ assms(3), of "stateKey a"] assms(2) by (auto simp: kinds_ok_def)

lemma xadd_events:
  assumes "valid db" and "kinds_ok is_hash is_stream db"
  shows "\<exists>i db'. XADD R (eventsKey a) fvs db = Inr (i, db') \<and> valid db' \<and> kinds_ok is_hash is_stream db' \<and>
     stream db' = (stream db)(eventsKey a := stream db (eventsKey a) @ [(i, fvs)]) \<and>
     hash db' = hash db \<and> ttl db' = ttl db \<and> i \<noteq> [] \<and> CHR ''|'' \<notin> set i"
  using xadd [OF assms(1), of "eventsKey a" fvs] assms(2) by (auto simp: kinds_ok_def)

lemma accepted_writes:
  assumes "valid db" and "kinds_ok is_hash is_stream db" and "fvs \<noteq> []"
  obtains db1 i db2 where "HSET R (stateKey a) fvs db = Inr db1" "XADD R (eventsKey a) ev db1 = Inr (i, db2)"
    "valid db2" "kinds_ok is_hash is_stream db2"
    "hash db2 = (hash db)(stateKey a := hash db (stateKey a) ++ written fvs)"
    "stream db2 = (stream db)(eventsKey a := stream db (eventsKey a) @ [(i, ev)])"
    "ttl db2 = ttl db" "i \<noteq> []" "CHR ''|'' \<notin> set i"
proof -
  obtain db1 where h: "HSET R (stateKey a) fvs db = Inr db1" "valid db1" "kinds_ok is_hash is_stream db1"
    "hash db1 = (hash db)(stateKey a := hash db (stateKey a) ++ written fvs)" "stream db1 = stream db" "ttl db1 = ttl db"
    using hset_state [OF assms] by blast
  with xadd_events [OF h(2,3), of a ev] that show thesis by auto
qed

text \<open>One run of the script: its reply, its effect on the auction, and nothing else changed.\<close>

lemma bidScript_effect:
  assumes "valid db" and "kinds_ok is_hash is_stream db" and "reads_as A c"
    and "numeric_state (hash db (stateKey a))" and "- (2 ^ 53) < bc_ttl c" and "bc_ttl c < 2 ^ 53"
  shows "\<exists>db' eid. bidScript R (bid_keys a) A db = (db', Inr (bid_reply c eid (view_of hash stream a db))) \<and>
     valid db' \<and> kinds_ok is_hash is_stream db' \<and>
     view_of hash stream a db' = bid_effect c eid (view_of hash stream a db) \<and>
     (\<forall>b. b \<noteq> a \<longrightarrow> view_of hash stream b db' = view_of hash stream b db) \<and>
     ttl db' = (if hash db (idemKey a) (bc_bid c) \<noteq> None \<or> bid_outcome c (hash db (stateKey a)) = ''auction_not_found''
                then ttl db else (ttl db)(idemKey a := (if bc_ttl c \<le> 0 then None else Some (bc_ttl c)))) \<and>
     eid \<noteq> [] \<and> CHR ''|'' \<notin> set eid"
proof -
  let ?st = "hash db (stateKey a)"
  obtain e p v where n: "lua_tonumber (or_zero (?st ''end_at'')) = Some e"
    "lua_tonumber (or_zero (?st ''current_price'')) = Some p"
    "lua_tonumber (or_zero (?st ''version'')) = Some v"
    using assms(4) by (rule numeric_stateE)
  have K: "is_hash db (stateKey a)" "is_hash db (idemKey a)" "is_stream db (eventsKey a)"
    using assms(2) by (simp_all add: kinds_ok_def)
  note run = bidScript_def bid_keys_def Let_def hget [OF K(2)] hmget [OF K(1)]
  note args = assms(3) [unfolded reads_as_def]
  note effect = bid_reply_def bid_effect_def bid_encoded_def bid_state_def Let_def
  show ?thesis
  proof (cases "hash db (idemKey a) (bc_bid c)")
    case (Some s)
    with assms(1,2) args show ?thesis
      by (intro exI [of _ db] exI [of _ "''0''"]) (simp add: run effect)
  next
    case fresh: None
    show ?thesis
    proof (cases c ?st rule: bid_outcome_cases)
      case none
      with fresh assms(1,2) args show ?thesis
        by (intro exI [of _ db] exI [of _ "''0''"]) (simp add: run effect)
    next
      case (closed s)
      with fresh args show ?thesis
        using cached_reply_ok [OF assms(1,2,5,6), of a "bc_bid c" "bid_encoded c ''0'' ?st"]
        by (auto simp add: run effect n view_of_def intro!: exI [of _ "''0''"])
    next
      case ended
      obtain db1 where h: "HSET R (stateKey a) [(''status'', ''closed'')] db = Inr db1" "valid db1"
        "kinds_ok is_hash is_stream db1" "hash db1 = (hash db)(stateKey a := ?st(''status'' \<mapsto> ''closed''))"
        "stream db1 = stream db" "ttl db1 = ttl db"
        using hset_state [OF assms(1,2), of "[(''status'', ''closed'')]" a] by auto
      from ended fresh n args h show ?thesis
        using cached_reply_ok [OF h(2,3) assms(5,6), of a "bc_bid c" "bid_encoded c ''0'' ?st"]
        by (auto simp add: run effect n view_of_def intro!: exI [of _ "''0''"])
    next
      case low
      with fresh n args show ?thesis
        using cached_reply_ok [OF assms(1,2,5,6), of a "bc_bid c" "bid_encoded c ''0'' ?st"]
        by (auto simp add: run effect n view_of_def intro!: exI [of _ "''0''"])
    next
      case accepted
      define fvs where "fvs = [(''current_price'', lua_tostring (bc_amount c)), (''winner_user_id'', bc_user c),
        (''version'', lua_tostring (lua_add v 1))]"
      obtain db1 i db2 where x: "HSET R (stateKey a) fvs db = Inr db1" "XADD R (eventsKey a) (bid_event c ?st) db1 = Inr (i, db2)"
        "valid db2" "kinds_ok is_hash is_stream db2" "hash db2 = (hash db)(stateKey a := ?st ++ written fvs)"
        "stream db2 = (stream db)(eventsKey a := stream db (eventsKey a) @ [(i, bid_event c ?st)])"
        "ttl db2 = ttl db" "i \<noteq> []" "CHR ''|'' \<notin> set i"
        by (rule accepted_writes [OF assms(1,2), of fvs]) (simp add: fvs_def)
      from accepted fresh n args x show ?thesis
        using cached_reply_ok [OF x(3,4) assms(5,6), of a "bc_bid c" "bid_encoded c i ?st"]
        by (auto simp add: run effect n view_of_def fvs_def bid_event_def written_three intro!: exI [of _ i])
    qed
  qed
qed

end

end
