(* ===== verification/GoTime.thy ===== *)
theory GoTime
  imports LuaNum
begin

text \<open>
  \<open>time.ParseDuration\<close> of Go's standard library, which reads the durations of the configuration. The
  integers are \<open>uint64\<close> values, kept as \<open>nat\<close> with the range checks of the library and the one
  place where they can wrap written out; the fraction goes through \<open>float64\<close> as in the library,
  so \<open>double_div\<close> rounds a quotient of naturals to a 53-bit significand, ties to even.
\<close>

section \<open>Definitions\<close>

definition scaled :: "nat \<Rightarrow> nat \<Rightarrow> int \<Rightarrow> nat \<times> nat" where
  "scaled p q e = (if 0 \<le> e then (p, q * 2 ^ nat e) else (p * 2 ^ nat (- e), q))"

definition double_div :: "nat \<Rightarrow> nat \<Rightarrow> nat \<times> nat" where
  "double_div p q =
     (if p = 0 then (0, 1)
      else let e0 = int (bit_length p) - int (bit_length q) - 53;
               e = (if 2 ^ 53 * snd (scaled p q e0) \<le> fst (scaled p q e0) then e0 + 1 else e0);
               m = round_even (fst (scaled p q e)) (snd (scaled p q e))
           in if 0 \<le> e then (m * 2 ^ nat e, 1) else (m, 2 ^ nat (- e)))"

text \<open>\<open>uint64(float64(f) * (float64(unit) / scale))\<close>.\<close>

definition fraction_ns :: "nat \<Rightarrow> nat \<Rightarrow> nat \<Rightarrow> nat" where
  "fraction_ns f unit scale =
     (let x = double_div f 1; y = double_div unit scale;
          z = double_div (fst x * fst y) (snd x * snd y)
      in fst z div snd z)"

fun leadingInt :: "nat \<Rightarrow> string \<Rightarrow> (nat \<times> string) option" where
  "leadingInt x [] = Some (x, [])"
| "leadingInt x (c # cs) =
     (if \<not> is_digit c then Some (x, c # cs)
      else if 2 ^ 63 div 10 < x then None
      else let x' = x * 10 + digit_val c in if 2 ^ 63 < x' then None else leadingInt x' cs)"

fun leadingFraction :: "bool \<Rightarrow> nat \<Rightarrow> nat \<Rightarrow> string \<Rightarrow> nat \<times> nat \<times> string" where
  "leadingFraction overflow x scale [] = (x, scale, [])"
| "leadingFraction overflow x scale (c # cs) =
     (if \<not> is_digit c then (x, scale, c # cs)
      else if overflow then leadingFraction True x scale cs
      else if (2 ^ 63 - 1) div 10 < x then leadingFraction True x scale cs
      else let y = x * 10 + digit_val c
           in if 2 ^ 63 < y then leadingFraction True x scale cs
              else leadingFraction False y (scale * 10) cs)"

definition unitMap :: "string \<rightharpoonup> nat" where
  "unitMap =
     map_of [(''ns'', 1), (''us'', 10 ^ 3), ([CHR 0xC2, CHR 0xB5, CHR ''s''], 10 ^ 3),
             ([CHR 0xCE, CHR 0xBC, CHR ''s''], 10 ^ 3), (''ms'', 10 ^ 6), (''s'', 10 ^ 9),
             (''m'', 60 * 10 ^ 9), (''h'', 3600 * 10 ^ 9)]"

definition unit_char :: "char \<Rightarrow> bool" where
  "unit_char c \<longleftrightarrow> c \<noteq> CHR ''.'' \<and> \<not> is_digit c"

text \<open>One number with its unit: the nanoseconds it stands for and the rest of the input.\<close>

definition duration_term :: "string \<Rightarrow> (nat \<times> string) option" where
  "duration_term s =
     (if s = [] \<or> unit_char (hd s) then None
      else case leadingInt 0 s of
        None \<Rightarrow> None
      | Some (v, s1) \<Rightarrow>
          (let pre = (length s \<noteq> length s1);
               dot = (s1 \<noteq> [] \<and> hd s1 = CHR ''.'');
               (f, scale, s2) = (if dot then leadingFraction False 0 1 (tl s1) else (0, 1, s1));
               post = (dot \<and> length (tl s1) \<noteq> length s2);
               u = takeWhile unit_char s2
           in if \<not> pre \<and> \<not> post then None
              else if u = [] then None
              else case unitMap u of
                     None \<Rightarrow> None
                   | Some unit \<Rightarrow>
                       if 2 ^ 63 div unit < v then None
                       else (let v' = (if 0 < f then v * unit + fraction_ns f unit scale else v * unit)
                             in if 2 ^ 63 < v' then None else Some (v', dropWhile unit_char s2))))"

lemma leadingInt_shrinks: "leadingInt x s = Some (v, r) \<Longrightarrow> length r \<le> length s"
proof (induction x s rule: leadingInt.induct)
  case (2 x c cs)
  then show ?case by (auto simp: Let_def split: if_splits)
qed simp

lemma leadingFraction_shrinks: "leadingFraction ov x sc s = (f, scale, r) \<Longrightarrow> length r \<le> length s"
proof (induction ov x sc s rule: leadingFraction.induct)
  case (2 ov x sc c cs)
  then show ?case by (auto simp: Let_def split: if_splits)
qed simp

lemma dropWhile_shrinks: "takeWhile P s \<noteq> [] \<Longrightarrow> length (dropWhile P s) < length s"
  by (cases s) (auto simp: less_Suc_eq_le length_dropWhile_le split: if_splits)

lemma duration_term_shrinks:
  assumes "duration_term s = Some (v, r)"
  shows "length r < length s"
proof -
  obtain w s1 where i: "leadingInt 0 s = Some (w, s1)"
    using assms by (auto simp: duration_term_def split: if_splits option.splits)
  have a: "length s1 \<le> length s" using i by (rule leadingInt_shrinks)
  show ?thesis
  proof (cases "s1 \<noteq> [] \<and> hd s1 = CHR ''.''")
    case True
    obtain f scale s2 where f: "leadingFraction False 0 1 (tl s1) = (f, scale, s2)"
      by (cases "leadingFraction False 0 1 (tl s1)") auto
    have "r = dropWhile unit_char s2" "takeWhile unit_char s2 \<noteq> []"
      using assms i f True by (auto simp: duration_term_def Let_def split: if_splits option.splits)
    then show ?thesis
      using dropWhile_shrinks [of unit_char s2] leadingFraction_shrinks [OF f] a by simp
  next
    case False
    have "r = dropWhile unit_char s1" "takeWhile unit_char s1 \<noteq> []"
      using assms i False by (auto simp: duration_term_def Let_def split: if_splits option.splits)
    then show ?thesis using dropWhile_shrinks [of unit_char s1] a by simp
  qed
qed

text \<open>The sum is a \<open>uint64\<close>: two terms of \<open>2^63\<close> wrap to zero before the range check.\<close>

function duration_terms :: "nat \<Rightarrow> string \<Rightarrow> nat option" where
  "duration_terms d s =
     (if s = [] then Some d
      else case duration_term s of
        None \<Rightarrow> None
      | Some (v, r) \<Rightarrow>
          (let d' = (d + v) mod 2 ^ 64 in if 2 ^ 63 < d' then None else duration_terms d' r))"
  by pat_completeness auto
termination
  by (relation "measure (\<lambda>(d, s). length s)") (auto dest: duration_term_shrinks)

declare duration_terms.simps [simp del]

definition ParseDuration :: "string \<Rightarrow> duration option" where
  "ParseDuration s =
     (let neg = (s \<noteq> [] \<and> hd s = CHR ''-'');
          t = (if s \<noteq> [] \<and> (hd s = CHR ''-'' \<or> hd s = CHR ''+'') then tl s else s)
      in if t = ''0'' then Some 0
         else if t = [] then None
         else case duration_terms 0 t of
                None \<Rightarrow> None
              | Some d \<Rightarrow> if neg then Some (word_of_int (- int d))
                         else if 2 ^ 63 - 1 < d then None
                         else Some (word_of_int (int d)))"

section \<open>Lemmas\<close>

lemma leadingInt_digits:
  "\<forall>c \<in> set ds. is_digit c \<Longrightarrow> digits_val x ds \<le> 2 ^ 63 \<Longrightarrow> rest = [] \<or> \<not> is_digit (hd rest) \<Longrightarrow>
   leadingInt x (ds @ rest) = Some (digits_val x ds, rest)"
proof (induction ds arbitrary: x)
  case Nil
  then show ?case by (cases rest) auto
next
  case (Cons c cs)
  have "x * 10 + digit_val c \<le> digits_val (x * 10 + digit_val c) cs" by (rule digits_val_mono)
  also have "\<dots> \<le> 2 ^ 63" using Cons.prems(2) by simp
  finally have "x * 10 + digit_val c \<le> 2 ^ 63" .
  moreover then have "\<not> 2 ^ 63 div 10 < x" by simp
  ultimately show ?case using Cons by simp
qed

lemma unit_facts:
  assumes "unitMap u = Some n"
  shows "u \<noteq> [] \<and> (\<forall>c \<in> set u. unit_char c) \<and> 0 < n"
proof -
  have "(u, n) \<in> set [(''ns'', 1), (''us'', 10 ^ 3), ([CHR 0xC2, CHR 0xB5, CHR ''s''], 10 ^ 3),
             ([CHR 0xCE, CHR 0xBC, CHR ''s''], 10 ^ 3), (''ms'', 10 ^ 6), (''s'', 10 ^ 9),
             (''m'', 60 * 10 ^ 9), (''h'', 3600 * 10 ^ 9)]"
    using assms unfolding unitMap_def by (rule map_of_SomeD)
  then show ?thesis
    by (auto simp: unit_char_def is_digit_def)
qed

lemma duration_term_plain:
  assumes "unitMap u = Some unit" and "n * unit \<le> 2 ^ 63"
  shows "duration_term (show_nat n @ u) = Some (n * unit, [])"
proof -
  have u: "u \<noteq> []" "\<forall>c \<in> set u. unit_char c" "0 < unit" using unit_facts [OF assms(1)] by auto
  have hd: "\<not> is_digit (hd u)" "hd u \<noteq> CHR ''.''" using u(1,2) by (auto simp: unit_char_def)
  have v: "n \<le> 2 ^ 63 div unit" using assms(2) u(3) by (simp add: less_eq_div_iff_mult_less_eq)
  have "n \<le> 2 ^ 63" using assms(2) u(3) by (cases unit) auto
  then have l: "leadingInt 0 (show_nat n @ u) = Some (n, u)"
    using leadingInt_digits [of "show_nat n" 0 u] hd(1) show_nat_digits by simp
  have "unit_char (hd (show_nat n @ u)) = False"
    using show_nat_digits [of n] by (cases "show_nat n") (auto simp: unit_char_def)
  moreover have t: "takeWhile unit_char u = u" "dropWhile unit_char u = []" using u(2) by auto
  ultimately show ?thesis
    using l u(1) hd assms v by (simp add: duration_term_def Let_def del: takeWhile_eq_all_conv)
qed

lemma ParseDuration_plain:
  assumes "unitMap u = Some unit" and "n * unit < 2 ^ 63"
  shows "ParseDuration (show_nat n @ u) = Some (word_of_int (int (n * unit)))"
proof -
  have u: "u \<noteq> []" using unit_facts [OF assms(1)] by simp
  obtain c cs where s: "show_nat n = c # cs" by (cases "show_nat n") auto
  then have c: "is_digit c" using show_nat_Cons by blast
  have "duration_terms 0 (show_nat n @ u) = Some (n * unit)"
    using assms duration_term_plain [OF assms(1), of n] u
    by (subst duration_terms.simps) (simp add: duration_terms.simps)
  moreover have "show_nat n @ u \<noteq> ''0''" using s u by auto
  ultimately show ?thesis
    using s c assms(2) by (auto simp: ParseDuration_def)
qed

end
