(* ===== verification/Config.thy ===== *)
theory Config
  imports GoTime
begin

text \<open>
  \<open>internal/config/config.go\<close>: the configuration read from the environment. The environment is a
  function from names to values, where an unset variable reads as the empty string
  (\<open>os.Getenv\<close>). \<open>Load\<close> keeps the first error of the typed variables, in the order in which the
  struct literal evaluates its fields.
\<close>

section \<open>Definitions\<close>

type_synonym environ = "string \<Rightarrow> string"

datatype slog_level = LevelDebug | LevelInfo | LevelWarn | LevelError

text \<open>Levels are ordered by the integers that \<open>log/slog\<close> gives them.\<close>

fun level_num :: "slog_level \<Rightarrow> int" where
  "level_num LevelDebug = - 4"
| "level_num LevelInfo = 0"
| "level_num LevelWarn = 4"
| "level_num LevelError = 8"

instantiation slog_level :: linorder
begin

definition less_eq_slog_level :: "slog_level \<Rightarrow> slog_level \<Rightarrow> bool" where
  "l \<le> m \<longleftrightarrow> level_num l \<le> level_num m"

definition less_slog_level :: "slog_level \<Rightarrow> slog_level \<Rightarrow> bool" where
  "l < m \<longleftrightarrow> level_num l < level_num m"

instance
proof
  fix l m :: slog_level
  show "l \<le> m \<Longrightarrow> m \<le> l \<Longrightarrow> l = m" by (cases l; cases m) (simp_all add: less_eq_slog_level_def)
qed (auto simp: less_eq_slog_level_def less_slog_level_def)

end

lemma LevelError_top: "l \<le> LevelError"
  by (cases l) (simp_all add: less_eq_slog_level_def)

datatype config_cause = BadNumber num_error | BadDuration

datatype config_error = EnvError string config_cause | NoRedisAddress

record Config =
  GRPCAddress :: string
  HTTPAddress :: string
  RedisAddresses :: "string list"
  RedisPassword :: string
  RedisDB :: int64
  RedisPoolSize :: int64
  BidIdempotencyTTL :: duration
  DefaultAuctionDuration :: duration
  StreamReadCount :: int64
  MaxInFlightBids :: int64
  MaxWSQueueDepth :: int64
  BreakerFailureThreshold :: int64
  BreakerOpenFor :: duration
  LogLevel :: slog_level
  GracefulShutdownTimeout :: duration
  GOGC :: int64
  GoMemLimitBytes :: int64

fun splitAddrs_loop :: "string list \<Rightarrow> string list" where
  "splitAddrs_loop [] = []"
| "splitAddrs_loop (p # ps) =
     (if TrimSpace p \<noteq> [] then TrimSpace p # splitAddrs_loop ps else splitAddrs_loop ps)"

definition splitAddrs :: "string \<Rightarrow> string list" where
  "splitAddrs raw = splitAddrs_loop (Split (CHR '','') raw)"

definition getEnv :: "environ \<Rightarrow> string \<Rightarrow> string \<Rightarrow> string" where
  "getEnv env key fallback = (if env key \<noteq> [] then env key else fallback)"

definition getEnvInt :: "environ \<Rightarrow> string \<Rightarrow> int64 \<Rightarrow> int64 \<times> config_error option" where
  "getEnvInt env key fallback =
     (if env key = [] then (fallback, None)
      else case Atoi (env key) of
             (v, None) \<Rightarrow> (v, None)
           | (_, Some e) \<Rightarrow> (0, Some (EnvError key (BadNumber e))))"

definition getEnvDuration :: "environ \<Rightarrow> string \<Rightarrow> duration \<Rightarrow> duration \<times> config_error option" where
  "getEnvDuration env key fallback =
     (if env key = [] then (fallback, None)
      else case ParseDuration (env key) of
             Some v \<Rightarrow> (v, None)
           | None \<Rightarrow> (0, Some (EnvError key BadDuration)))"

definition getEnvInt64 :: "environ \<Rightarrow> string \<Rightarrow> int64 \<Rightarrow> int64 \<times> config_error option" where
  "getEnvInt64 env key fallback =
     (if env key = [] then (fallback, None)
      else case ParseInt (env key) of
             (v, None) \<Rightarrow> (v, None)
           | (_, Some e) \<Rightarrow> (0, Some (EnvError key (BadNumber e))))"

definition parseLevel :: "string \<Rightarrow> slog_level" where
  "parseLevel raw =
     (if ToLower raw = ''debug'' then LevelDebug
      else if ToLower raw = ''warn'' then LevelWarn
      else if ToLower raw = ''error'' then LevelError
      else LevelInfo)"

text \<open>The closures \<open>intVal\<close>, \<open>durVal\<close> and \<open>int64Val\<close>: a value, and the error kept from before if any.\<close>

definition keep_first :: "config_error option \<Rightarrow> 'v \<times> config_error option \<Rightarrow> 'v \<times> config_error option" where
  "keep_first err r = (fst r, if err = None then snd r else err)"

definition Load :: "environ \<Rightarrow> config_error + Config" where
  "Load env =
     (let addrs = splitAddrs (getEnv env ''REDIS_ADDRS'' ''127.0.0.1:6379'');
          (db, err) = keep_first None (getEnvInt env ''REDIS_DB'' 0);
          (pool, err) = keep_first err (getEnvInt env ''REDIS_POOL_SIZE'' 256);
          (ttl, err) = keep_first err (getEnvDuration env ''BID_IDEMPOTENCY_TTL'' (10 * Minute));
          (dur, err) = keep_first err (getEnvDuration env ''DEFAULT_AUCTION_DURATION'' (10 * Minute));
          (cnt, err) = keep_first err (getEnvInt env ''STREAM_READ_COUNT'' 256);
          (inflight, err) = keep_first err (getEnvInt env ''MAX_INFLIGHT_BIDS'' 100000);
          (depth, err) = keep_first err (getEnvInt env ''MAX_WS_QUEUE_DEPTH'' 2048);
          (thr, err) = keep_first err (getEnvInt env ''BREAKER_FAILURE_THRESHOLD'' 20);
          (openFor, err) = keep_first err (getEnvDuration env ''BREAKER_OPEN_FOR'' (500 * Millisecond));
          (grace, err) = keep_first err (getEnvDuration env ''GRACEFUL_SHUTDOWN_TIMEOUT'' (10 * Second));
          (gogc, err) = keep_first err (getEnvInt env ''GOGC'' 100);
          (mem, err) = keep_first err (getEnvInt64 env ''GOMEMLIMIT_BYTES'' 0)
      in case err of
           Some e \<Rightarrow> Inl e
         | None \<Rightarrow>
             if addrs = [] then Inl NoRedisAddress
             else Inr \<lparr>GRPCAddress = getEnv env ''AUCTION_GRPC_ADDR'' '':8081'',
                       HTTPAddress = getEnv env ''AUCTION_HTTP_ADDR'' '':8080'',
                       RedisAddresses = addrs, RedisPassword = getEnv env ''REDIS_PASSWORD'' [],
                       RedisDB = db, RedisPoolSize = pool, BidIdempotencyTTL = ttl,
                       DefaultAuctionDuration = dur, StreamReadCount = cnt, MaxInFlightBids = inflight,
                       MaxWSQueueDepth = depth, BreakerFailureThreshold = thr, BreakerOpenFor = openFor,
                       LogLevel = parseLevel (getEnv env ''LOG_LEVEL'' ''info''),
                       GracefulShutdownTimeout = grace, GOGC = gogc, GoMemLimitBytes = mem\<rparr>)"

definition RedisAddrFromEnv :: "environ \<Rightarrow> string" where
  "RedisAddrFromEnv env =
     (if env ''REDIS_ADDR'' \<noteq> [] then env ''REDIS_ADDR''
      else case splitAddrs (env ''REDIS_ADDRS'') of [] \<Rightarrow> [] | a # _ \<Rightarrow> a)"

section \<open>Lemmas\<close>

lemma splitAddrs_loop_filter: "splitAddrs_loop ps = filter (\<lambda>a. a \<noteq> []) (map TrimSpace ps)"
  by (induction ps) auto

lemma trim_by_stop: "find (\<lambda>p. starts_with p (trim_by rs s)) rs = None"
proof (induction rs s rule: trim_by.induct)
  case (1 rs s)
  then show ?case
  proof (cases "find (\<lambda>p. starts_with p s) rs")
    case None
    then show ?thesis by (simp add: trim_by.simps [of rs s])
  next
    case (Some p)
    with 1 show ?thesis by (simp add: trim_by.simps [of rs s])
  qed
qed

lemma trim_by_drop: "\<exists>k. trim_by rs s = drop k s"
proof (induction rs s rule: trim_by.induct)
  case (1 rs s)
  show ?case
  proof (cases "find (\<lambda>p. starts_with p s) rs")
    case None
    then show ?thesis by (intro exI [of _ 0]) (simp add: trim_by.simps [of rs s])
  next
    case (Some p)
    then obtain k where "trim_by rs s = drop k (drop (length p) s)"
      using 1 by (auto simp: trim_by.simps [of rs s])
    then show ?thesis by (metis drop_drop)
  qed
qed

lemma trim_by_fix: "find (\<lambda>p. starts_with p s) rs = None \<Longrightarrow> trim_by rs s = s"
  by (simp add: trim_by.simps)

lemma TrimSpace_idem [simp]: "TrimSpace (TrimSpace s) = TrimSpace s"
proof -
  define l where "l = trim_by space_runes s"
  define r where "r = trim_by (map rev space_runes) (rev l)"
  have t: "TrimSpace s = rev r" by (simp add: TrimSpace_def l_def r_def)
  obtain k where k: "r = drop k (rev l)" using trim_by_drop r_def by blast
  then have pre: "rev r = take (length l - k) l" by (simp add: rev_drop)
  have "\<not> starts_with p (rev r)" if "p \<in> set space_runes" for p
  proof
    assume "starts_with p (rev r)"
    then have "starts_with p l" using pre by (auto simp: starts_with_def min_def split: if_splits)
    then show False using trim_by_stop [of space_runes s] that by (auto simp: l_def find_None_iff)
  qed
  then have "trim_by space_runes (rev r) = rev r"
    by (intro trim_by_fix) (auto simp: find_None_iff)
  moreover have "trim_by (map rev space_runes) r = r"
    using trim_by_stop [of "map rev space_runes" "rev l"] by (intro trim_by_fix) (simp add: r_def)
  ultimately have "TrimSpace (rev r) = rev r" by (simp add: TrimSpace_def)
  then show ?thesis by (simp add: t)
qed

lemma splitAddrs_trimmed: "a \<in> set (splitAddrs raw) \<Longrightarrow> a \<noteq> [] \<and> TrimSpace a = a"
  by (auto simp: splitAddrs_def splitAddrs_loop_filter)

lemma Load_addresses: "Load env = Inr cfg \<Longrightarrow>
  RedisAddresses cfg = splitAddrs (getEnv env ''REDIS_ADDRS'' ''127.0.0.1:6379'') \<and> RedisAddresses cfg \<noteq> []"
  by (auto simp: Load_def Let_def case_prod_beta split: option.splits if_splits)

section \<open>What a correct environment is\<close>

datatype var_kind = IntVar | DurationVar

text \<open>The typed variables in the order in which \<open>Load\<close> reads them.\<close>

definition typed_vars :: "(string \<times> var_kind) list" where
  "typed_vars =
     [(''REDIS_DB'', IntVar), (''REDIS_POOL_SIZE'', IntVar), (''BID_IDEMPOTENCY_TTL'', DurationVar),
      (''DEFAULT_AUCTION_DURATION'', DurationVar), (''STREAM_READ_COUNT'', IntVar), (''MAX_INFLIGHT_BIDS'', IntVar),
      (''MAX_WS_QUEUE_DEPTH'', IntVar), (''BREAKER_FAILURE_THRESHOLD'', IntVar), (''BREAKER_OPEN_FOR'', DurationVar),
      (''GRACEFUL_SHUTDOWN_TIMEOUT'', DurationVar), (''GOGC'', IntVar), (''GOMEMLIMIT_BYTES'', IntVar)]"

definition var_error :: "environ \<Rightarrow> string \<times> var_kind \<Rightarrow> config_error option" where
  "var_error env p =
     (if env (fst p) = [] then None
      else case snd p of
             IntVar \<Rightarrow> map_option (\<lambda>e. EnvError (fst p) (BadNumber e)) (snd (ParseInt (env (fst p))))
           | DurationVar \<Rightarrow> (if ParseDuration (env (fst p)) = None then Some (EnvError (fst p) BadDuration) else None))"

lemma snd_getEnv:
  "snd (getEnvInt env k d) = var_error env (k, IntVar)"
  "snd (getEnvInt64 env k d) = var_error env (k, IntVar)"
  "snd (getEnvDuration env k t) = var_error env (k, DurationVar)"
  by (auto simp: getEnvInt_def getEnvInt64_def getEnvDuration_def var_error_def Atoi_ParseInt split: prod.splits option.splits)

fun first_error :: "config_error option list \<Rightarrow> config_error option" where
  "first_error [] = None"
| "first_error (e # es) = (if e = None then first_error es else e)"

lemma first_error_skip: "\<forall>x \<in> set es. x = None \<Longrightarrow> first_error (es @ r) = first_error r"
  by (induction es) auto

lemma first_error_snoc: "first_error (es @ [e]) = (if first_error es = None then e else first_error es)"
  by (induction es) auto

lemma first_error_None: "first_error es = None \<longleftrightarrow> (\<forall>e \<in> set es. e = None)"
  by (induction es) auto

lemma first_error_map_None: "first_error (map f vs) = None \<longleftrightarrow> (\<forall>v \<in> set vs. f v = None)"
  by (simp add: first_error_None)

lemma first_error_Some:
  "first_error (map f vs) = Some e \<longleftrightarrow>
   (\<exists>pre v post. vs = pre @ v # post \<and> (\<forall>w \<in> set pre. f w = None) \<and> f v = Some e)"
proof
  assume a: "first_error (map f vs) = Some e"
  let ?pre = "takeWhile (\<lambda>v. f v = None) vs" and ?rest = "dropWhile (\<lambda>v. f v = None) vs"
  have pre: "\<forall>w \<in> set ?pre. f w = None" by (auto dest: set_takeWhileD)
  have "map f vs = map f ?pre @ map f ?rest" by (simp flip: map_append)
  moreover have "first_error (map f ?pre @ map f ?rest) = first_error (map f ?rest)"
    using pre by (intro first_error_skip) auto
  ultimately have rest: "first_error (map f ?rest) = Some e" using a by metis
  then obtain v post where v: "?rest = v # post" by (cases ?rest) auto
  then have "f v \<noteq> None" by (metis (mono_tags) hd_dropWhile list.distinct(1) list.sel(1))
  with rest v have "f v = Some e" by simp
  moreover have "vs = ?pre @ v # post" using v by (metis takeWhile_dropWhile_id)
  ultimately show "\<exists>pre v post. vs = pre @ v # post \<and> (\<forall>w \<in> set pre. f w = None) \<and> f v = Some e"
    using pre by blast
next
  assume "\<exists>pre v post. vs = pre @ v # post \<and> (\<forall>w \<in> set pre. f w = None) \<and> f v = Some e"
  then show "first_error (map f vs) = Some e" by (auto simp: first_error_skip)
qed

lemma keep_first_chain:
  "snd (keep_first None r) = first_error [snd r]"
  "snd (keep_first (first_error es) r) = first_error (es @ [snd r])"
  by (simp_all add: keep_first_def first_error_snoc)

lemma Load_error:
  "Load env = Inl e \<longleftrightarrow>
     (case first_error (map (var_error env) typed_vars) of
        Some e' \<Rightarrow> e = e'
      | None \<Rightarrow> e = NoRedisAddress \<and> splitAddrs (getEnv env ''REDIS_ADDRS'' ''127.0.0.1:6379'') = [])"
proof -
  have "\<exists>err cfg. Load env = (case err of Some e \<Rightarrow> Inl e | None \<Rightarrow>
      if splitAddrs (getEnv env ''REDIS_ADDRS'' ''127.0.0.1:6379'') = [] then Inl NoRedisAddress else Inr cfg) \<and>
    err = first_error (map (var_error env) typed_vars)"
    unfolding Load_def Let_def case_prod_beta typed_vars_def
    by (intro exI conjI, rule refl) (simp only: keep_first_chain snd_getEnv append.simps list.map)
  then show ?thesis by (auto split: option.splits if_splits)
qed

section \<open>Properties\<close>

text \<open>
  With an empty environment \<open>Load\<close> succeeds with the documented defaults.
\<close>

theorem load_defaults:
  "Load (\<lambda>_. []) =
     Inr \<lparr>GRPCAddress = '':8081'', HTTPAddress = '':8080'', RedisAddresses = [''127.0.0.1:6379''], RedisPassword = [],
          RedisDB = 0, RedisPoolSize = 256, BidIdempotencyTTL = 600000000000, DefaultAuctionDuration = 600000000000,
          StreamReadCount = 256, MaxInFlightBids = 100000, MaxWSQueueDepth = 2048, BreakerFailureThreshold = 20,
          BreakerOpenFor = 500000000, LogLevel = LevelInfo, GracefulShutdownTimeout = 10000000000, GOGC = 100,
          GoMemLimitBytes = 0\<rparr>"
proof -
  have "splitAddrs ''127.0.0.1:6379'' = [''127.0.0.1:6379'']" "parseLevel ''info'' = LevelInfo" by code_simp+
  then show ?thesis
    by (simp add: Load_def getEnv_def getEnvInt_def getEnvDuration_def getEnvInt64_def keep_first_def
        go_durations)
qed

text \<open>
  (C27) \<open>Load\<close> fails exactly when a typed variable that is set does not parse, or no usable Redis
  address is given; and the error it reports is that of the first malformed variable in the order
  in which they are read, the missing address coming last.
\<close>

theorem load_fails_on_first_bad_variable:
  "Load env = Inl e \<longleftrightarrow>
     (\<exists>pre v post. typed_vars = pre @ v # post \<and> (\<forall>w \<in> set pre. var_error env w = None) \<and> var_error env v = Some e) \<or>
     (\<forall>w \<in> set typed_vars. var_error env w = None) \<and>
     splitAddrs (getEnv env ''REDIS_ADDRS'' ''127.0.0.1:6379'') = [] \<and> e = NoRedisAddress"
  unfolding Load_error first_error_Some [symmetric]
  by (cases "first_error (map (var_error env) typed_vars)")
     (auto simp: first_error_map_None [symmetric] simp del: split_paired_All split_paired_Ex)

theorem load_fails_on_first_bad_variable_witness:
  "Load ((\<lambda>_. [])(''GOGC'' := ''1x'', ''REDIS_DB'' := ''many'')) = Inl (EnvError ''REDIS_DB'' (BadNumber ErrSyntax))"
proof -
  let ?env = "(\<lambda>_. [])(''GOGC'' := ''1x'', ''REDIS_DB'' := ''many'')"
  have "var_error ?env (''REDIS_DB'', IntVar) = Some (EnvError ''REDIS_DB'' (BadNumber ErrSyntax))" by code_simp
  moreover have "typed_vars = [] @ (''REDIS_DB'', IntVar) # tl typed_vars" by (simp add: typed_vars_def)
  ultimately show ?thesis
    unfolding load_fails_on_first_bad_variable
    by (intro disjI1 exI [of _ "[]"] exI [of _ "(''REDIS_DB'', IntVar)"] exI [of _ "tl typed_vars"]) simp
qed

text \<open>
  A duration variable written as a number and a unit (\<open>ns\<close>, \<open>us\<close>, \<open>ms\<close>, \<open>s\<close>, \<open>m\<close> or \<open>h\<close>)
  is read as that many of those units, for every number that fits in 63 bits of nanoseconds.
\<close>

theorem duration_setting_roundtrip:
  assumes "unitMap u = Some unit" and "n * unit < 2 ^ 63" and "env key = show_nat n @ u"
  shows "getEnvDuration env key fallback = (word_of_int (int (n * unit)), None) \<and>
    sint (fst (getEnvDuration env key fallback)) = int (n * unit)"
proof -
  have "int (n * unit) < int (2 ^ 63)" using assms(2) by (simp only: of_nat_less_iff)
  then have "- (2 ^ 63) \<le> int (n * unit)" "int (n * unit) < 2 ^ 63"
    by (simp_all del: of_nat_mult)
  then have "sint (word_of_int (int (n * unit)) :: int64) = int (n * unit)" by (rule sint_int64)
  with assms show ?thesis by (simp add: getEnvDuration_def ParseDuration_plain)
qed

theorem duration_setting_roundtrip_witness:
  "sint (fst (getEnvDuration (\<lambda>_. ''750ms'') ''BREAKER_OPEN_FOR'' 0)) = 750000000"
proof -
  have "''750ms'' = show_nat 750 @ ''ms''" and u: "unitMap ''ms'' = Some (10 ^ 6)" by code_simp+
  then show ?thesis
    using duration_setting_roundtrip [OF u, of 750 "\<lambda>_. ''750ms''" "''BREAKER_OPEN_FOR''" 0] by simp
qed

end
