(* ===== verification/Store.thy ===== *)
theory Store
  imports Breaker Router Script Config
begin

text \<open>
  \<open>RedisStore\<close> of \<open>internal/engine/redis_store.go\<close>: creating an auction, placing a bid through the
  script behind the circuit breaker, reading events, and the decoding of what the driver returns.
  The driver (go-redis) is a parameter, the record \<open>go_redis\<close>: how it renders an integer argument,
  and what a call returns given the command it sends to one server. The locale \<open>redis_backend\<close> says
  what a working driver in front of a working server does; a call may also fail in any way.
  A store keeps one database per client of its router; \<open>None\<close> as a result is a Go panic.
\<close>

section \<open>The driver\<close>

text \<open>
  A value of type \<open>interface{}\<close> inside a reply: a string, a byte slice, or anything else, of which
  only what \<open>%v\<close> prints matters. A reply is a slice of such values or a single one.
\<close>

datatype iface = IString string | IBytes string | IOther string

datatype reply = Slice "iface list" | Single iface

record XMessage =
  msg_ID :: string
  msg_Values :: "string \<rightharpoonup> iface"

type_synonym xstreams = "(string \<times> XMessage list) list"

record 'db go_redis =
  arg_int :: "int64 \<Rightarrow> string"
  script_run :: "('db \<Rightarrow> 'db \<times> (string + string \<times> string)) \<Rightarrow> 'db \<Rightarrow> 'db \<times> (go_error + reply)"
  hset_run :: "('db \<Rightarrow> string + 'db) \<Rightarrow> 'db \<Rightarrow> 'db \<times> go_error option"
  xread_run :: "('db \<Rightarrow> string + (string \<times> stream_entry list) list) \<Rightarrow> duration \<Rightarrow> 'db \<Rightarrow>
    go_error + xstreams"

section \<open>Decoding\<close>

fun strVal :: "iface \<Rightarrow> string" where
  "strVal (IString t) = t"
| "strVal (IBytes t) = t"
| "strVal (IOther t) = t"

definition parseInt64 :: "string \<Rightarrow> int64" where
  "parseInt64 v = fst (ParseInt v)"

definition pad_parts :: "nat \<Rightarrow> string list \<Rightarrow> string list" where
  "pad_parts n parts = parts @ replicate (n - length parts) []"

definition decodeCachedResult :: "string \<Rightarrow> PlaceBidResult" where
  "decodeCachedResult encoded =
     (let parts = pad_parts 7 (SplitN 7 (CHR ''|'') encoded)
      in \<lparr>Accepted = (parts ! 0 = ''1''), Duplicate = False, Reason = parts ! 1,
          CurrentPrice = parseInt64 (parts ! 2), WinnerUserID = parts ! 3,
          Version = parseInt64 (parts ! 4), EventID = parts ! 5,
          ServerUnixMilli = parseInt64 (parts ! 6)\<rparr>)"

definition val :: "(string \<rightharpoonup> iface) \<Rightarrow> string \<Rightarrow> string" where
  "val m key = (case m key of None \<Rightarrow> [] | Some raw \<Rightarrow> strVal raw)"

definition eventFromStream :: "XMessage \<Rightarrow> AuctionEvent" where
  "eventFromStream msg =
     (let m = msg_Values msg
      in \<lparr>evID = msg_ID msg, evAuctionID = val m ''auction_id'', evBidID = val m ''bid_id'',
          evUserID = val m ''user_id'', evAmountCents = parseInt64 (val m ''amount''),
          evVersion = parseInt64 (val m ''version''), evServerUnixMilli = parseInt64 (val m ''server_ts'')\<rparr>)"

section \<open>The store\<close>

record RedisStore =
  router :: RedisRouter
  idemTTL :: duration
  breaker :: circuitBreaker

definition NewRedisStore :: "RedisRouter \<Rightarrow> Config \<Rightarrow> RedisStore" where
  "NewRedisStore r cfg =
     \<lparr>router = r, idemTTL = BidIdempotencyTTL cfg,
      breaker = newCircuitBreaker (BreakerFailureThreshold cfg) (BreakerOpenFor cfg)\<rparr>"

definition auction_fields :: "'db go_redis \<Rightarrow> CreateAuctionRequest \<Rightarrow> (string \<times> string) list" where
  "auction_fields C req =
     [(''auction_id'', NewAuctionID req), (''status'', ''open''),
      (''current_price'', arg_int C (OpeningPriceCents req)), (''winner_user_id'', []),
      (''version'', arg_int C 0), (''end_at'', arg_int C (UnixMilli (EndAt req)))]"

definition RedisStore_CreateAuction :: "'db go_redis \<Rightarrow> 'db redis_cmds \<Rightarrow> RedisStore \<Rightarrow>
    CreateAuctionRequest \<Rightarrow> 'db list \<Rightarrow> ('db list \<times> go_error option) option" where
  "RedisStore_CreateAuction C R s req dbs =
     (case ForAuction (router s) (NewAuctionID req) of
        None \<Rightarrow> None
      | Some i \<Rightarrow>
          (let (db', err) = hset_run C (HSET R (stateKey (NewAuctionID req)) (auction_fields C req)) (dbs ! i)
           in Some (dbs[i := db'], err)))"

text \<open>The readings of \<open>time.Now()\<close> during one bid: in \<open>allow\<close>, for the script, and in \<open>fail\<close>.\<close>

record bid_clock =
  at_allow :: time
  at_run :: time
  at_fail :: time

definition bid_args :: "'db go_redis \<Rightarrow> RedisStore \<Rightarrow> time \<Rightarrow> PlaceBidRequest \<Rightarrow> script_args" where
  "bid_args C s now req =
     \<lparr>arg_bidId = BidID req, arg_userId = UserID req, arg_amount = arg_int C (AmountCents req),
      arg_nowMs = arg_int C (UnixMilli now), arg_idemTTL = arg_int C (Milliseconds (idemTTL s)),
      arg_auctionId = AuctionID req\<rparr>"

definition handle_response :: "time \<Rightarrow> circuitBreaker \<Rightarrow> reply \<Rightarrow>
    circuitBreaker \<times> PlaceBidResult \<times> go_error option" where
  "handle_response now b resp =
     (case resp of
        Slice (tag # enc # _) \<Rightarrow>
          (let result = decodeCachedResult (strVal enc)
           in if strVal tag = ''DUP'' then (success b, result\<lparr>Duplicate := True\<rparr>, None)
              else if strVal tag = ''ERR'' then (b, result, Some (ErrReason (Reason result)))
              else if strVal tag = ''OK'' then (success b, result, None)
              else (fail (UnixNano now) b, zero_result, Some ErrUnexpectedResponse))
      | _ \<Rightarrow> (b, zero_result, Some ErrUnexpectedResponse))"

definition RedisStore_PlaceBid :: "'db go_redis \<Rightarrow> 'db redis_cmds \<Rightarrow> bid_clock \<Rightarrow> RedisStore \<Rightarrow>
    PlaceBidRequest \<Rightarrow> 'db list \<Rightarrow> (RedisStore \<times> 'db list \<times> PlaceBidResult \<times> go_error option) option" where
  "RedisStore_PlaceBid C R clk s req dbs =
     (let (ok, b) = allow (UnixNano (at_allow clk)) (breaker s)
      in if \<not> ok then Some (s\<lparr>breaker := b\<rparr>, dbs, zero_result, Some ErrRedisBreakerOpen)
         else case ForAuction (router s) (AuctionID req) of
                None \<Rightarrow> None
              | Some i \<Rightarrow>
                  (let (db', resp) = script_run C
                         (bidScript R (bid_keys (AuctionID req)) (bid_args C s (at_run clk) req)) (dbs ! i)
                   in case resp of
                        Inl e \<Rightarrow> Some (s\<lparr>breaker := fail (UnixNano (at_fail clk)) b\<rparr>, dbs[i := db'],
                                       zero_result, Some e)
                      | Inr v \<Rightarrow>
                          (let (b', res, err) = handle_response (at_fail clk) b v
                           in Some (s\<lparr>breaker := b'\<rparr>, dbs[i := db'], res, err))))"

definition BreakerOpen :: "time \<Rightarrow> RedisStore \<Rightarrow> bool" where
  "BreakerOpen now s \<longleftrightarrow> isOpen (UnixNano now) (breaker s)"

section \<open>Reading events\<close>

text \<open>
  The offsets come as a list: the order in which the map is ranged over. A negative \<open>count\<close> makes
  the allocation of the result panic; allocations of any other size are taken to succeed.
\<close>

fun shard_reads :: "RedisRouter \<Rightarrow> (string \<times> string) list \<Rightarrow> (string \<times> string) list list \<Rightarrow>
    (string \<times> string) list list option" where
  "shard_reads r [] acc = Some acc"
| "shard_reads r ((a, off) # offs) acc =
     (case shard r a of
        None \<Rightarrow> None
      | Some i \<Rightarrow>
          if i < length acc
          then shard_reads r offs
                 (acc[i := acc ! i @ [(eventsKey a, if off = [] then ''0-0'' else off)]])
          else None)"

definition last_shard :: "(string \<times> string) list list \<Rightarrow> int" where
  "last_shard shards = foldl (\<lambda>l i. if shards ! i \<noteq> [] then int i else l) (- 1) [0..<length shards]"

fun read_shards :: "'db go_redis \<Rightarrow> 'db redis_cmds \<Rightarrow> int64 \<Rightarrow> int \<Rightarrow> nat \<Rightarrow>
    (string \<times> string) list list \<Rightarrow> 'db list \<Rightarrow> AuctionEvent list \<Rightarrow> go_error + AuctionEvent list" where
  "read_shards C R count lastI i [] dbs out = Inr out"
| "read_shards C R count lastI i (shd # shds) dbs out =
     (if shd = [] then read_shards C R count lastI (Suc i) shds dbs out
      else let block = (if int i = lastI then 5 * Millisecond else - 1)
           in case xread_run C (XREAD R shd (sint count)) block (dbs ! i) of
                Inl e \<Rightarrow> if e = RedisNil then read_shards C R count lastI (Suc i) shds dbs out
                         else Inl e
              | Inr res \<Rightarrow>
                  read_shards C R count lastI (Suc i) shds dbs
                    (out @ concat (map (\<lambda>st. map eventFromStream (snd st)) res)))"

definition RedisStore_ReadEvents :: "'db go_redis \<Rightarrow> 'db redis_cmds \<Rightarrow> RedisStore \<Rightarrow>
    (string \<times> string) list \<Rightarrow> int64 \<Rightarrow> 'db list \<Rightarrow> (go_error + AuctionEvent list) option" where
  "RedisStore_ReadEvents C R s offsets count dbs =
     (if offsets = [] then Some (Inr [])
      else case shard_reads (router s) offsets (replicate (length (clients (router s))) []) of
             None \<Rightarrow> None
           | Some shards \<Rightarrow>
               if sint count < 0 then None
               else Some (read_shards C R count (last_shard shards) 0 shards dbs []))"

section \<open>A working driver in front of a working server\<close>

definition message_of :: "stream_entry \<Rightarrow> XMessage" where
  "message_of e = \<lparr>msg_ID = fst e, msg_Values = map_option IString \<circ> map_of (rev (snd e))\<rparr>"

definition event_of :: "stream_entry \<Rightarrow> AuctionEvent" where
  "event_of e = eventFromStream (message_of e)"

locale redis_backend = redis_server R valid hash stream ttl is_hash is_stream before tick
  for R :: "'db redis_cmds" and valid hash stream ttl is_hash is_stream before tick +
  fixes C :: "'db go_redis"
  assumes renders_int: "arg_int C w = FormatInt w"
    and runs_script: "f db = (db', Inr (tag, enc)) \<Longrightarrow>
      script_run C f db = (db', Inr (Slice [IString tag, IString enc]))"
    and script_raises: "f db = (db', Inl e) \<Longrightarrow> script_run C f db = (db', Inl (ClientError e))"
    and runs_hset: "g db = Inr db' \<Longrightarrow> hset_run C g db = (db', None)"
    and runs_xread: "h db = Inr res \<Longrightarrow> res \<noteq> [] \<Longrightarrow>
      xread_run C h block db = Inr (map (\<lambda>(k, es). (k, map message_of es)) res)"
    and xread_nil: "h db = Inr [] \<Longrightarrow> xread_run C h block db = Inl RedisNil"

definition direct_driver :: "'db go_redis" where
  "direct_driver =
     \<lparr>arg_int = FormatInt,
      script_run = (\<lambda>f db. case f db of
                             (db', Inr (tag, enc)) \<Rightarrow> (db', Inr (Slice [IString tag, IString enc]))
                           | (db', Inl e) \<Rightarrow> (db', Inl (ClientError e))),
      hset_run = (\<lambda>g db. case g db of Inr db' \<Rightarrow> (db', None) | Inl e \<Rightarrow> (db, Some (ClientError e))),
      xread_run = (\<lambda>h block db. case h db of
                                  Inl e \<Rightarrow> Inl (ClientError e)
                                | Inr [] \<Rightarrow> Inl RedisNil
                                | Inr res \<Rightarrow> Inr (map (\<lambda>(k, es). (k, map message_of es)) res))\<rparr>"

interpretation memb: redis_backend mem_redis mem_wf mem_hash mem_stream mem_ttl mem_is_hash
  mem_is_stream id_lt mem_tick direct_driver
  by unfold_locales (auto simp: direct_driver_def split: list.splits)

end
