(* ===== verification/Auction.thy ===== *)
theory Auction
  imports Store
begin

text \<open>
  What the store promises about one auction. \<open>auction_st\<close> is an auction as a client thinks of it: a
  typed record, the results remembered per bid identifier, and the log of accepted bids;
  \<open>place_spec\<close> is a bid on it and \<open>create_spec\<close> its creation. \<open>abs_auction\<close> reads this state off
  the Redis keys. The theory shows that the store's operations are these operations, and proves the
  properties of an auction on the specification.
\<close>

section \<open>The specification\<close>

record auction =
  a_open :: bool
  a_end :: int
  a_price :: int
  a_winner :: string
  a_version :: int

record auction_st =
  a_rec :: "auction option"
  a_results :: "string \<rightharpoonup> PlaceBidResult"
  a_log :: "AuctionEvent list"

definition mk_result :: "bool \<Rightarrow> string \<Rightarrow> int \<Rightarrow> string \<Rightarrow> int \<Rightarrow> string \<Rightarrow> int \<Rightarrow> PlaceBidResult" where
  "mk_result acc reason price winner version eid now =
     \<lparr>Accepted = acc, Duplicate = False, Reason = reason, CurrentPrice = word_of_int price,
      WinnerUserID = winner, Version = word_of_int version, EventID = eid,
      ServerUnixMilli = word_of_int now\<rparr>"

definition remember :: "int \<Rightarrow> string \<Rightarrow> PlaceBidResult \<Rightarrow> auction_st \<Rightarrow> auction_st" where
  "remember ttl bid r st = st\<lparr>a_results := (if ttl \<le> 0 then Map.empty else (a_results st)(bid \<mapsto> r))\<rparr>"

definition mk_event :: "string \<Rightarrow> PlaceBidRequest \<Rightarrow> int \<Rightarrow> int \<Rightarrow> AuctionEvent" where
  "mk_event eid req version now =
     \<lparr>evID = eid, evAuctionID = AuctionID req, evBidID = BidID req, evUserID = UserID req,
      evAmountCents = AmountCents req, evVersion = word_of_int version,
      evServerUnixMilli = word_of_int now\<rparr>"

definition place_spec :: "int \<Rightarrow> int \<Rightarrow> PlaceBidRequest \<Rightarrow> string \<Rightarrow> auction_st \<Rightarrow>
    auction_st \<times> PlaceBidResult \<times> go_error option" where
  "place_spec ttl now req eid st =
     (case a_results st (BidID req) of
        Some r \<Rightarrow> (st, r\<lparr>Duplicate := True\<rparr>, None)
      | None \<Rightarrow>
     (case a_rec st of
        None \<Rightarrow> (st, mk_result False ''auction_not_found'' 0 [] 0 [] now, Some (ErrReason ''auction_not_found''))
      | Some a \<Rightarrow>
          (let amount = sint (AmountCents req);
               reject = (\<lambda>reason. mk_result False reason (a_price a) (a_winner a) (a_version a) [] now)
           in if \<not> a_open a then
                (remember ttl (BidID req) (reject ''auction_closed'') st, reject ''auction_closed'', None)
              else if a_end a \<le> now then
                (remember ttl (BidID req) (reject ''auction_ended'') (st\<lparr>a_rec := Some (a\<lparr>a_open := False\<rparr>)\<rparr>),
                 reject ''auction_ended'', None)
              else if amount \<le> a_price a then
                (remember ttl (BidID req) (reject ''bid_too_low'') st, reject ''bid_too_low'', None)
              else
                (let v = a_version a + 1;
                     r = mk_result True ''accepted'' amount (UserID req) v eid now
                 in (remember ttl (BidID req) r
                       (st\<lparr>a_rec := Some (a\<lparr>a_price := amount, a_winner := UserID req, a_version := v\<rparr>),
                           a_log := a_log st @ [mk_event eid req v now]\<rparr>), r, None)))))"

definition create_spec :: "CreateAuctionRequest \<Rightarrow> auction_st \<Rightarrow> auction_st" where
  "create_spec req st =
     st\<lparr>a_rec := Some \<lparr>a_open = True, a_end = sint (UnixMilli (EndAt req)),
                      a_price = sint (OpeningPriceCents req), a_winner = [], a_version = 0\<rparr>\<rparr>"

section \<open>Abstraction\<close>

definition num_field :: "(string \<rightharpoonup> string) \<Rightarrow> string \<Rightarrow> int" where
  "num_field st f = the (lua_tonumber (or_zero (st f)))"

definition abs_state :: "(string \<rightharpoonup> string) \<Rightarrow> auction option" where
  "abs_state st =
     (case st ''status'' of
        None \<Rightarrow> None
      | Some s \<Rightarrow> Some \<lparr>a_open = (s = ''open''), a_end = num_field st ''end_at'',
                       a_price = num_field st ''current_price'',
                       a_winner = or_empty (st ''winner_user_id''), a_version = num_field st ''version''\<rparr>)"

definition abs_auction :: "auction_view \<Rightarrow> auction_st" where
  "abs_auction v =
     \<lparr>a_rec = abs_state (av_state v), a_results = map_option decodeCachedResult \<circ> av_idem v,
      a_log = map event_of (av_events v)\<rparr>"

text \<open>
  The state hashes the program writes while its numbers stay within 14 decimal digits and no user
  identifier contains the separator of the encoding; \<open>n\<close> more bids can be accepted before the
  version number leaves this range.
\<close>

definition exact_field :: "(string \<rightharpoonup> string) \<Rightarrow> string \<Rightarrow> bool" where
  "exact_field st f \<longleftrightarrow>
     (case lua_tonumber (or_zero (st f)) of None \<Rightarrow> False | Some i \<Rightarrow> exact14 i)"

definition good_state :: "nat \<Rightarrow> (string \<rightharpoonup> string) \<Rightarrow> bool" where
  "good_state n st \<longleftrightarrow>
     exact_field st ''end_at'' \<and> exact_field st ''current_price'' \<and> exact_field st ''version'' \<and>
     num_field st ''version'' + int n < 10 ^ 14 \<and>
     CHR ''|'' \<notin> set (or_empty (st ''winner_user_id''))"

definition plain_bid :: "int \<Rightarrow> int \<Rightarrow> PlaceBidRequest \<Rightarrow> bool" where
  "plain_bid ttl now req \<longleftrightarrow>
     exact14 (sint (AmountCents req)) \<and> exact14 now \<and> \<bar>ttl\<bar> < 2 ^ 53 \<and> CHR ''|'' \<notin> set (UserID req)"

definition call_of :: "int \<Rightarrow> int \<Rightarrow> PlaceBidRequest \<Rightarrow> bid_call" where
  "call_of ttl now req =
     \<lparr>bc_bid = BidID req, bc_user = UserID req, bc_amount = sint (AmountCents req), bc_now = now,
      bc_ttl = ttl, bc_auction = AuctionID req\<rparr>"

text \<open>One auction of a store: the views of its keys on the server its identifier selects.\<close>

definition store_view :: "('db \<Rightarrow> string \<Rightarrow> string \<rightharpoonup> string) \<Rightarrow> ('db \<Rightarrow> string \<Rightarrow> stream_entry list) \<Rightarrow>
    RedisStore \<Rightarrow> 'db list \<Rightarrow> string \<Rightarrow> auction_view" where
  "store_view hash stream s dbs a = view_of hash stream a (dbs ! the (ForAuction (router s) a))"

definition auction_at :: "('db \<Rightarrow> string \<Rightarrow> string \<rightharpoonup> string) \<Rightarrow> ('db \<Rightarrow> string \<Rightarrow> stream_entry list) \<Rightarrow>
    RedisStore \<Rightarrow> 'db list \<Rightarrow> string \<Rightarrow> auction_st" where
  "auction_at hash stream s dbs a = abs_auction (store_view hash stream s dbs a)"

definition store_ok :: "('db \<Rightarrow> bool) \<Rightarrow> ('db \<Rightarrow> string \<Rightarrow> bool) \<Rightarrow> ('db \<Rightarrow> string \<Rightarrow> bool) \<Rightarrow>
    RedisStore \<Rightarrow> 'db list \<Rightarrow> bool" where
  "store_ok valid is_hash is_stream s dbs \<longleftrightarrow>
     router_ok (router s) \<and> length dbs = length (clients (router s)) \<and>
     (\<forall>db \<in> set dbs. valid db \<and> kinds_ok is_hash is_stream db)"

section \<open>Decoding what the script encodes\<close>

lemma parseInt64_tostring: "exact14 v \<Longrightarrow> parseInt64 (lua_tostring v) = word_of_int v"
  by (simp add: parseInt64_def lua_tostring_exact exact14_def ParseInt_show_int)

lemma seven: "(7::nat) = Suc (Suc (Suc (Suc (Suc (Suc (Suc 0))))))"
  by simp

lemma SplitN_encoded:
  assumes "CHR ''|'' \<notin> set p0" "CHR ''|'' \<notin> set p1" "CHR ''|'' \<notin> set p2"
    "CHR ''|'' \<notin> set p3" "CHR ''|'' \<notin> set p4" "CHR ''|'' \<notin> set p5"
  shows "SplitN 7 (CHR ''|'')
    (p0 @ ''|'' @ p1 @ ''|'' @ p2 @ ''|'' @ p3 @ ''|'' @ p4 @ ''|'' @ p5 @ ''|'' @ p6) =
    [p0, p1, p2, p3, p4, p5, p6]"
  unfolding seven by (simp add: assms SplitN_field del: SplitN.simps(3))

lemma decode_encode:
  assumes "exact14 price" "exact14 version" "exact14 now"
    and "CHR ''|'' \<notin> set acc" "CHR ''|'' \<notin> set reason" "CHR ''|'' \<notin> set winner" "CHR ''|'' \<notin> set eid"
  shows "decodeCachedResult (encode (Some now) acc reason (Some price) winner (Some version) eid) =
         mk_result (acc = ''1'') reason price winner version eid now"
  using assms
  by (simp add: decodeCachedResult_def encode_def tostring_opt_def SplitN_encoded pad_parts_def
      mk_result_def parseInt64_tostring Let_def del: append_Cons append_Nil)


section \<open>The script refines the specification\<close>

lemma exact_fieldE:
  assumes "exact_field st f"
  obtains i where "lua_tonumber (or_zero (st f)) = Some i" "num_field st f = i" "exact14 i"
  using assms by (auto simp: exact_field_def num_field_def split: option.splits)

lemma good_stateE:
  assumes "good_state n st"
  obtains e p v where
    "lua_tonumber (or_zero (st ''end_at'')) = Some e" "num_field st ''end_at'' = e" "exact14 e"
    "lua_tonumber (or_zero (st ''current_price'')) = Some p" "num_field st ''current_price'' = p" "exact14 p"
    "lua_tonumber (or_zero (st ''version'')) = Some v" "num_field st ''version'' = v" "exact14 v"
    "v + int n < 10 ^ 14"
  using assms unfolding good_state_def by (metis exact_fieldE)

lemma good_numeric: "good_state n st \<Longrightarrow> numeric_state st"
  by (auto simp: good_state_def numeric_state_def exact_field_def split: option.splits)

lemma exact14_Suc: "exact14 v \<Longrightarrow> v + 1 < 10 ^ 14 \<Longrightarrow> exact14 (v + 1)"
  by (auto simp: exact14_def)

lemma lua_add_exact: "exact14 (a + b) \<Longrightarrow> lua_add a b = a + b"
  by (simp add: lua_add_def)

lemma or_zero_Some [simp]: "or_zero (Some s) = s" and or_empty_Some [simp]: "or_empty (Some s) = s"
  by (simp_all add: or_zero_def or_empty_def)

lemma call_of_simps [simp]:
  "bc_bid (call_of ttl now req) = BidID req" "bc_user (call_of ttl now req) = UserID req"
  "bc_amount (call_of ttl now req) = sint (AmountCents req)" "bc_now (call_of ttl now req) = now"
  "bc_ttl (call_of ttl now req) = ttl" "bc_auction (call_of ttl now req) = AuctionID req"
  by (simp_all add: call_of_def)

lemma num_field_upd [simp]:
  "num_field (st(f \<mapsto> s)) g = (if g = f then the (lua_tonumber s) else num_field st g)"
  by (simp add: num_field_def)

lemma exact_field_upd [simp]:
  "exact_field (st(f \<mapsto> s)) g =
     (if g = f then (case lua_tonumber s of None \<Rightarrow> False | Some i \<Rightarrow> exact14 i) else exact_field st g)"
  by (simp add: exact_field_def)

lemma bid_state_good:
  assumes "good_state (Suc n) st" and "plain_bid ttl now req"
  shows "good_state n (bid_state (call_of ttl now req) st)"
proof -
  obtain e p v where g: "lua_tonumber (or_zero (st ''version'')) = Some v" "num_field st ''version'' = v"
    "exact14 v" "v + int (Suc n) < 10 ^ 14"
    using assms(1) by (rule good_stateE)
  then have x: "exact14 (v + 1)" by (intro exact14_Suc) auto
  then have "lua_add v 1 = v + 1" by (rule lua_add_exact)
  with g x assms show ?thesis
    by (auto simp: bid_state_def good_state_def plain_bid_def lua_tonumber_tostring)
qed

lemma event_of_bid:
  assumes "exact14 (num_field st ''version'' + 1)" and "plain_bid ttl now req"
  shows "event_of (eid, bid_event (call_of ttl now req) st) =
         mk_event eid req (num_field st ''version'' + 1) now"
  using assms
  by (simp add: event_of_def message_of_def bid_event_def eventFromStream_def val_def mk_event_def
      Let_def parseInt64_tostring plain_bid_def lua_add_exact flip: num_field_def)

lemma bid_encoded_result:
  assumes "good_state (Suc n) st" and "plain_bid ttl now req" and "CHR ''|'' \<notin> set eid"
    and "r = bid_outcome (call_of ttl now req) st"
  shows "decodeCachedResult (bid_encoded (call_of ttl now req) eid st) =
    (if r = ''auction_not_found'' then mk_result False r 0 [] 0 [] now
     else if r = ''accepted'' then
       mk_result True r (sint (AmountCents req)) (UserID req) (num_field st ''version'' + 1) eid now
     else mk_result False r (num_field st ''current_price'') (or_empty (st ''winner_user_id''))
            (num_field st ''version'') [] now)"
proof -
  obtain e p v where g: "lua_tonumber (or_zero (st ''current_price'')) = Some p"
    "num_field st ''current_price'' = p" "exact14 p" "lua_tonumber (or_zero (st ''version'')) = Some v"
    "num_field st ''version'' = v" "exact14 v" "v + int (Suc n) < 10 ^ 14"
    using assms(1) by (rule good_stateE)
  then have x: "exact14 (v + 1)" by (intro exact14_Suc) auto
  have w: "CHR ''|'' \<notin> set (or_empty (st ''winner_user_id''))"
    using assms(1) by (simp add: good_state_def)
  have z: "exact14 0" by (simp add: exact14_def)
  have b: "CHR ''|'' \<notin> set r"
    using assms(4) by (auto simp: bid_outcome_def)
  show ?thesis
    using assms(2-4) g x w z b
    by (simp add: bid_encoded_def Let_def decode_encode plain_bid_def lua_add_exact)
qed

lemma abs_state_None: "st ''status'' = None \<Longrightarrow> abs_state st = None"
  by (simp add: abs_state_def)

lemma abs_state_Some:
  "st ''status'' = Some s \<Longrightarrow> abs_state st =
     Some \<lparr>a_open = (s = ''open''), a_end = num_field st ''end_at'', a_price = num_field st ''current_price'',
           a_winner = or_empty (st ''winner_user_id''), a_version = num_field st ''version''\<rparr>"
  by (simp add: abs_state_def)

lemma abs_auction_simps [simp]:
  "a_rec (abs_auction v) = abs_state (av_state v)"
  "a_results (abs_auction v) = map_option decodeCachedResult \<circ> av_idem v"
  "a_log (abs_auction v) = map event_of (av_events v)"
  by (simp_all add: abs_auction_def)

lemma handle_response_tags [simp]:
  "handle_response t b (Slice [IString ''DUP'', IString s]) = (success b, (decodeCachedResult s)\<lparr>Duplicate := True\<rparr>, None)"
  "handle_response t b (Slice [IString ''OK'', IString s]) = (success b, decodeCachedResult s, None)"
  "handle_response t b (Slice [IString ''ERR'', IString s]) =
     (b, decodeCachedResult s, Some (ErrReason (Reason (decodeCachedResult s))))"
  by (simp_all add: handle_response_def Let_def)

lemma map_option_upd: "map_option f \<circ> (m(k \<mapsto> x)) = (map_option f \<circ> m)(k \<mapsto> f x)"
  by (simp add: fun_eq_iff)

lemma bid_refines:
  fixes ttl now req n eid v b
  defines "c \<equiv> call_of ttl now req"
    and "p \<equiv> place_spec ttl now req eid (abs_auction v)"
  assumes "good_state (Suc n) (av_state v)" and "plain_bid ttl now req" and "CHR ''|'' \<notin> set eid"
  shows "abs_auction (bid_effect c eid v) = fst p \<and>
    handle_response t b (Slice [IString (fst (bid_reply c eid v)), IString (snd (bid_reply c eid v))]) =
      (if snd (snd p) = None then success b else b, snd p)"
proof (cases "av_idem v (BidID req)")
  case (Some s)
  then show ?thesis
    by (simp add: p_def c_def place_spec_def bid_effect_def bid_reply_def)
next
  case fresh: None
  let ?st = "av_state v"
  have enc: "decodeCachedResult (bid_encoded c eid ?st) =
    (if r = ''auction_not_found'' then mk_result False r 0 [] 0 [] now
     else if r = ''accepted'' then
       mk_result True r (sint (AmountCents req)) (UserID req) (num_field ?st ''version'' + 1) eid now
     else mk_result False r (num_field ?st ''current_price'') (or_empty (?st ''winner_user_id''))
            (num_field ?st ''version'') [] now)" if "r = bid_outcome c ?st" for r
    unfolding c_def by (rule bid_encoded_result [OF assms(3-5) that [unfolded c_def]])
  note spec = p_def place_spec_def bid_effect_def bid_reply_def fresh c_def Let_def remember_def
  note enc' = enc [unfolded c_def]
  show ?thesis
  proof (cases c ?st rule: bid_outcome_cases)
    case none
    then show ?thesis
      by (simp add: spec enc' abs_state_None mk_result_def)
  next
    case (closed s)
    then show ?thesis
      by (simp add: spec enc' abs_state_Some abs_auction_def map_option_upd bid_state_def fun_eq_iff)
  next
    case ended
    then show ?thesis
      by (simp add: spec enc' abs_state_Some abs_auction_def map_option_upd bid_state_def fun_eq_iff
          flip: num_field_def)
  next
    case low
    then show ?thesis
      by (simp add: spec enc' abs_state_Some abs_auction_def map_option_upd bid_state_def fun_eq_iff
          flip: num_field_def)
  next
    case accepted
    obtain e p v where g: "num_field ?st ''version'' = v" "exact14 v" "v + int (Suc n) < 10 ^ 14"
      using assms(3) by (rule good_stateE)
    then have x: "exact14 (v + 1)" by (intro exact14_Suc) auto
    have a: "exact14 (sint (AmountCents req))" using assms(4) by (simp add: plain_bid_def)
    from accepted g x a show ?thesis
      by (simp add: spec enc' abs_state_Some abs_auction_def map_option_upd bid_state_def fun_eq_iff
          event_of_bid [OF _ assms(4)] lua_tonumber_tostring lua_add_exact flip: num_field_def)
  qed
qed
section \<open>The store refines the specification\<close>

lemma store_ok_shard:
  assumes "store_ok valid is_hash is_stream s dbs"
  obtains i where "ForAuction (router s) a = Some i" "i < length dbs" "valid (dbs ! i)"
    "kinds_ok is_hash is_stream (dbs ! i)"
  using assms ForAuction_total [of "router s" a] by (auto simp: store_ok_def)

lemma store_ok_update:
  "store_ok valid is_hash is_stream s dbs \<Longrightarrow> valid db \<Longrightarrow> kinds_ok is_hash is_stream db \<Longrightarrow>
   store_ok valid is_hash is_stream (s\<lparr>breaker := b\<rparr>) (dbs[i := db])"
  by (auto simp: store_ok_def dest!: subsetD [OF set_update_subset_insert])

lemma store_view_update:
  assumes "ForAuction (router s) a = Some i" "i < length dbs"
    and "view_of hash stream a db = w"
    and "\<forall>b. b \<noteq> a \<longrightarrow> view_of hash stream b db = view_of hash stream b (dbs ! i)"
  shows "store_view hash stream s (dbs[i := db]) b =
         (if b = a then w else store_view hash stream s dbs b)"
  using assms by (auto simp: store_view_def nth_list_update)

lemma good_state_less: "good_state (Suc n) st \<Longrightarrow> good_state n st"
  by (auto simp: good_state_def)

lemma store_view_breaker [simp]:
  "store_view hash stream (s\<lparr>breaker := b\<rparr>) dbs = store_view hash stream s dbs"
  by (simp add: store_view_def fun_eq_iff)

text \<open>A bid whose answer is new: its auction exists and its identifier is not remembered.\<close>

definition newly_answered :: "auction_view \<Rightarrow> PlaceBidRequest \<Rightarrow> bool" where
  "newly_answered v req \<longleftrightarrow> av_idem v (BidID req) = None \<and> av_state v ''status'' \<noteq> None"

context redis_backend
begin

lemma lua_reads_int: "\<bar>sint w\<bar> < 2 ^ 53 \<Longrightarrow> lua_tonumber (arg_int C w) = Some (sint w)"
  by (simp add: renders_int FormatInt_def lua_tonumber_show_int to_double_exact)

lemma bid_args_read:
  assumes "plain_bid (sint (Milliseconds (idemTTL s))) (sint (UnixMilli t)) req"
  shows "reads_as (bid_args C s t req) (call_of (sint (Milliseconds (idemTTL s))) (sint (UnixMilli t)) req)"
  using assms
  by (simp add: reads_as_def bid_args_def lua_reads_int plain_bid_def exact14_def)

text \<open>
  One execution of the script on the server of its auction: the new database, and a reply whose
  handling is the specification's answer whatever the state of the breaker.
\<close>

lemma script_run_refines:
  fixes s now req dbs
  defines "ttl0 \<equiv> sint (Milliseconds (idemTTL s))" and "ms \<equiv> sint (UnixMilli now)"
    and "a \<equiv> AuctionID req"
  assumes ok: "store_ok valid is_hash is_stream s dbs"
    and good: "good_state (Suc n) (av_state (store_view hash stream s dbs a))"
    and plain: "plain_bid ttl0 ms req"
  shows "\<exists>i db' v eid. ForAuction (router s) a = Some i \<and> i < length dbs \<and>
    script_run C (bidScript R (bid_keys a) (bid_args C s now req)) (dbs ! i) = (db', Inr v) \<and>
    (\<forall>t b. handle_response t b v =
      (if snd (snd (place_spec ttl0 ms req eid (auction_at hash stream s dbs a))) = None then success b else b,
       snd (place_spec ttl0 ms req eid (auction_at hash stream s dbs a)))) \<and>
    (\<forall>b. auction_at hash stream (s\<lparr>breaker := b\<rparr>) (dbs[i := db']) a =
      fst (place_spec ttl0 ms req eid (auction_at hash stream s dbs a))) \<and>
    good_state n (av_state (store_view hash stream s (dbs[i := db']) a)) \<and>
    (\<forall>b. b \<noteq> a \<longrightarrow> store_view hash stream s (dbs[i := db']) b = store_view hash stream s dbs b) \<and>
    (\<forall>b. store_ok valid is_hash is_stream (s\<lparr>breaker := b\<rparr>) (dbs[i := db'])) \<and> eid \<noteq> [] \<and>
    ttl db' = (if newly_answered (store_view hash stream s dbs a) req
      then (ttl (dbs ! i))(idemKey a := (if ttl0 \<le> 0 then None else Some ttl0)) else ttl (dbs ! i))"
proof -
  obtain i where i: "ForAuction (router s) a = Some i" "i < length dbs" "valid (dbs ! i)"
    "kinds_ok is_hash is_stream (dbs ! i)"
    using ok by (rule store_ok_shard)
  let ?c = "call_of ttl0 ms req" and ?v = "store_view hash stream s dbs a"
  have v: "?v = view_of hash stream a (dbs ! i)" using i(1) by (simp add: store_view_def)
  have ranges: "- (2 ^ 53) < bc_ttl ?c" "bc_ttl ?c < 2 ^ 53" using plain by (auto simp: plain_bid_def)
  have reads: "reads_as (bid_args C s now req) ?c"
    using plain bid_args_read unfolding ttl0_def ms_def by blast
  have num: "numeric_state (hash (dbs ! i) (stateKey a))"
    using good_numeric [OF good] v by simp
  obtain db' eid where run: "bidScript R (bid_keys a) (bid_args C s now req) (dbs ! i) =
      (db', Inr (bid_reply ?c eid ?v))"
    and db': "valid db'" "kinds_ok is_hash is_stream db'" "view_of hash stream a db' = bid_effect ?c eid ?v"
      "\<forall>b. b \<noteq> a \<longrightarrow> view_of hash stream b db' = view_of hash stream b (dbs ! i)"
    and eid: "eid \<noteq> []" "CHR ''|'' \<notin> set eid"
    and left: "ttl db' = (if hash (dbs ! i) (idemKey a) (bc_bid ?c) \<noteq> None \<or>
        bid_outcome ?c (hash (dbs ! i) (stateKey a)) = ''auction_not_found''
      then ttl (dbs ! i) else (ttl (dbs ! i))(idemKey a := (if bc_ttl ?c \<le> 0 then None else Some (bc_ttl ?c))))"
    using bidScript_effect [OF i(3,4) reads num ranges] v by metis
  note view = store_view_update [OF i(1,2) db'(3,4)]
  have "script_run C (bidScript R (bid_keys a) (bid_args C s now req)) (dbs ! i) =
      (db', Inr (Slice [IString (fst (bid_reply ?c eid ?v)), IString (snd (bid_reply ?c eid ?v))]))"
    using run by (intro runs_script) simp
  moreover have "good_state n (av_state (bid_effect ?c eid ?v))"
    using bid_state_good [OF good plain] good_state_less [OF good] by (auto simp: bid_effect_def)
  moreover have "ttl db' = (if newly_answered ?v req
      then (ttl (dbs ! i))(idemKey a := (if ttl0 \<le> 0 then None else Some ttl0)) else ttl (dbs ! i))"
    using left v by (auto simp: newly_answered_def bid_outcome_def)
  ultimately show ?thesis
    using i(1,2) bid_refines [OF good plain eid(2)] view store_ok_update [OF ok db'(1,2)] eid(1)
    by (intro exI [of _ i] exI [of _ db'] exI [of _ "Slice [IString (fst (bid_reply ?c eid ?v)), IString (snd (bid_reply ?c eid ?v))]"]
          exI [of _ eid]) (simp add: auction_at_def)
qed

lemma PlaceBid_refines:
  fixes s clk req dbs
  defines "ttl0 \<equiv> sint (Milliseconds (idemTTL s))" and "now \<equiv> sint (UnixMilli (at_run clk))"
    and "a \<equiv> AuctionID req"
  assumes ok: "store_ok valid is_hash is_stream s dbs" and closed: "\<not> BreakerOpen (at_allow clk) s"
    and good: "good_state (Suc n) (av_state (store_view hash stream s dbs a))"
    and plain: "plain_bid ttl0 now req"
  shows "\<exists>s' dbs' eid.
    RedisStore_PlaceBid C R clk s req dbs =
      Some (s', dbs', snd (place_spec ttl0 now req eid (auction_at hash stream s dbs a))) \<and>
    auction_at hash stream s' dbs' a = fst (place_spec ttl0 now req eid (auction_at hash stream s dbs a)) \<and>
    good_state n (av_state (store_view hash stream s' dbs' a)) \<and>
    (\<forall>b. b \<noteq> a \<longrightarrow> store_view hash stream s' dbs' b = store_view hash stream s dbs b) \<and>
    store_ok valid is_hash is_stream s' dbs' \<and> router s' = router s \<and> idemTTL s' = idemTTL s \<and>
    (\<forall>t. \<not> BreakerOpen t s') \<and> eid \<noteq> [] \<and>
    length dbs' = length dbs \<and>
    (\<forall>j < length dbs. ttl (dbs' ! j) =
      (if ForAuction (router s) a = Some j \<and> newly_answered (store_view hash stream s dbs a) req
       then (ttl (dbs ! j))(idemKey a := (if ttl0 \<le> 0 then None else Some ttl0)) else ttl (dbs ! j)))"
proof -
  obtain b where b: "allow (UnixNano (at_allow clk)) (breaker s) = (True, b)" "\<And>t. \<not> isOpen t b"
    using closed brk.closed_passes [of "UnixNano (at_allow clk)" "breaker s"]
      brk.passing_closes [of "UnixNano (at_allow clk)" "breaker s"]
    by (cases "allow (UnixNano (at_allow clk)) (breaker s)") (auto simp: BreakerOpen_def)
  obtain i db' v eid where r: "ForAuction (router s) a = Some i" "i < length dbs"
    "script_run C (bidScript R (bid_keys a) (bid_args C s (at_run clk) req)) (dbs ! i) = (db', Inr v)"
    "\<forall>t b. handle_response t b v =
      (if snd (snd (place_spec ttl0 now req eid (auction_at hash stream s dbs a))) = None then success b else b,
       snd (place_spec ttl0 now req eid (auction_at hash stream s dbs a)))"
    "\<forall>b. auction_at hash stream (s\<lparr>breaker := b\<rparr>) (dbs[i := db']) a =
      fst (place_spec ttl0 now req eid (auction_at hash stream s dbs a))"
    "good_state n (av_state (store_view hash stream s (dbs[i := db']) a))"
    "\<forall>b. b \<noteq> a \<longrightarrow> store_view hash stream s (dbs[i := db']) b = store_view hash stream s dbs b"
    "\<forall>b. store_ok valid is_hash is_stream (s\<lparr>breaker := b\<rparr>) (dbs[i := db'])" "eid \<noteq> []"
    "ttl db' = (if newly_answered (store_view hash stream s dbs a) req
      then (ttl (dbs ! i))(idemKey a := (if ttl0 \<le> 0 then None else Some ttl0)) else ttl (dbs ! i))"
    using script_run_refines [OF ok good [unfolded a_def] plain [unfolded ttl0_def now_def],
        folded ttl0_def now_def a_def]
    by (elim exE conjE) (rule that)
  let ?p = "place_spec ttl0 now req eid (auction_at hash stream s dbs a)"
  let ?b' = "if snd (snd ?p) = None then success b else b"
  have "RedisStore_PlaceBid C R clk s req dbs = Some (s\<lparr>breaker := ?b'\<rparr>, dbs[i := db'], snd ?p)"
    using r(1-3) b(1) r(4)
    by (simp add: RedisStore_PlaceBid_def a_def split: prod.splits)
  moreover have "\<not> BreakerOpen t (s\<lparr>breaker := ?b'\<rparr>)" for t
    using b(2) brk.success_closes by (simp add: BreakerOpen_def)
  moreover have "\<forall>j < length dbs. ttl (dbs[i := db'] ! j) =
      (if ForAuction (router s) a = Some j \<and> newly_answered (store_view hash stream s dbs a) req
       then (ttl (dbs ! j))(idemKey a := (if ttl0 \<le> 0 then None else Some ttl0)) else ttl (dbs ! j))"
    using r(1,2,10) by (auto simp: nth_list_update)
  ultimately show ?thesis
    using r(1-9) by (intro exI [of _ "s\<lparr>breaker := ?b'\<rparr>"] exI [of _ "dbs[i := db']"] exI [of _ eid]) simp
qed

end

context redis_backend
begin

lemma state_hash_created:
  fixes req st
  defines "st' \<equiv> st ++ written (auction_fields C req)"
  assumes "exact14 (sint (OpeningPriceCents req))" and "exact14 (sint (UnixMilli (EndAt req)))"
  shows "abs_state st' = Some \<lparr>a_open = True, a_end = sint (UnixMilli (EndAt req)),
      a_price = sint (OpeningPriceCents req), a_winner = [], a_version = 0\<rparr>"
    and "int n < 10 ^ 14 \<Longrightarrow> good_state n st'"
proof -
  have f: "st' ''status'' = Some ''open''" "st' ''winner_user_id'' = Some []"
    "st' ''end_at'' = Some (arg_int C (UnixMilli (EndAt req)))"
    "st' ''current_price'' = Some (arg_int C (OpeningPriceCents req))" "st' ''version'' = Some (arg_int C 0)"
    by (simp_all add: st'_def auction_fields_def written_def)
  have r: "lua_tonumber (arg_int C (UnixMilli (EndAt req))) = Some (sint (UnixMilli (EndAt req)))"
    "lua_tonumber (arg_int C (OpeningPriceCents req)) = Some (sint (OpeningPriceCents req))"
    "lua_tonumber (arg_int C 0) = Some 0"
    using assms by (auto simp: lua_reads_int exact14_def)
  have n: "num_field st' ''end_at'' = sint (UnixMilli (EndAt req))"
    "num_field st' ''current_price'' = sint (OpeningPriceCents req)" "num_field st' ''version'' = 0"
    using f r by (simp_all add: num_field_def)
  then show "abs_state st' = Some \<lparr>a_open = True, a_end = sint (UnixMilli (EndAt req)),
      a_price = sint (OpeningPriceCents req), a_winner = [], a_version = 0\<rparr>"
    using f by (simp add: abs_state_def)
  assume "int n < 10 ^ 14"
  then show "good_state n st'"
    using assms f r n by (simp add: good_state_def exact_field_def exact14_def)
qed

lemma CreateAuction_refines:
  fixes req s dbs
  defines "a \<equiv> NewAuctionID req"
  assumes ok: "store_ok valid is_hash is_stream s dbs"
    and exact: "exact14 (sint (OpeningPriceCents req))" "exact14 (sint (UnixMilli (EndAt req)))"
  shows "\<exists>dbs'. RedisStore_CreateAuction C R s req dbs = Some (dbs', None) \<and>
    auction_at hash stream s dbs' a = create_spec req (auction_at hash stream s dbs a) \<and>
    (\<forall>n. int n < 10 ^ 14 \<longrightarrow> good_state n (av_state (store_view hash stream s dbs' a))) \<and>
    (\<forall>b. b \<noteq> a \<longrightarrow> store_view hash stream s dbs' b = store_view hash stream s dbs b) \<and>
    store_ok valid is_hash is_stream s dbs' \<and> map ttl dbs' = map ttl dbs"
proof -
  obtain i where i: "ForAuction (router s) a = Some i" "i < length dbs" "valid (dbs ! i)"
    "kinds_ok is_hash is_stream (dbs ! i)"
    using ok by (rule store_ok_shard)
  have ne: "auction_fields C req \<noteq> []" by (simp add: auction_fields_def)
  obtain db' where h: "HSET R (stateKey a) (auction_fields C req) (dbs ! i) = Inr db'" "valid db'"
    "kinds_ok is_hash is_stream db'"
    "hash db' = (hash (dbs ! i))(stateKey a := hash (dbs ! i) (stateKey a) ++ written (auction_fields C req))"
    "stream db' = stream (dbs ! i)" "ttl db' = ttl (dbs ! i)"
    using hset_state [OF i(3,4) ne] by blast
  have run: "RedisStore_CreateAuction C R s req dbs = Some (dbs[i := db'], None)"
    using i(1) runs_hset [of "HSET R (stateKey a) (auction_fields C req)", OF h(1)] by (simp add: RedisStore_CreateAuction_def a_def)
  have v: "view_of hash stream a db' =
      (view_of hash stream a (dbs ! i))\<lparr>av_state := hash (dbs ! i) (stateKey a) ++ written (auction_fields C req)\<rparr>"
    "\<forall>b. b \<noteq> a \<longrightarrow> view_of hash stream b db' = view_of hash stream b (dbs ! i)"
    using h(4,5) by (simp_all add: view_of_def)
  note upd = store_view_update [OF i(1,2) v]
  have "store_ok valid is_hash is_stream s (dbs[i := db'])"
    using store_ok_update [OF ok h(2,3), of "breaker s" i] by simp
  moreover have "store_view hash stream s dbs a = view_of hash stream a (dbs ! i)"
    using i(1) by (simp add: store_view_def)
  moreover have "map ttl (dbs[i := db']) = map ttl dbs" using h(6) i(2) by (simp add: map_update) (metis list_update_id map_update)
  ultimately show ?thesis
    using run state_hash_created [OF exact] upd
    by (intro exI [of _ "dbs[i := db']"]) (simp add: auction_at_def abs_auction_def create_spec_def)
qed

end

end
