(* ===== verification/AuctionProps.thy ===== *)
theory AuctionProps
  imports Auction
begin

text \<open>
  The properties of auctions in a store: runs of bids, in the order in which the servers execute
  them, from a store whose driver and servers work. Statements are about the results of
  \<open>RedisStore_CreateAuction\<close> and \<open>RedisStore_PlaceBid\<close> and about the auctions read off the
  databases.
\<close>

section \<open>Runs of bids\<close>

type_synonym bid_run = "(bid_clock \<times> PlaceBidRequest) list"

fun place_all :: "'db go_redis \<Rightarrow> 'db redis_cmds \<Rightarrow> bid_run \<Rightarrow> RedisStore \<Rightarrow> 'db list \<Rightarrow>
    (RedisStore \<times> 'db list \<times> (PlaceBidResult \<times> go_error option) list) option" where
  "place_all C R [] s dbs = Some (s, dbs, [])"
| "place_all C R ((clk, req) # bids) s dbs =
     (case RedisStore_PlaceBid C R clk s req dbs of
        None \<Rightarrow> None
      | Some (s', dbs', res) \<Rightarrow>
          (case place_all C R bids s' dbs' of
             None \<Rightarrow> None
           | Some (s'', dbs'', rs) \<Rightarrow> Some (s'', dbs'', res # rs)))"

text \<open>The run's numbers stay within 14 digits, and user identifiers hold no separator.\<close>

definition plain_run :: "RedisStore \<Rightarrow> bid_run \<Rightarrow> bool" where
  "plain_run s bids \<longleftrightarrow>
     (\<forall>(clk, req) \<in> set bids.
        plain_bid (sint (Milliseconds (idemTTL s))) (sint (UnixMilli (at_run clk))) req)"

text \<open>A store ready for \<open>n\<close> bids: its servers are in order, the breaker is closed, all states good.\<close>

definition ready :: "('db \<Rightarrow> bool) \<Rightarrow> ('db \<Rightarrow> string \<Rightarrow> string \<rightharpoonup> string) \<Rightarrow> ('db \<Rightarrow> string \<Rightarrow> stream_entry list) \<Rightarrow>
    ('db \<Rightarrow> string \<Rightarrow> bool) \<Rightarrow> ('db \<Rightarrow> string \<Rightarrow> bool) \<Rightarrow> nat \<Rightarrow> RedisStore \<Rightarrow> 'db list \<Rightarrow> bool" where
  "ready valid hash stream is_hash is_stream n s dbs \<longleftrightarrow>
     store_ok valid is_hash is_stream s dbs \<and> (\<forall>t. \<not> BreakerOpen t s) \<and>
     (\<forall>a. good_state n (av_state (store_view hash stream s dbs a)))"

text \<open>
  The state of an auction against its log: \<open>k\<close> events are from before its creation with the
  opening price \<open>p0\<close>; the later ones carry the versions 1, 2, \<dots> and strictly rising amounts above
  the opening price, and the last one gives the current price and winner.
\<close>

definition log_inv :: "int \<Rightarrow> nat \<Rightarrow> auction_st \<Rightarrow> bool" where
  "log_inv p0 k st \<longleftrightarrow>
     (case a_rec st of
        None \<Rightarrow> False
      | Some a \<Rightarrow>
          (let es = drop k (a_log st)
           in k \<le> length (a_log st) \<and> a_version a = int (length es) \<and>
              map evVersion es = map (\<lambda>i. word_of_int (int i)) [1..<Suc (length es)] \<and>
              sorted_wrt (<) (p0 # map (\<lambda>e. sint (evAmountCents e)) es) \<and>
              a_price a = last (p0 # map (\<lambda>e. sint (evAmountCents e)) es) \<and>
              a_winner a = last ([] # map evUserID es)))"

definition price_of :: "auction_st \<Rightarrow> int" where
  "price_of st = (case a_rec st of None \<Rightarrow> 0 | Some a \<Rightarrow> a_price a)"

text \<open>An invariant over the rest of the run and the state of one auction, kept by every bid.\<close>

definition carried :: "int \<Rightarrow> string \<Rightarrow> (bid_run \<Rightarrow> auction_st \<Rightarrow> bool) \<Rightarrow> bool" where
  "carried ttl a I \<longleftrightarrow>
     (\<forall>clk req rest st eid. I ((clk, req) # rest) st \<longrightarrow>
        I rest (if AuctionID req = a
                then fst (place_spec ttl (sint (UnixMilli (at_run clk))) req eid st) else st))"

text \<open>The bids of a run on one auction, their amounts, and the leader after all of them.\<close>

definition bids_on :: "string \<Rightarrow> bid_run \<Rightarrow> bid_run" where
  "bids_on a bids = filter (\<lambda>b. AuctionID (snd b) = a) bids"

definition bid_amount :: "bid_clock \<times> PlaceBidRequest \<Rightarrow> int" where
  "bid_amount b = sint (AmountCents (snd b))"

definition top_price :: "int \<Rightarrow> bid_run \<Rightarrow> int" where
  "top_price p bids = Max (insert p (bid_amount ` set bids))"

definition top_bidder :: "int \<Rightarrow> string \<Rightarrow> bid_run \<Rightarrow> string" where
  "top_bidder p w bids =
     (if top_price p bids = p then w
      else UserID (snd (hd (filter (\<lambda>b. bid_amount b = top_price p bids) bids))))"

text \<open>Bids in time for an auction that ends at \<open>e\<close>, each under its own identifier not used before.\<close>

definition fresh_bids :: "int \<Rightarrow> (string \<rightharpoonup> PlaceBidResult) \<Rightarrow> bid_run \<Rightarrow> bool" where
  "fresh_bids e seen bids \<longleftrightarrow>
     distinct (map (BidID \<circ> snd) bids) \<and>
     (\<forall>b \<in> set bids. seen (BidID (snd b)) = None \<and> sint (UnixMilli (at_run (fst b))) < e)"

definition leads_to :: "string \<Rightarrow> int \<Rightarrow> string \<Rightarrow> bid_run \<Rightarrow> auction_st \<Rightarrow> bool" where
  "leads_to a p w bids st \<longleftrightarrow>
     (case a_rec st of
        None \<Rightarrow> False
      | Some r \<Rightarrow> a_open r \<and> fresh_bids (a_end r) (a_results st) (bids_on a bids) \<and>
          top_price (a_price r) (bids_on a bids) = p \<and>
          top_bidder (a_price r) (a_winner r) (bids_on a bids) = w)"

section \<open>Facts about the specification\<close>

lemma sorted_wrt_snoc:
  assumes "sorted_wrt (<) (p # xs)" and "last (p # xs) < (y :: int)"
  shows "sorted_wrt (<) (p # xs @ [y])"
proof -
  have "\<forall>x \<in> set (p # xs). x \<le> last (p # xs)"
    using assms(1)
  proof (induction xs rule: rev_induct)
    case (snoc z zs)
    then show ?case by (auto simp: sorted_wrt_append intro: less_imp_le)
  qed simp
  then have "\<forall>x \<in> set (p # xs). x < y" using assms(2) by (meson le_less_trans)
  then show ?thesis using assms(1) by (simp add: sorted_wrt_append)
qed

lemma remember_simps [simp]:
  "a_rec (remember ttl bid r st) = a_rec st" "a_log (remember ttl bid r st) = a_log st"
  by (simp_all add: remember_def)

lemma log_inv_remember [simp]: "log_inv p0 k (remember ttl bid r st) = log_inv p0 k st"
  by (simp add: log_inv_def split: option.split)

lemma log_inv_create:
  "log_inv (sint (OpeningPriceCents req)) (length (a_log st)) (create_spec req st)"
  by (simp add: log_inv_def create_spec_def)

lemma log_inv_place:
  assumes "log_inv p0 k st"
  shows "log_inv p0 k (fst (place_spec ttl now req eid st))"
proof -
  obtain a where a: "a_rec st = Some a" "k \<le> length (a_log st)"
    "a_version a = int (length (drop k (a_log st)))"
    "map evVersion (drop k (a_log st)) = map (\<lambda>i. word_of_int (int i)) [1..<Suc (length (drop k (a_log st)))]"
    "sorted_wrt (<) (p0 # map (\<lambda>e. sint (evAmountCents e)) (drop k (a_log st)))"
    "a_price a = last (p0 # map (\<lambda>e. sint (evAmountCents e)) (drop k (a_log st)))"
    "a_winner a = last ([] # map evUserID (drop k (a_log st)))"
    using assms by (auto simp: log_inv_def Let_def split: option.splits)
  have ended: "log_inv p0 k (st\<lparr>a_rec := Some (a\<lparr>a_open := False\<rparr>)\<rparr>)"
    using assms a(1) by (simp add: log_inv_def)
  let ?v = "a_version a + 1" and ?m = "sint (AmountCents req)"
  have accepted: "log_inv p0 k
     (st\<lparr>a_rec := Some (a\<lparr>a_price := ?m, a_winner := UserID req, a_version := ?v\<rparr>),
         a_log := a_log st @ [mk_event eid req ?v now]\<rparr>)" if "a_price a < ?m"
    using a that sorted_wrt_snoc [OF a(5)]
    by (simp add: log_inv_def Let_def mk_event_def)
  show ?thesis
    using assms a(1) ended accepted
    by (simp add: place_spec_def Let_def split: option.split)
qed


lemma place_spec_keeps_result:
  "a_results st bid = Some r \<Longrightarrow> 0 < ttl \<Longrightarrow>
   a_results (fst (place_spec ttl now req eid st)) bid = Some r"
  by (auto simp: place_spec_def remember_def Let_def split: option.split)

lemma place_spec_closed:
  assumes "a_rec st = Some a" "\<not> a_open a"
  shows "a_rec (fst (place_spec ttl now req eid st)) = Some a \<and>
         a_log (fst (place_spec ttl now req eid st)) = a_log st"
  using assms by (simp add: place_spec_def remember_def Let_def split: option.split)

lemma carriedD:
  "carried ttl a I \<Longrightarrow> I ((clk, req) # rest) st \<Longrightarrow>
   I rest (if AuctionID req = a then fst (place_spec ttl (sint (UnixMilli (at_run clk))) req eid st) else st)"
  unfolding carried_def by blast

lemma top_price_Cons [simp]: "top_price p (b # bids) = top_price (max p (bid_amount b)) bids"
  by (cases "set bids = {}") (auto simp: top_price_def max_def insert_commute)

lemma top_price_ge: "p \<le> top_price p bids"
  by (simp add: top_price_def)

lemma bids_on_Cons [simp]:
  "bids_on a ((clk, req) # bids) = (if AuctionID req = a then (clk, req) # bids_on a bids else bids_on a bids)"
  by (simp add: bids_on_def)

lemma fresh_bids_Cons [simp]:
  "fresh_bids e seen (b # bids) \<longleftrightarrow>
     seen (BidID (snd b)) = None \<and> sint (UnixMilli (at_run (fst b))) < e \<and>
     BidID (snd b) \<notin> BidID ` snd ` set bids \<and> fresh_bids e seen bids"
  by (auto simp: fresh_bids_def image_image)

lemma fresh_bids_remembered:
  assumes "fresh_bids e seen bids" and "bid \<notin> BidID ` snd ` set bids"
  shows "fresh_bids e Map.empty bids" and "fresh_bids e (seen(bid \<mapsto> r)) bids"
  using assms by (auto simp: fresh_bids_def)

lemma carried_log: "carried ttl a (\<lambda>_. log_inv p0 k)"
  by (simp add: carried_def log_inv_place)

lemma carried_result: "0 < ttl \<Longrightarrow> carried ttl a (\<lambda>_ st. a_results st bid = Some r)"
  by (simp add: carried_def place_spec_keeps_result)

lemma carried_closed:
  "\<not> a_open r \<Longrightarrow> carried ttl a (\<lambda>_ st. a_rec st = Some r \<and> a_log st = l)"
  by (simp add: carried_def place_spec_closed)

lemma carried_leads: "carried ttl a (leads_to a p w)"
  unfolding carried_def
proof (intro allI impI)
  fix clk req rest st eid
  assume l: "leads_to a p w ((clk, req) # rest) st"
  then obtain r where r: "a_rec st = Some r" by (auto simp: leads_to_def split: option.splits)
  let ?m = "sint (AmountCents req)" and ?now = "sint (UnixMilli (at_run clk))" and ?p = "a_price r"
  have m: "bid_amount (clk, req) = ?m" by (simp add: bid_amount_def)
  show "leads_to a p w rest (if AuctionID req = a then fst (place_spec ttl ?now req eid st) else st)"
  proof (cases "AuctionID req = a")
    case own: True
    have f: "a_open r" "a_results st (BidID req) = None" "?now < a_end r"
      "BidID req \<notin> BidID ` snd ` set (bids_on a rest)" "fresh_bids (a_end r) (a_results st) (bids_on a rest)"
      using l r own by (simp_all add: leads_to_def)
    have t: "top_price (max ?p ?m) (bids_on a rest) = p"
      "top_bidder ?p (a_winner r) ((clk, req) # bids_on a rest) = w"
      using l r own m by (simp_all add: leads_to_def)
    note fresh = fresh_bids_remembered [OF f(5,4)]
    show ?thesis
    proof (cases "?m \<le> ?p")
      case True
      have "top_bidder ?p (a_winner r) (bids_on a rest) = w"
        using t True m top_price_ge [of ?p "bids_on a rest"] by (auto simp: top_bidder_def max_def split: if_splits)
      with own True f r t(1) fresh show ?thesis
        by (simp add: leads_to_def place_spec_def remember_def max_def)
    next
      case False
      have "top_bidder ?m (UserID req) (bids_on a rest) = w"
        using t False m top_price_ge [of ?m "bids_on a rest"]
        by (auto simp: top_bidder_def max_def split: if_splits)
      with own False f r t(1) fresh show ?thesis
        by (simp add: leads_to_def place_spec_def remember_def max_def Let_def)
    qed
  next
    case False
    with l show ?thesis by (simp add: leads_to_def split: option.splits)
  qed
qed

section \<open>Runs in a working backend\<close>

context redis_backend
begin

abbreviation store_ready :: "nat \<Rightarrow> RedisStore \<Rightarrow> 'db list \<Rightarrow> bool" where
  "store_ready \<equiv> ready valid hash stream is_hash is_stream"

abbreviation auction_in :: "RedisStore \<Rightarrow> 'db list \<Rightarrow> string \<Rightarrow> auction_st" where
  "auction_in \<equiv> auction_at hash stream"

lemma ready_step:
  fixes s clk req dbs n
  defines "ttl0 \<equiv> sint (Milliseconds (idemTTL s))" and "now \<equiv> sint (UnixMilli (at_run clk))"
    and "a \<equiv> AuctionID req"
  assumes rdy: "store_ready (Suc n) s dbs" and plain: "plain_bid ttl0 now req"
  obtains s' dbs' eid where
    "RedisStore_PlaceBid C R clk s req dbs = Some (s', dbs', snd (place_spec ttl0 now req eid (auction_in s dbs a)))"
    "auction_in s' dbs' a = fst (place_spec ttl0 now req eid (auction_in s dbs a))"
    "\<forall>b. b \<noteq> a \<longrightarrow> auction_in s' dbs' b = auction_in s dbs b"
    "store_ready n s' dbs'" "idemTTL s' = idemTTL s" "eid \<noteq> []"
proof -
  have r: "store_ok valid is_hash is_stream s dbs" "\<not> BreakerOpen (at_allow clk) s"
    "\<And>b. good_state (Suc n) (av_state (store_view hash stream s dbs b))"
    using rdy by (auto simp: ready_def)
  obtain s' dbs' eid where p:
    "RedisStore_PlaceBid C R clk s req dbs = Some (s', dbs', snd (place_spec ttl0 now req eid (auction_in s dbs a)))"
    "auction_in s' dbs' a = fst (place_spec ttl0 now req eid (auction_in s dbs a))"
    "good_state n (av_state (store_view hash stream s' dbs' a))"
    "\<forall>b. b \<noteq> a \<longrightarrow> store_view hash stream s' dbs' b = store_view hash stream s dbs b"
    "store_ok valid is_hash is_stream s' dbs'" "idemTTL s' = idemTTL s" "\<forall>t. \<not> BreakerOpen t s'" "eid \<noteq> []"
    using PlaceBid_refines [OF r(1,2) r(3) plain [unfolded ttl0_def now_def]]
    unfolding ttl0_def now_def a_def by blast
  have "good_state n (av_state (store_view hash stream s' dbs' b))" for b
    using p(3,4) good_state_less [OF r(3)] by (cases "b = a") simp_all
  then have "store_ready n s' dbs'" using p(5,7) by (simp add: ready_def)
  with p that show ?thesis by (simp add: auction_at_def)
qed

text \<open>
  Induction over a run: \<open>I rest st\<close> relates what is still to be bid to the state of the auction \<open>a\<close>.
\<close>

lemma run_invariant:
  assumes "store_ready (length bids + n) s dbs" and "plain_run s bids" and "I bids (auction_in s dbs a)"
    and "carried (sint (Milliseconds (idemTTL s))) a I"
  shows "\<exists>s' dbs' rs. place_all C R bids s dbs = Some (s', dbs', rs) \<and> length rs = length bids \<and>
    idemTTL s' = idemTTL s \<and> store_ready n s' dbs' \<and> I [] (auction_in s' dbs' a)"
  using assms
proof (induction bids arbitrary: s dbs)
  case Nil
  then show ?case by simp
next
  case (Cons b rest)
  obtain clk req where b: "b = (clk, req)" by (cases b)
  have rdy: "store_ready (Suc (length rest + n)) s dbs" using Cons.prems(1) by simp
  have plain: "plain_bid (sint (Milliseconds (idemTTL s))) (sint (UnixMilli (at_run clk))) req"
    using Cons.prems(2) b by (simp add: plain_run_def)
  obtain s1 dbs1 eid where p:
    "RedisStore_PlaceBid C R clk s req dbs = Some (s1, dbs1, snd (place_spec (sint (Milliseconds (idemTTL s)))
       (sint (UnixMilli (at_run clk))) req eid (auction_in s dbs (AuctionID req))))"
    "auction_in s1 dbs1 (AuctionID req) = fst (place_spec (sint (Milliseconds (idemTTL s)))
       (sint (UnixMilli (at_run clk))) req eid (auction_in s dbs (AuctionID req)))"
    "\<forall>b. b \<noteq> AuctionID req \<longrightarrow> auction_in s1 dbs1 b = auction_in s dbs b"
    "store_ready (length rest + n) s1 dbs1" "idemTTL s1 = idemTTL s" "eid \<noteq> []"
    by (rule ready_step [OF rdy plain])
  have "I rest (auction_in s1 dbs1 a)"
    using Cons.prems(3) p(2,3) b carriedD [OF Cons.prems(4), of clk req rest]
    by (cases "AuctionID req = a") auto
  moreover have "plain_run s1 rest" using Cons.prems(2) p(5) by (simp add: plain_run_def)
  ultimately obtain s' dbs' rs where "place_all C R rest s1 dbs1 = Some (s', dbs', rs)"
    "length rs = length rest" "idemTTL s' = idemTTL s1" "store_ready n s' dbs'" "I [] (auction_in s' dbs' a)"
    using Cons.IH [OF p(4)] Cons.prems(4) p(5) by auto
  with p(1,5) b show ?case by auto
qed


lemma create_ready:
  fixes req s dbs n
  defines "a \<equiv> NewAuctionID req"
  assumes rdy: "store_ready n s dbs" and n: "int n < 10 ^ 14"
    and exact: "exact14 (sint (OpeningPriceCents req))" "exact14 (sint (UnixMilli (EndAt req)))"
  shows "\<exists>dbs'. RedisStore_CreateAuction C R s req dbs = Some (dbs', None) \<and>
    auction_in s dbs' a = create_spec req (auction_in s dbs a) \<and>
    (\<forall>b. b \<noteq> a \<longrightarrow> auction_in s dbs' b = auction_in s dbs b) \<and> store_ready n s dbs' \<and>
    map ttl dbs' = map ttl dbs"
proof -
  have r: "store_ok valid is_hash is_stream s dbs" "\<forall>t. \<not> BreakerOpen t s"
    "\<And>b. good_state n (av_state (store_view hash stream s dbs b))"
    using rdy by (auto simp: ready_def)
  obtain dbs' where d: "RedisStore_CreateAuction C R s req dbs = Some (dbs', None)"
    "auction_in s dbs' a = create_spec req (auction_in s dbs a)"
    "good_state n (av_state (store_view hash stream s dbs' a))"
    "\<forall>b. b \<noteq> a \<longrightarrow> store_view hash stream s dbs' b = store_view hash stream s dbs b"
    "store_ok valid is_hash is_stream s dbs'" "map ttl dbs' = map ttl dbs"
    using CreateAuction_refines [OF r(1) exact] n unfolding a_def by blast
  have "good_state n (av_state (store_view hash stream s dbs' b))" for b
    using d(3,4) r(3) by (cases "b = a") simp_all
  then have "store_ready n s dbs'" using d(5) r(2) by (simp add: ready_def)
  with d(1,2,4,6) show ?thesis by (intro exI [of _ dbs']) (simp add: auction_at_def)
qed

lemma highest_bid_run:
  fixes req s dbs bids
  defines "a \<equiv> NewAuctionID req" and "p0 \<equiv> sint (OpeningPriceCents req)"
  assumes "store_ready (length bids) s dbs" and "int (length bids) < 10 ^ 14"
    and "exact14 p0" and "exact14 (sint (UnixMilli (EndAt req)))" and "plain_run s bids"
    and "fresh_bids (sint (UnixMilli (EndAt req))) (a_results (auction_in s dbs a)) (bids_on a bids)"
  shows "\<exists>dbs1 s' dbs' rs r. RedisStore_CreateAuction C R s req dbs = Some (dbs1, None) \<and>
    place_all C R bids s dbs1 = Some (s', dbs', rs) \<and> a_rec (auction_in s' dbs' a) = Some r \<and>
    a_price r = top_price p0 (bids_on a bids) \<and> a_winner r = top_bidder p0 [] (bids_on a bids)"
proof -
  obtain dbs1 where c: "RedisStore_CreateAuction C R s req dbs = Some (dbs1, None)"
    "auction_in s dbs1 a = create_spec req (auction_in s dbs a)" "store_ready (length bids + 0) s dbs1"
    using create_ready [OF assms(3,4) assms(5) [unfolded p0_def] assms(6)] by (auto simp: a_def)
  have "leads_to a (top_price p0 (bids_on a bids)) (top_bidder p0 [] (bids_on a bids)) bids (auction_in s dbs1 a)"
    using assms(8) by (simp add: c(2) leads_to_def create_spec_def p0_def)
  from run_invariant [OF c(3) assms(7) this carried_leads] c(1) show ?thesis
    by (auto simp: leads_to_def bids_on_def top_price_def top_bidder_def split: option.splits)
qed

text \<open>Time passes on every server: remembered results go when their window is over.\<close>

lemma tick_key:
  assumes "valid db" and "0 \<le> d"
  shows "is_hash db k \<Longrightarrow> is_hash (tick d db) k" and "is_stream db k \<Longrightarrow> is_stream (tick d db) k"
  using tick_keeps [OF assms, of k] tick_expires [OF assms(1), of k _ d]
  by (cases "ttl db k"; force)+

end

section \<open>A store to evaluate on\<close>

definition demo_config :: Config where
  "demo_config =
     \<lparr>GRPCAddress = '':8081'', HTTPAddress = '':8080'', RedisAddresses = [''r1:6379'', ''r2:6379''], RedisPassword = [],
      RedisDB = 0, RedisPoolSize = 64, BidIdempotencyTTL = 600 * Second, DefaultAuctionDuration = 60 * Second,
      StreamReadCount = 256, MaxInFlightBids = 100, MaxWSQueueDepth = 16, BreakerFailureThreshold = 5,
      BreakerOpenFor = 2 * Second, LogLevel = LevelInfo, GracefulShutdownTimeout = 10 * Second, GOGC = 100,
      GoMemLimitBytes = 0\<rparr>"

definition demo_store :: RedisStore where
  "demo_store =
     NewRedisStore \<lparr>clients = [client_of (client_options ''r1:6379'' [] 0 64), client_of (client_options ''r2:6379'' [] 0 64)],
                     closed = False\<rparr>
       demo_config"

definition demo_clock :: "int \<Rightarrow> bid_clock" where
  "demo_clock ms = \<lparr>at_allow = ms * 10 ^ 6, at_run = ms * 10 ^ 6, at_fail = ms * 10 ^ 6\<rparr>"

definition demo_auction :: CreateAuctionRequest where
  "demo_auction = \<lparr>NewAuctionID = ''a1'', OpeningPriceCents = 100, EndAt = 5000 * 10 ^ 6\<rparr>"

definition demo_bid :: "string \<Rightarrow> string \<Rightarrow> int64 \<Rightarrow> PlaceBidRequest" where
  "demo_bid bid user amount = \<lparr>AuctionID = ''a1'', BidID = bid, UserID = user, AmountCents = amount\<rparr>"

abbreviation mem_ready :: "nat \<Rightarrow> RedisStore \<Rightarrow> mem_db list \<Rightarrow> bool" where
  "mem_ready \<equiv> ready mem_wf mem_hash mem_stream mem_is_hash mem_is_stream"

abbreviation demo_dbs :: "mem_db list" where
  "demo_dbs \<equiv> [mem_empty, mem_empty]"

lemma lua_tonumber_zero [simp]: "lua_tonumber ''0'' = Some 0"
  by code_simp

lemma demo_view: "store_view mem_hash mem_stream demo_store demo_dbs a =
  \<lparr>av_state = Map.empty, av_idem = Map.empty, av_events = []\<rparr>"
proof -
  have "router_ok (router demo_store)" by (simp add: router_ok_def demo_store_def demo_config_def NewRedisStore_def)
  then obtain i where i: "ForAuction (router demo_store) a = Some i" "i < length (clients (router demo_store))"
    using ForAuction_total by blast
  then have "i < 2" by (simp add: demo_store_def demo_config_def NewRedisStore_def)
  then have "demo_dbs ! i = mem_empty" by (auto simp: less_Suc_eq numeral_2_eq_2)
  with i show ?thesis
    by (simp add: store_view_def view_of_def mem_hash_def mem_stream_def mem_live_def mem_empty_def fun_eq_iff)
qed

lemma demo_ready: "int n < 10 ^ 14 \<Longrightarrow> mem_ready n demo_store demo_dbs"
  unfolding ready_def demo_view
  by (simp add: store_ok_def router_ok_def demo_store_def demo_config_def NewRedisStore_def mem_wf_empty [unfolded mem_empty_def] kinds_ok_def
      mem_is_hash_def mem_is_stream_def mem_live_def mem_empty_def BreakerOpen_def isOpen_def
      newCircuitBreaker_def good_state_def exact_field_def num_field_def or_zero_def or_empty_def exact14_def)

lemma demo_ttl [simp]: "sint (Milliseconds (idemTTL demo_store)) = 600000"
  by (simp add: demo_store_def demo_config_def NewRedisStore_def go_durations Milliseconds_def)

lemma demo_now [simp]: "0 \<le> ms \<Longrightarrow> ms < 10 ^ 14 \<Longrightarrow> sint (UnixMilli (at_run (demo_clock ms))) = ms"
  by (simp add: demo_clock_def UnixMilli_def sint_int64)

section \<open>Properties\<close>

text \<open>
  (C1) A bid placed through \<open>RedisStore.PlaceBid\<close> on a working server is exactly the bid of the
  specification \<open>place_spec\<close>: the same result and error, the same new state of its auction on every
  branch (duplicate, not found, closed, ended, too low, accepted). No other auction changes, on
  whichever server it lives, and the store stays in order with its breaker closed.
\<close>

theorem place_bid_refines_spec:
  fixes s clk req dbs
  defines "ttl0 \<equiv> sint (Milliseconds (idemTTL s))" and "now \<equiv> sint (UnixMilli (at_run clk))"
    and "a \<equiv> AuctionID req"
  assumes "redis_backend R valid hash stream ttl is_hash is_stream before tick C"
    and "store_ok valid is_hash is_stream s dbs" and "\<not> BreakerOpen (at_allow clk) s"
    and "good_state (Suc n) (av_state (store_view hash stream s dbs a))"
    and "plain_bid ttl0 now req"
  shows "\<exists>s' dbs' eid.
    RedisStore_PlaceBid C R clk s req dbs =
      Some (s', dbs', snd (place_spec ttl0 now req eid (auction_at hash stream s dbs a))) \<and>
    auction_at hash stream s' dbs' a = fst (place_spec ttl0 now req eid (auction_at hash stream s dbs a)) \<and>
    (\<forall>b. b \<noteq> a \<longrightarrow> store_view hash stream s' dbs' b = store_view hash stream s dbs b) \<and>
    store_ok valid is_hash is_stream s' dbs' \<and> (\<forall>t. \<not> BreakerOpen t s')"
  using redis_backend.PlaceBid_refines [OF assms(4-6) assms(7) [unfolded a_def] assms(8) [unfolded ttl0_def now_def]]
  unfolding ttl0_def now_def a_def by blast

theorem place_bid_refines_spec_witness:
  "\<exists>s' dbs' eid.
    RedisStore_PlaceBid direct_driver mem_redis (demo_clock 1000) demo_store (demo_bid ''b1'' ''ann'' 150) demo_dbs =
      Some (s', dbs', snd (place_spec 600000 1000 (demo_bid ''b1'' ''ann'' 150) eid
        (auction_at mem_hash mem_stream demo_store demo_dbs ''a1''))) \<and> (\<forall>t. \<not> BreakerOpen t s')"
proof -
  have rdy: "mem_ready 1 demo_store demo_dbs" by (rule demo_ready) simp
  show ?thesis
    using place_bid_refines_spec [OF memb.redis_backend_axioms, of demo_store demo_dbs "demo_clock 1000" 0
        "demo_bid ''b1'' ''ann'' 150"] rdy
    by (force simp: ready_def demo_bid_def plain_bid_def exact14_def)
qed

text \<open>
  (C4) After an auction is created, any sequence of bids on any auctions (retries, late and low bids
  included) is processed to its end and leaves it consistent with its event stream: the events
  since its creation carry the versions 1, 2, 3, and so on without a gap, their amounts rise
  strictly from above the opening price, the version is their number, and the current price and
  winner are those of the last one.
\<close>

theorem auction_matches_its_events:
  fixes req s dbs bids
  defines "a \<equiv> NewAuctionID req"
  assumes "redis_backend R valid hash stream ttl is_hash is_stream before tick C"
    and "ready valid hash stream is_hash is_stream (length bids) s dbs" and "int (length bids) < 10 ^ 14"
    and "exact14 (sint (OpeningPriceCents req))" and "exact14 (sint (UnixMilli (EndAt req)))"
    and "plain_run s bids"
  shows "\<exists>dbs1 s' dbs' rs. RedisStore_CreateAuction C R s req dbs = Some (dbs1, None) \<and>
    place_all C R bids s dbs1 = Some (s', dbs', rs) \<and> length rs = length bids \<and>
    log_inv (sint (OpeningPriceCents req)) (length (stream (dbs ! the (ForAuction (router s) a)) (eventsKey a)))
      (auction_at hash stream s' dbs' a)"
proof -
  let ?st = "auction_at hash stream s dbs a"
  obtain dbs1 where c: "RedisStore_CreateAuction C R s req dbs = Some (dbs1, None)"
    "auction_at hash stream s dbs1 a = create_spec req ?st"
    "ready valid hash stream is_hash is_stream (length bids + 0) s dbs1"
    using redis_backend.create_ready [OF assms(2-6)] by (auto simp: a_def)
  have k: "length (a_log ?st) = length (stream (dbs ! the (ForAuction (router s) a)) (eventsKey a))"
    by (simp add: auction_at_def abs_auction_def store_view_def)
  have "log_inv (sint (OpeningPriceCents req)) (length (a_log ?st)) (auction_at hash stream s dbs1 a)"
    by (simp add: c(2) log_inv_create)
  from redis_backend.run_invariant [OF assms(2) c(3) assms(7) this carried_log] c(1) k show ?thesis by auto
qed

theorem auction_matches_its_events_witness:
  "\<exists>dbs1 s' dbs' rs. RedisStore_CreateAuction direct_driver mem_redis demo_store demo_auction demo_dbs = Some (dbs1, None) \<and>
    place_all direct_driver mem_redis
      [(demo_clock 1000, demo_bid ''b1'' ''ann'' 150), (demo_clock 1001, demo_bid ''b2'' ''bob'' 120)] demo_store dbs1 =
      Some (s', dbs', rs) \<and> length rs = 2 \<and> log_inv 100 0 (auction_at mem_hash mem_stream s' dbs' ''a1'')"
proof -
  let ?bids = "[(demo_clock 1000, demo_bid ''b1'' ''ann'' 150), (demo_clock 1001, demo_bid ''b2'' ''bob'' 120)]"
  have rdy: "mem_ready (length ?bids) demo_store demo_dbs" by (rule demo_ready) simp
  have run: "plain_run demo_store ?bids" by (simp add: plain_run_def plain_bid_def demo_bid_def exact14_def)
  have k: "length (mem_stream (demo_dbs ! the (ForAuction (router demo_store) ''a1'')) (eventsKey ''a1'')) = 0"
    using demo_view [of "''a1''"] by (simp add: store_view_def view_of_def)
  show ?thesis
    using auction_matches_its_events [OF memb.redis_backend_axioms rdy _ _ _ run, of demo_auction] k
    by (simp add: demo_auction_def exact14_def UnixMilli_def numeral_2_eq_2 del: place_all.simps)
qed

text \<open>
  (C5) The highest bid wins, whatever the order of the bids: when bids with distinct fresh
  identifiers reach an auction before its end, they are all processed, the final price is the
  maximum of the opening price and their amounts, and the winner is the bidder of the first bid that
  offered it (nobody if no bid beats the opening price). Bids on other auctions may be mixed in.
\<close>

theorem highest_bid_wins:
  fixes req s dbs bids
  defines "a \<equiv> NewAuctionID req" and "p0 \<equiv> sint (OpeningPriceCents req)"
  assumes "redis_backend R valid hash stream ttl is_hash is_stream before tick C"
    and "ready valid hash stream is_hash is_stream (length bids) s dbs" and "int (length bids) < 10 ^ 14"
    and "exact14 p0" and "exact14 (sint (UnixMilli (EndAt req)))"
    and "plain_run s bids"
    and "fresh_bids (sint (UnixMilli (EndAt req))) (a_results (auction_at hash stream s dbs a)) (bids_on a bids)"
  shows "\<exists>dbs1 s' dbs' rs r. RedisStore_CreateAuction C R s req dbs = Some (dbs1, None) \<and>
    place_all C R bids s dbs1 = Some (s', dbs', rs) \<and> a_rec (auction_at hash stream s' dbs' a) = Some r \<and>
    a_price r = top_price p0 (bids_on a bids) \<and> a_winner r = top_bidder p0 [] (bids_on a bids)"
  using redis_backend.highest_bid_run [OF assms(3-5) assms(6) [unfolded p0_def] assms(7-8) assms(9) [unfolded a_def]]
  unfolding a_def p0_def .

theorem highest_bid_wins_witness:
  "\<exists>dbs1 s' dbs' rs r. RedisStore_CreateAuction direct_driver mem_redis demo_store demo_auction demo_dbs = Some (dbs1, None) \<and>
    place_all direct_driver mem_redis
      [(demo_clock 1000, demo_bid ''b1'' ''ann'' 150), (demo_clock 1001, demo_bid ''b2'' ''bob'' 180),
       (demo_clock 900, demo_bid ''b3'' ''cyd'' 160)] demo_store dbs1 = Some (s', dbs', rs) \<and>
    a_rec (auction_at mem_hash mem_stream s' dbs' ''a1'') = Some r \<and> a_price r = 180 \<and> a_winner r = ''bob''"
proof -
  let ?bids = "[(demo_clock 1000, demo_bid ''b1'' ''ann'' 150), (demo_clock 1001, demo_bid ''b2'' ''bob'' 180),
       (demo_clock 900, demo_bid ''b3'' ''cyd'' 160)]"
  have rdy: "mem_ready (length ?bids) demo_store demo_dbs" by (rule demo_ready) simp
  have run: "plain_run demo_store ?bids" by (simp add: plain_run_def plain_bid_def demo_bid_def exact14_def)
  have on: "bids_on ''a1'' ?bids = ?bids" by (simp add: bids_on_def demo_bid_def)
  have res: "a_results (auction_at mem_hash mem_stream demo_store demo_dbs ''a1'') = Map.empty"
    by (simp add: auction_at_def abs_auction_def demo_view fun_eq_iff)
  have e: "NewAuctionID demo_auction = ''a1''" "sint (OpeningPriceCents demo_auction) = 100"
    "sint (UnixMilli (EndAt demo_auction)) = 5000"
    by (simp_all add: demo_auction_def UnixMilli_def)
  have amt: "bid_amount (demo_clock 1000, demo_bid ''b1'' ''ann'' 150) = 150"
    "bid_amount (demo_clock 1001, demo_bid ''b2'' ''bob'' 180) = 180"
    "bid_amount (demo_clock 900, demo_bid ''b3'' ''cyd'' 160) = 160"
    by (simp_all add: bid_amount_def demo_bid_def)
  have fr: "fresh_bids 5000 Map.empty ?bids"
    by (simp add: fresh_bids_def demo_bid_def)
  have top: "top_price 100 ?bids = 180" "top_bidder 100 [] ?bids = ''bob''"
    unfolding top_bidder_def by (simp_all add: amt top_price_def) (simp add: demo_bid_def)
  show ?thesis
    using highest_bid_wins [OF memb.redis_backend_axioms rdy _ _ _ run, of demo_auction, unfolded e on res top] fr
    by (auto simp: exact14_def)
qed

end
