(* ===== verification/Retries.thy ===== *)
theory Retries
  imports AuctionProps
begin

text \<open>
  Retries and time: a bid identifier is answered once, a closed auction stays closed, and what a failed
  call or an open breaker leaves behind.
\<close>

section \<open>Retries on the specification\<close>

lemma place_spec_remembers:
  assumes "a_rec st \<noteq> None" and "0 < ttl"
  shows "\<exists>st' r r0. place_spec ttl now req eid st = (st', r, None) \<and>
    a_results st' (BidID req) = Some r0 \<and> r0\<lparr>Duplicate := True\<rparr> = r\<lparr>Duplicate := True\<rparr>"
  using assms by (auto simp: place_spec_def remember_def Let_def mk_result_def split: option.splits)

lemma place_spec_retry:
  "a_results st (BidID req) = Some r \<Longrightarrow> place_spec ttl now req eid st = (st, r\<lparr>Duplicate := True\<rparr>, None)"
  by (simp add: place_spec_def)

lemma place_spec_fresh_None:
  "a_rec st \<noteq> None \<Longrightarrow> snd (snd (place_spec ttl now req eid st)) = None"
  by (auto simp: place_spec_def Let_def split: option.splits)

lemma place_spec_ended:
  assumes "a_rec st = Some r" "a_results st (BidID req) = None" "a_open r" "a_end r \<le> now"
  shows "a_rec (fst (place_spec ttl now req eid st)) = Some (r\<lparr>a_open := False\<rparr>) \<and>
    a_log (fst (place_spec ttl now req eid st)) = a_log st"
  using assms by (simp add: place_spec_def remember_def Let_def)

lemma abs_state_exists: "abs_state st \<noteq> None \<longleftrightarrow> st ''status'' \<noteq> None"
  by (simp add: abs_state_def split: option.split)

lemma create_plain_witness:
  assumes "int n < 10 ^ 14"
  obtains dbs where
    "RedisStore_CreateAuction direct_driver mem_redis demo_store demo_auction demo_dbs = Some (dbs, None)"
    "mem_ready n demo_store dbs"
    "auction_at mem_hash mem_stream demo_store dbs ''a1'' =
       \<lparr>a_rec = Some \<lparr>a_open = True, a_end = 5000, a_price = 100, a_winner = [], a_version = 0\<rparr>,
        a_results = Map.empty, a_log = []\<rparr>"
    "map mem_ttl dbs = map mem_ttl demo_dbs"
proof -
  have "auction_at mem_hash mem_stream demo_store demo_dbs ''a1'' =
      \<lparr>a_rec = None, a_results = Map.empty, a_log = []\<rparr>"
    by (simp add: auction_at_def abs_auction_def demo_view abs_state_def fun_eq_iff)
  with memb.create_ready [OF demo_ready [OF assms] assms, of demo_auction] that show ?thesis
    by (auto simp: demo_auction_def exact14_def UnixMilli_def create_spec_def)
qed

section \<open>Properties\<close>

text \<open>
  (C7) A bid is processed at most once: when a bid on an existing auction is sent again under the same
  bid identifier, with any bids from anybody in between, the retry is answered with the result of
  the first attempt, marked as a duplicate, whatever amount or user it now carries, and changes
  nothing of the auction. The servers keep remembered results (no expiry in between).
\<close>

theorem retry_returns_first_result:
  fixes s req dbs
  defines "ttl0 \<equiv> sint (Milliseconds (idemTTL s))" and "a \<equiv> AuctionID req"
  assumes backend: "redis_backend R valid hash stream ttl is_hash is_stream before tick C"
    and rdy: "ready valid hash stream is_hash is_stream (length bids + 2) s dbs" and "0 < ttl0"
    and "a_rec (auction_at hash stream s dbs a) \<noteq> None"
    and "plain_bid ttl0 (sint (UnixMilli (at_run clk))) req" and run: "plain_run s bids"
    and "plain_bid ttl0 (sint (UnixMilli (at_run clk'))) req'"
    and same: "AuctionID req' = a" "BidID req' = BidID req"
  shows "\<exists>s1 dbs1 r s2 dbs2 rs s3 dbs3.
    RedisStore_PlaceBid C R clk s req dbs = Some (s1, dbs1, r, None) \<and>
    place_all C R bids s1 dbs1 = Some (s2, dbs2, rs) \<and>
    RedisStore_PlaceBid C R clk' s2 req' dbs2 = Some (s3, dbs3, r\<lparr>Duplicate := True\<rparr>, None) \<and>
    auction_at hash stream s3 dbs3 a = auction_at hash stream s2 dbs2 a"
proof -
  let ?rdy = "ready valid hash stream is_hash is_stream" and ?at = "auction_at hash stream"
  let ?place = "place_spec ttl0"
  have "?rdy (Suc (length bids + 1)) s dbs" using rdy by simp
  then obtain s1 dbs1 eid where p1:
    "RedisStore_PlaceBid C R clk s req dbs =
       Some (s1, dbs1, snd (?place (sint (UnixMilli (at_run clk))) req eid (?at s dbs a)))"
    "?at s1 dbs1 a = fst (?place (sint (UnixMilli (at_run clk))) req eid (?at s dbs a))"
    "?rdy (length bids + 1) s1 dbs1" "idemTTL s1 = idemTTL s"
    using redis_backend.ready_step [OF backend _ assms(7) [unfolded ttl0_def]] unfolding a_def ttl0_def by metis
  obtain st1 r r0 where spec: "?place (sint (UnixMilli (at_run clk))) req eid (?at s dbs a) = (st1, r, None)"
    "a_results st1 (BidID req) = Some r0" "r0\<lparr>Duplicate := True\<rparr> = r\<lparr>Duplicate := True\<rparr>"
    using place_spec_remembers [OF assms(6,5)] by blast
  have ttl1: "sint (Milliseconds (idemTTL s1)) = ttl0" using p1(4) by (simp add: ttl0_def)
  have run1: "plain_run s1 bids" using run p1(4) by (simp add: plain_run_def)
  have c: "carried (sint (Milliseconds (idemTTL s1))) a (\<lambda>_ st. a_results st (BidID req) = Some r0)"
    unfolding ttl1 using assms(5) by (rule carried_result)
  obtain s2 dbs2 rs where p2: "place_all C R bids s1 dbs1 = Some (s2, dbs2, rs)" "idemTTL s2 = idemTTL s"
    "?rdy 1 s2 dbs2" "a_results (?at s2 dbs2 a) (BidID req) = Some r0"
    using redis_backend.run_invariant [OF backend p1(3) run1 _ c] spec p1(2,4) by auto
  have rdy2: "?rdy (Suc 0) s2 dbs2" using p2(3) by simp
  have plain2: "plain_bid (sint (Milliseconds (idemTTL s2))) (sint (UnixMilli (at_run clk'))) req'"
    using assms(9) p2(2) by (simp add: ttl0_def)
  obtain s3 dbs3 eid' where p3: "RedisStore_PlaceBid C R clk' s2 req' dbs2 =
       Some (s3, dbs3, snd (?place (sint (UnixMilli (at_run clk'))) req' eid' (?at s2 dbs2 a)))"
    "?at s3 dbs3 a = fst (?place (sint (UnixMilli (at_run clk'))) req' eid' (?at s2 dbs2 a))"
    using redis_backend.ready_step [OF backend rdy2 plain2] p2(2) unfolding same(1) ttl0_def by metis
  have "?place (sint (UnixMilli (at_run clk'))) req' eid' (?at s2 dbs2 a) = (?at s2 dbs2 a, r\<lparr>Duplicate := True\<rparr>, None)"
    using place_spec_retry p2(4) same(2) spec(3) by metis
  with p1(1) p2(1) p3 spec(1) show ?thesis by auto
qed

theorem retry_returns_first_result_witness:
  "\<exists>dbs s1 dbs1 r s2 dbs2 rs s3 dbs3.
    RedisStore_CreateAuction direct_driver mem_redis demo_store demo_auction demo_dbs = Some (dbs, None) \<and>
    RedisStore_PlaceBid direct_driver mem_redis (demo_clock 1000) demo_store (demo_bid ''b1'' ''ann'' 150) dbs =
      Some (s1, dbs1, r, None) \<and>
    place_all direct_driver mem_redis [(demo_clock 1001, demo_bid ''b2'' ''bob'' 170)] s1 dbs1 = Some (s2, dbs2, rs) \<and>
    RedisStore_PlaceBid direct_driver mem_redis (demo_clock 1002) s2 (demo_bid ''b1'' ''ann'' 200) dbs2 =
      Some (s3, dbs3, r\<lparr>Duplicate := True\<rparr>, None)"
proof -
  let ?bids = "[(demo_clock 1001, demo_bid ''b2'' ''bob'' 170)]"
  obtain dbs where c: "RedisStore_CreateAuction direct_driver mem_redis demo_store demo_auction demo_dbs = Some (dbs, None)"
    "mem_ready (length ?bids + 2) demo_store dbs"
    "auction_at mem_hash mem_stream demo_store dbs ''a1'' =
       \<lparr>a_rec = Some \<lparr>a_open = True, a_end = 5000, a_price = 100, a_winner = [], a_version = 0\<rparr>,
        a_results = Map.empty, a_log = []\<rparr>" "map mem_ttl dbs = map mem_ttl demo_dbs"
    by (rule create_plain_witness [of "length ?bids + 2"]) simp_all
  have run: "plain_run demo_store ?bids" by (simp add: plain_run_def plain_bid_def demo_bid_def exact14_def)
  have h: "sint (Milliseconds (idemTTL demo_store)) > 0"
    "a_rec (auction_at mem_hash mem_stream demo_store dbs (AuctionID (demo_bid ''b1'' ''ann'' 150))) \<noteq> None"
    "plain_bid (sint (Milliseconds (idemTTL demo_store))) (sint (UnixMilli (at_run (demo_clock 1000)))) (demo_bid ''b1'' ''ann'' 150)"
    "plain_bid (sint (Milliseconds (idemTTL demo_store))) (sint (UnixMilli (at_run (demo_clock 1002)))) (demo_bid ''b1'' ''ann'' 200)"
    using c(3) by (simp_all add: demo_bid_def plain_bid_def exact14_def)
  show ?thesis
    using retry_returns_first_result [OF memb.redis_backend_axioms c(2) h(1-3) run h(4)] c(1)
    by (simp add: demo_bid_def del: place_all.simps) blast
qed

text \<open>
  (C8) A finished auction stays finished: the first bid at or after the end closes the auction, and
  whatever is bid afterwards, even by servers whose clocks lie before the end, the price, the
  winner, the version and the event stream stay as they were when the auction ended.
\<close>

theorem ended_auction_is_final:
  fixes s req dbs clk
  defines "ttl0 \<equiv> sint (Milliseconds (idemTTL s))" and "now \<equiv> sint (UnixMilli (at_run clk))"
    and "a \<equiv> AuctionID req"
  assumes backend: "redis_backend R valid hash stream ttl is_hash is_stream before tick C"
    and rdy: "ready valid hash stream is_hash is_stream (Suc (length bids)) s dbs"
    and st: "a_rec (auction_at hash stream s dbs a) = Some r"
      "a_results (auction_at hash stream s dbs a) (BidID req) = None"
    and late: "a_open r" "a_end r \<le> now"
    and plain: "plain_bid ttl0 now req" and run: "plain_run s bids"
  shows "\<exists>s1 dbs1 res s2 dbs2 rs.
    RedisStore_PlaceBid C R clk s req dbs = Some (s1, dbs1, res, None) \<and>
    \<not> Accepted res \<and> Reason res = ''auction_ended'' \<and>
    place_all C R bids s1 dbs1 = Some (s2, dbs2, rs) \<and>
    a_rec (auction_at hash stream s2 dbs2 a) = Some (r\<lparr>a_open := False\<rparr>) \<and>
    a_log (auction_at hash stream s2 dbs2 a) = a_log (auction_at hash stream s dbs a)"
proof -
  let ?at = "auction_at hash stream"
  obtain s1 dbs1 eid where p1:
    "RedisStore_PlaceBid C R clk s req dbs = Some (s1, dbs1, snd (place_spec ttl0 now req eid (?at s dbs a)))"
    "?at s1 dbs1 a = fst (place_spec ttl0 now req eid (?at s dbs a))"
    "ready valid hash stream is_hash is_stream (length bids + 0) s1 dbs1" "idemTTL s1 = idemTTL s"
    using redis_backend.ready_step [OF backend rdy plain [unfolded ttl0_def now_def]]
    unfolding a_def ttl0_def now_def add_0_right by metis
  have res: "snd (place_spec ttl0 now req eid (?at s dbs a)) =
      (mk_result False ''auction_ended'' (a_price r) (a_winner r) (a_version r) [] now, None)"
    using st late by (simp add: place_spec_def Let_def)
  have run1: "plain_run s1 bids" using run p1(4) by (simp add: plain_run_def)
  have c: "carried (sint (Milliseconds (idemTTL s1))) a
      (\<lambda>_ st. a_rec st = Some (r\<lparr>a_open := False\<rparr>) \<and> a_log st = a_log (?at s dbs a))"
    by (rule carried_closed) simp
  from redis_backend.run_invariant [OF backend p1(3) run1 _ c] p1(1,2) res place_spec_ended [OF st late]
  show ?thesis by (auto simp: mk_result_def)
qed

theorem ended_auction_is_final_witness:
  "\<exists>dbs s1 dbs1 res s2 dbs2 rs r.
    RedisStore_CreateAuction direct_driver mem_redis demo_store demo_auction demo_dbs = Some (dbs, None) \<and>
    RedisStore_PlaceBid direct_driver mem_redis (demo_clock 5000) demo_store (demo_bid ''b1'' ''ann'' 150) dbs =
      Some (s1, dbs1, res, None) \<and> Reason res = ''auction_ended'' \<and>
    place_all direct_driver mem_redis [(demo_clock 4000, demo_bid ''b2'' ''bob'' 170)] s1 dbs1 = Some (s2, dbs2, rs) \<and>
    a_rec (auction_at mem_hash mem_stream s2 dbs2 ''a1'') = Some r \<and> a_price r = 100"
proof -
  let ?bids = "[(demo_clock 4000, demo_bid ''b2'' ''bob'' 170)]" and ?req = "demo_bid ''b1'' ''ann'' 150"
  obtain dbs where c: "RedisStore_CreateAuction direct_driver mem_redis demo_store demo_auction demo_dbs = Some (dbs, None)"
    "mem_ready (Suc (length ?bids)) demo_store dbs"
    "auction_at mem_hash mem_stream demo_store dbs ''a1'' =
       \<lparr>a_rec = Some \<lparr>a_open = True, a_end = 5000, a_price = 100, a_winner = [], a_version = 0\<rparr>,
        a_results = Map.empty, a_log = []\<rparr>" "map mem_ttl dbs = map mem_ttl demo_dbs"
    by (rule create_plain_witness [of "Suc (length ?bids)"]) simp_all
  let ?r = "\<lparr>a_open = True, a_end = 5000, a_price = 100, a_winner = [], a_version = 0\<rparr>"
  have run: "plain_run demo_store ?bids" by (simp add: plain_run_def plain_bid_def demo_bid_def exact14_def)
  have h: "a_rec (auction_at mem_hash mem_stream demo_store dbs (AuctionID ?req)) = Some ?r"
    "a_results (auction_at mem_hash mem_stream demo_store dbs (AuctionID ?req)) (BidID ?req) = None"
    "a_open ?r" "a_end ?r \<le> sint (UnixMilli (at_run (demo_clock 5000)))"
    "plain_bid (sint (Milliseconds (idemTTL demo_store))) (sint (UnixMilli (at_run (demo_clock 5000)))) ?req"
    using c(3) by (simp_all add: demo_bid_def plain_bid_def exact14_def)
  show ?thesis
    using ended_auction_is_final [OF memb.redis_backend_axioms c(2) h run] c(1)
    by (simp add: demo_bid_def del: place_all.simps) (metis auction.select_convs(3))
qed

text \<open>
  With an idempotency window below one millisecond (zero and negative values are accepted by the
  configuration) nothing is remembered: a bid that was accepted and is sent again in time is
  processed a second time and answered as too low, not as a duplicate.
\<close>

theorem retry_without_window_is_processed_again:
  fixes s req dbs clk clk'
  defines "ttl0 \<equiv> sint (Milliseconds (idemTTL s))" and "a \<equiv> AuctionID req"
  assumes backend: "redis_backend R valid hash stream ttl is_hash is_stream before tick C"
    and rdy: "ready valid hash stream is_hash is_stream 2 s dbs"
    and st: "a_rec (auction_at hash stream s dbs a) = Some r"
      "a_results (auction_at hash stream s dbs a) (BidID req) = None"
    and bid: "a_open r" "a_price r < sint (AmountCents req)" "sint (UnixMilli (at_run clk)) < a_end r"
      "sint (UnixMilli (at_run clk')) < a_end r"
    and plain: "plain_bid ttl0 (sint (UnixMilli (at_run clk))) req"
      "plain_bid ttl0 (sint (UnixMilli (at_run clk'))) req"
    and none: "ttl0 \<le> 0"
  shows "\<exists>s1 dbs1 res s2 dbs2 res2.
    RedisStore_PlaceBid C R clk s req dbs = Some (s1, dbs1, res, None) \<and> Accepted res \<and>
    RedisStore_PlaceBid C R clk' s1 req dbs1 = Some (s2, dbs2, res2, None) \<and>
    \<not> Accepted res2 \<and> \<not> Duplicate res2 \<and> Reason res2 = ''bid_too_low''"
proof -
  let ?at = "auction_at hash stream" and ?rdy = "ready valid hash stream is_hash is_stream"
  have "?rdy (Suc (Suc 0)) s dbs" using rdy by (simp add: numeral_2_eq_2)
  then obtain s1 dbs1 eid where p1:
    "RedisStore_PlaceBid C R clk s req dbs =
       Some (s1, dbs1, snd (place_spec ttl0 (sint (UnixMilli (at_run clk))) req eid (?at s dbs a)))"
    "?at s1 dbs1 a = fst (place_spec ttl0 (sint (UnixMilli (at_run clk))) req eid (?at s dbs a))"
    "?rdy (Suc 0) s1 dbs1" "idemTTL s1 = idemTTL s"
    using redis_backend.ready_step [OF backend _ plain(1) [unfolded ttl0_def]] unfolding a_def ttl0_def by metis
  have "plain_bid (sint (Milliseconds (idemTTL s1))) (sint (UnixMilli (at_run clk'))) req"
    using plain(2) p1(4) by (simp add: ttl0_def)
  then obtain s2 dbs2 eid' where p2:
    "RedisStore_PlaceBid C R clk' s1 req dbs1 =
       Some (s2, dbs2, snd (place_spec ttl0 (sint (UnixMilli (at_run clk'))) req eid' (?at s1 dbs1 a)))"
    using redis_backend.ready_step [OF backend p1(3)] p1(4) unfolding a_def ttl0_def by metis
  from p1(1,2) p2 st bid none show ?thesis
    by (simp add: place_spec_def remember_def Let_def mk_result_def)
qed

theorem retry_without_window_is_processed_again_witness:
  "\<exists>dbs s1 dbs1 res s2 dbs2 res2.
    RedisStore_CreateAuction direct_driver mem_redis demo_store demo_auction demo_dbs = Some (dbs, None) \<and>
    RedisStore_PlaceBid direct_driver mem_redis (demo_clock 1000) (demo_store\<lparr>idemTTL := 0\<rparr>)
      (demo_bid ''b1'' ''ann'' 150) dbs = Some (s1, dbs1, res, None) \<and> Accepted res \<and>
    RedisStore_PlaceBid direct_driver mem_redis (demo_clock 1002) s1 (demo_bid ''b1'' ''ann'' 150) dbs1 =
      Some (s2, dbs2, res2, None) \<and> \<not> Duplicate res2 \<and> Reason res2 = ''bid_too_low''"
proof -
  let ?req = "demo_bid ''b1'' ''ann'' 150" and ?s = "demo_store\<lparr>idemTTL := 0\<rparr>"
  let ?r = "\<lparr>a_open = True, a_end = 5000, a_price = 100, a_winner = [], a_version = 0\<rparr>"
  obtain dbs where c: "RedisStore_CreateAuction direct_driver mem_redis demo_store demo_auction demo_dbs = Some (dbs, None)"
    "mem_ready 2 demo_store dbs"
    "auction_at mem_hash mem_stream demo_store dbs ''a1'' = \<lparr>a_rec = Some ?r, a_results = Map.empty, a_log = []\<rparr>"
    "map mem_ttl dbs = map mem_ttl demo_dbs"
    by (rule create_plain_witness [of 2]) simp_all
  have s: "mem_ready 2 ?s dbs"
    "auction_at mem_hash mem_stream ?s dbs ''a1'' = \<lparr>a_rec = Some ?r, a_results = Map.empty, a_log = []\<rparr>"
    using c(2,3) by (simp_all add: ready_def store_ok_def BreakerOpen_def store_view_def auction_at_def)
  have h: "a_rec (auction_at mem_hash mem_stream ?s dbs (AuctionID ?req)) = Some ?r"
    "a_results (auction_at mem_hash mem_stream ?s dbs (AuctionID ?req)) (BidID ?req) = None"
    "a_open ?r" "a_price ?r < sint (AmountCents ?req)" "sint (UnixMilli (at_run (demo_clock 1000))) < a_end ?r"
    "sint (UnixMilli (at_run (demo_clock 1002))) < a_end ?r"
    "plain_bid (sint (Milliseconds (idemTTL ?s))) (sint (UnixMilli (at_run (demo_clock 1000)))) ?req"
    "plain_bid (sint (Milliseconds (idemTTL ?s))) (sint (UnixMilli (at_run (demo_clock 1002)))) ?req"
    "sint (Milliseconds (idemTTL ?s)) \<le> 0"
    using s(2) by (simp_all add: demo_bid_def plain_bid_def exact14_def Milliseconds_def)
  show ?thesis
    using retry_without_window_is_processed_again [OF memb.redis_backend_axioms s(1) h] c(1) by blast
qed

end
