(* ===== verification/StoreProps.thy ===== *)
theory StoreProps
  imports AuctionProps
begin

text \<open>
  Properties of the router and of the store beyond single bids: the choice of a server, the breaker
  around a failing backend, the encoding of results, and the reading of events.
\<close>

section \<open>A failing backend\<close>

text \<open>Every script call fails, in whatever way and after whatever effect.\<close>

definition failing :: "'db go_redis \<Rightarrow> bool" where
  "failing C \<longleftrightarrow> (\<forall>f db. \<exists>db' e. script_run C f db = (db', Inl e))"

lemma closed_allow: "breaker_abs b = Closed k \<Longrightarrow> allow now b = (True, b)"
  by (simp add: breaker_abs_def allow_def split: if_splits)

lemma open_bid:
  assumes "BreakerOpen (at_allow clk) s"
  shows "RedisStore_PlaceBid C R clk s req dbs = Some (s, dbs, zero_result, Some ErrRedisBreakerOpen)"
  using assms brk.open_refuses by (simp add: RedisStore_PlaceBid_def BreakerOpen_def)

lemma failing_bid:
  assumes "failing C" "router_ok (router s)" "breaker_abs (breaker s) = Closed k"
  shows "\<exists>dbs' e. RedisStore_PlaceBid C R clk s req dbs =
    Some (s\<lparr>breaker := fail (UnixNano (at_fail clk)) (breaker s)\<rparr>, dbs', zero_result, Some e)"
proof -
  obtain i where i: "ForAuction (router s) (AuctionID req) = Some i"
    using ForAuction_total [OF assms(2)] by blast
  obtain db' e where "script_run C (bidScript R (bid_keys (AuctionID req)) (bid_args C s (at_run clk) req)) (dbs ! i) = (db', Inl e)"
    using assms(1) unfolding failing_def by blast
  with i show ?thesis
    by (simp add: RedisStore_PlaceBid_def closed_allow [OF assms(3)])
qed

lemma failing_run:
  assumes "failing C" "router_ok (router s)" "breaker_inv (breaker s)" "breaker_abs (breaker s) = Closed k"
    and "bids \<noteq> []" "int k + int (length bids) \<le> sint (failureThreshold (breaker s))"
    and "\<forall>b \<in> set bids. 0 \<le> sint (UnixNano (at_fail (fst b))) \<and>
           sint (UnixNano (at_fail (fst b))) + sint (openForNs (breaker s)) < 2 ^ 63"
  shows "\<exists>s' dbs' rs. place_all C R bids s dbs = Some (s', dbs', rs) \<and> length rs = length bids \<and>
    (\<forall>r \<in> set rs. fst r = zero_result \<and> snd r \<noteq> None) \<and>
    breaker_abs (breaker s') =
      (if int k + int (length bids) < sint (failureThreshold (breaker s)) then Closed (k + length bids)
       else Tripped (sint (UnixNano (at_fail (fst (last bids)))) + sint (openForNs (breaker s))))"
  using assms(2-7)
proof (induction bids arbitrary: s dbs k)
  case (Cons b bids)
  obtain clk req where b: "b = (clk, req)" by (cases b)
  let ?t = "UnixNano (at_fail clk)" and ?thr = "failureThreshold (breaker s)" and ?d = "openForNs (breaker s)"
  obtain dbs1 e where p: "RedisStore_PlaceBid C R clk s req dbs =
      Some (s\<lparr>breaker := fail ?t (breaker s)\<rparr>, dbs1, zero_result, Some e)"
    using failing_bid [OF assms(1) Cons.prems(1,3)] by blast
  let ?s = "s\<lparr>breaker := fail ?t (breaker s)\<rparr>"
  have k: "int k = sint (consecutiveFails (breaker s))"
    using Cons.prems(2,3) by (auto simp: breaker_abs_def breaker_inv_def split: if_splits)
  have "sint ?thr < 2 ^ 31" using sint_range_size [of ?thr] by (simp add: word_size)
  then have nw: "no_wrap (breaker s) (Fail ?t)"
    using k Cons.prems(5,6) b by (simp add: no_wrap_def)
  have inv: "breaker_inv (breaker ?s)"
    using breaker_inv_step [OF Cons.prems(2) nw] by simp
  have abs: "breaker_abs (breaker ?s) =
      (if int k + 1 < sint ?thr then Closed (k + 1) else Tripped (sint ?t + sint ?d))"
    using breaker_abs_step [OF Cons.prems(2) nw] Cons.prems(3) by simp
  have set: "failureThreshold (breaker ?s) = ?thr" "openForNs (breaker ?s) = ?d"
    using breaker_step_settings [of "breaker s" "Fail ?t"] by simp_all
  show ?case
  proof (cases "bids = []")
    case True
    with p b abs show ?thesis by simp
  next
    case False
    then have lt: "int k + 1 < sint ?thr" using Cons.prems(5) by (cases bids) simp_all
    have "\<exists>s' dbs' rs. place_all C R bids ?s dbs1 = Some (s', dbs', rs) \<and> length rs = length bids \<and>
      (\<forall>r \<in> set rs. fst r = zero_result \<and> snd r \<noteq> None) \<and>
      breaker_abs (breaker s') =
        (if int (k + 1) + int (length bids) < sint (failureThreshold (breaker ?s)) then Closed (k + 1 + length bids)
         else Tripped (sint (UnixNano (at_fail (fst (last bids)))) + sint (openForNs (breaker ?s))))"
      using Cons.prems lt abs set False by (intro Cons.IH inv) simp_all
    with p b set False show ?thesis by (auto split: if_splits)
  qed
qed simp

lemma tripped_open: "breaker_abs (breaker s) = Tripped u \<Longrightarrow> BreakerOpen t s \<longleftrightarrow> sint (UnixNano t) < u"
  by (auto simp: BreakerOpen_def isOpen_abs)

section \<open>Large numbers\<close>

lemma ParseInt_mantissa:
  assumes "is_digit c" "\<not> is_digit c'"
  shows "ParseInt (c # c' # cs) = (0, Some ErrSyntax)"
proof -
  have "digit_val c \<le> max_uint64" using digit_val_le [OF assms(1)] by (simp add: max_uint64_def)
  then have "ParseUint (c # c' # cs) = (0, Some ErrSyntax)"
    using assms by (simp add: ParseUint_def max_uint64_def)
  with assms show ?thesis by (auto simp: ParseInt_def ParseInt_signed_def is_digit_neq)
qed

lemma parse_large_tostring:
  assumes "10 ^ 14 \<le> p"
  shows "parseInt64 (lua_tostring p) = 0"
proof -
  have "fst (ParseInt (sci_notation m e)) = 0" for m e
  proof -
    obtain c cs where m: "show_nat m = c # cs" by (cases "show_nat m") auto
    then have c: "is_digit c" using show_nat_Cons by blast
    have "\<not> is_digit (CHR ''.'')" "\<not> is_digit (CHR ''e'')" by code_simp+
    with c m show ?thesis
      by (cases "strip_zeros cs = []") (simp_all add: sci_notation_def ParseInt_mantissa)
  qed
  moreover have "\<not> nat p < 10 ^ 14" "\<not> p < 0" using assms by simp_all
  ultimately show ?thesis
    by (simp add: parseInt64_def lua_tostring_def fmt_g14_def Let_def)
qed

section \<open>Properties\<close>

text \<open>
  (C25) A router built from a list of addresses has one client per address that is not blank, in
  order and with surrounding white space removed, all with the same credentials and pool size and
  at least 8 idle connections; it is refused when there is none. Then every auction identifier
  selects a client: the choice never divides by zero or leaves the list, closing the router does not
  change it, and closing twice is closing once.
\<close>

theorem router_total:
  assumes "length addrs < 2 ^ 32" and "NewRedisRouter accepts addrs password db poolSize = Some (Inr r)"
  shows "map (Addr \<circ> Options) (clients r) = filter (\<lambda>a. a \<noteq> []) (map TrimSpace addrs) \<and>
    (\<forall>c \<in> set (clients r). Password (Options c) = password \<and> DB (Options c) = db \<and>
       PoolSize (Options c) = poolSize \<and> 8 \<le> sint (MinIdleConns (Options c))) \<and>
    (\<forall>a. \<exists>i < length (clients r). ForAuction r a = Some i \<and> ForAuction (Close r) a = Some i) \<and>
    (\<forall>c \<in> set (clients (Close r)). client_closed c) \<and> Close (Close r) = Close r"
proof -
  let ?cs = "map client_of (wanted_options addrs password db poolSize)"
  have r: "r = \<lparr>clients = ?cs, closed = False\<rparr>" "?cs \<noteq> []"
    using assms(2) by (auto simp: NewRedisRouter_def router_clients_wanted split: if_splits)
  have ok: "router_ok r"
    using r assms(1) wanted_length [of addrs password db poolSize] by (simp add: router_ok_def)
  have idle: "8 \<le> sint (idle_conns poolSize)" by (rule idle_conns_ge)
  have "shard (Close r) a = shard r a" "length (clients (Close r)) = length (clients r)" for a
    by (simp_all add: shard_def Close_def)
  then have "\<exists>i < length (clients r). ForAuction r a = Some i \<and> ForAuction (Close r) a = Some i" for a
    using ForAuction_total [OF ok, of a] by (auto simp: ForAuction_def)
  moreover have "\<forall>c \<in> set (clients (Close r)). client_closed c" "Close (Close r) = Close r"
    using r(1) by (auto simp: Close_def)
  moreover have "\<forall>c \<in> set (clients r). Password (Options c) = password \<and> DB (Options c) = db \<and>
       PoolSize (Options c) = poolSize \<and> 8 \<le> sint (MinIdleConns (Options c))"
    using r(1) idle by (auto simp: wanted_options_def client_options_def)
  moreover have "map (Addr \<circ> Options) (clients r) = filter (\<lambda>a. a \<noteq> []) (map TrimSpace addrs)"
    using r(1) by (simp add: wanted_options_def client_options_def comp_def)
  ultimately show ?thesis by blast
qed

theorem router_total_witness:
  "\<exists>r. NewRedisRouter (\<lambda>_. True) ['' r1:6379 '', [], ''r2:6379''] [] 0 64 = Some (Inr r) \<and>
    map (Addr \<circ> Options) (clients r) = [''r1:6379'', ''r2:6379''] \<and>
    (\<forall>a. \<exists>i < length (clients r). ForAuction r a = Some i)"
proof -
  have t: "TrimSpace '' r1:6379 '' = ''r1:6379''" "TrimSpace ''r2:6379'' = ''r2:6379''" by code_simp+
  then obtain r where r: "NewRedisRouter (\<lambda>_. True) ['' r1:6379 '', [], ''r2:6379''] [] 0 64 = Some (Inr r)"
    by (simp add: NewRedisRouter_def new_client_def)
  from router_total [OF _ r] t r show ?thesis by auto
qed

text \<open>
  (C23) While the breaker is open a bid is refused with \<open>ErrRedisBreakerOpen\<close> without any call to the
  driver, and nothing changes. When the backend fails on every call, the first \<open>n\<close> bids (\<open>n\<close> the
  failure threshold) each return an error with an empty result and trip the breaker; until the last
  failure's time plus the open time every further bid is refused, even if the backend has recovered.
\<close>

theorem outage_opens_breaker:
  fixes C :: "'db go_redis" and dbs :: "'db list"
  assumes "failing C" and "router_ok (router s)"
    and "breaker s = newCircuitBreaker thr d" and "0 < sint thr" and "sint thr < 2 ^ 31" and "0 < sint d"
    and "int (length bids) = sint thr"
    and "\<forall>b \<in> set bids. 0 \<le> sint (UnixNano (at_fail (fst b))) \<and> sint (UnixNano (at_fail (fst b))) + sint d < 2 ^ 63"
    and "sint (UnixNano (at_allow clk)) < sint (UnixNano (at_fail (fst (last bids)))) + sint d"
  shows "\<exists>s' dbs' rs. place_all C R bids s dbs = Some (s', dbs', rs) \<and> length rs = length bids \<and>
    (\<forall>r \<in> set rs. fst r = zero_result \<and> snd r \<noteq> None) \<and>
    (\<forall>(C' :: 'db go_redis) R' req dbs''. RedisStore_PlaceBid C' R' clk s' req dbs'' =
       Some (s', dbs'', zero_result, Some ErrRedisBreakerOpen))"
proof -
  note new = newCircuitBreaker_settings [OF assms(4-6)]
  have ne: "bids \<noteq> []" using assms(4,7) by auto
  obtain s' dbs' rs where run: "place_all C R bids s dbs = Some (s', dbs', rs)" "length rs = length bids"
    "\<forall>r \<in> set rs. fst r = zero_result \<and> snd r \<noteq> None"
    "breaker_abs (breaker s') = Tripped (sint (UnixNano (at_fail (fst (last bids)))) + sint d)"
    using failing_run [OF assms(1,2), of 0 bids R dbs] assms(3,7,8) ne new by auto
  have "BreakerOpen (at_allow clk) s'" using tripped_open [OF run(4)] assms(9) by simp
  with run(1-3) open_bid show ?thesis by blast
qed

theorem outage_opens_breaker_witness:
  "\<exists>s' dbs' rs.
    place_all (direct_driver\<lparr>script_run := (\<lambda>f db. (db, Inl DeadlineExceeded))\<rparr>) mem_redis
      [(demo_clock 1000, demo_bid ''b1'' ''ann'' 150), (demo_clock 1010, demo_bid ''b2'' ''bob'' 170)]
      (demo_store\<lparr>breaker := newCircuitBreaker 2 Second\<rparr>) demo_dbs = Some (s', dbs', rs) \<and>
    RedisStore_PlaceBid direct_driver mem_redis (demo_clock 1500) s' (demo_bid ''b3'' ''cyd'' 190) demo_dbs =
      Some (s', demo_dbs, zero_result, Some ErrRedisBreakerOpen)"
proof -
  let ?C = "direct_driver\<lparr>script_run := (\<lambda>f db. (db, Inl DeadlineExceeded))\<rparr> :: mem_db go_redis"
  let ?s = "demo_store\<lparr>breaker := newCircuitBreaker 2 Second\<rparr>"
  let ?bids = "[(demo_clock 1000, demo_bid ''b1'' ''ann'' 150), (demo_clock 1010, demo_bid ''b2'' ''bob'' 170)]"
  have h: "failing ?C" "router_ok (router ?s)" "breaker ?s = newCircuitBreaker 2 Second"
    by (simp_all add: failing_def router_ok_def demo_store_def demo_config_def NewRedisStore_def)
  show ?thesis
    using outage_opens_breaker [OF h, of ?bids "demo_clock 1500" mem_redis demo_dbs]
    by (auto simp add: go_durations demo_clock_def UnixNano_def simp del: place_all.simps)
qed

text \<open>
  (C26) What the script encodes the server decodes: a result whose numbers have at most 14 digits and
  whose text fields are free of the separator comes back field by field.
\<close>

theorem encode_decode_roundtrip:
  assumes "exact14 (sint price)" "exact14 (sint version)" "exact14 (sint now)"
    and "CHR ''|'' \<notin> set reason" "CHR ''|'' \<notin> set winner" "CHR ''|'' \<notin> set eid"
  shows "decodeCachedResult (encode (Some (sint now)) (if acc then ''1'' else ''0'') reason (Some (sint price)) winner
      (Some (sint version)) eid) =
    \<lparr>Accepted = acc, Duplicate = False, Reason = reason, CurrentPrice = price, WinnerUserID = winner,
     Version = version, EventID = eid, ServerUnixMilli = now\<rparr>"
  using assms by (simp add: decode_encode mk_result_def)

theorem encode_decode_roundtrip_witness:
  "decodeCachedResult (encode (Some (sint (1700000000000 :: int64))) ''1'' ''accepted'' (Some (sint (150 :: int64))) ''ann''
     (Some (sint (3 :: int64))) ''1-0'') =
   \<lparr>Accepted = True, Duplicate = False, Reason = ''accepted'', CurrentPrice = 150, WinnerUserID = ''ann'',
    Version = 3, EventID = ''1-0'', ServerUnixMilli = 1700000000000\<rparr>"
  using encode_decode_roundtrip [of 150 3 1700000000000 "''accepted''" "''ann''" "''1-0''" True]
  by (simp add: exact14_def)

text \<open>
  (C28) A user identifier that contains the separator corrupts the result its bidder receives: the
  reported winner stops at the first bar and the reported version is read from what follows it.
\<close>

theorem bar_in_user_id_corrupts_result:
  assumes "CHR ''|'' \<notin> set reason" "CHR ''|'' \<notin> set acc" "CHR ''|'' \<notin> set u" "CHR ''|'' \<notin> set w"
  shows "WinnerUserID (decodeCachedResult (encode now acc reason price (u @ ''|'' @ w) version eid)) = u \<and>
    Version (decodeCachedResult (encode now acc reason price (u @ ''|'' @ w) version eid)) = parseInt64 w"
proof -
  let ?t = "\<lambda>x. tostring_opt x"
  have t: "CHR ''|'' \<notin> set (?t x)" for x by (cases x) (simp_all add: tostring_opt_def)
  have "SplitN 7 (CHR ''|'') (encode now acc reason price (u @ ''|'' @ w) version eid) =
      [acc, reason, ?t price, u, w, ?t version, eid @ ''|'' @ ?t now]"
    using SplitN_encoded [of acc reason "?t price" u w "?t version" "eid @ ''|'' @ ?t now"] assms t
    by (simp add: encode_def)
  then show ?thesis by (simp add: decodeCachedResult_def Let_def pad_parts_def)
qed

theorem bar_in_user_id_corrupts_result_witness:
  "WinnerUserID (decodeCachedResult (encode (Some 1000) ''1'' ''accepted'' (Some 150) ''mallory|99'' (Some 3) ''1-0'')) = ''mallory'' \<and>
   Version (decodeCachedResult (encode (Some 1000) ''1'' ''accepted'' (Some 150) ''mallory|99'' (Some 3) ''1-0'')) = 99"
proof -
  have "parseInt64 ''99'' = 99" by code_simp
  then show ?thesis
    using bar_in_user_id_corrupts_result [of "''accepted''" "''1''" "''mallory''" "''99''" "Some 1000" "Some 150" "Some 3" "''1-0''"]
    by simp
qed

text \<open>
  From \<open>10^14\<close> on an amount is written by the script in exponent notation, which the server does
  not read: whatever such a price is, the decoded result reports a price of zero.
\<close>

theorem large_price_reported_as_zero:
  assumes "10 ^ 14 \<le> p" "CHR ''|'' \<notin> set acc" "CHR ''|'' \<notin> set reason"
  shows "CurrentPrice (decodeCachedResult (encode now acc reason (Some p) winner version eid)) = 0"
proof -
  have "SplitN 7 (CHR ''|'') (encode now acc reason (Some p) winner version eid) =
    acc # reason # lua_tostring p # SplitN 4 (CHR ''|'') (winner @ ''|'' @ tostring_opt version @ ''|'' @ eid @ ''|'' @ tostring_opt now)"
    unfolding seven using assms(2,3)
    by (simp add: encode_def tostring_opt_def SplitN_field numeral_eq_Suc del: SplitN.simps(3))
  moreover have "parseInt64 (lua_tostring p) = 0" using assms(1) by (rule parse_large_tostring)
  ultimately show ?thesis by (simp add: decodeCachedResult_def Let_def pad_parts_def nth_append)
qed

theorem large_price_reported_as_zero_witness:
  "CurrentPrice (decodeCachedResult (encode (Some 1000) ''1'' ''accepted'' (Some (10 ^ 14)) ''ann'' (Some 3) ''1-0'')) = 0"
  by (rule large_price_reported_as_zero) simp_all

end
