(* ===== verification/Events.thy ===== *)
theory Events
  imports StoreProps
begin

text \<open>
  \<open>RedisStore.ReadEvents\<close> against what the streams hold: which events a read returns for every
  auction asked for, and that the streams carry the identifier of their auction.
\<close>

section \<open>What a read returns\<close>

definition start_id :: "string \<Rightarrow> string" where
  "start_id off = (if off = [] then ''0-0'' else off)"

text \<open>The new events of one auction: at most \<open>count\<close> of those after the offset, oldest first.\<close>

definition unread :: "(string \<Rightarrow> string \<Rightarrow> bool) \<Rightarrow> int \<Rightarrow> (string \<Rightarrow> auction_view) \<Rightarrow> string \<times> string \<Rightarrow> AuctionEvent list" where
  "unread before count view p = map event_of (new_entries before count (start_id (snd p)) (av_events (view (fst p))))"

text \<open>A read goes through the servers in order, and on each through its auctions in the map's order.\<close>

definition all_unread :: "(string \<Rightarrow> string \<Rightarrow> bool) \<Rightarrow> int \<Rightarrow> (string \<Rightarrow> auction_view) \<Rightarrow> RedisRouter \<Rightarrow>
    (string \<times> string) list \<Rightarrow> AuctionEvent list" where
  "all_unread before count view r offs =
     concat (map (\<lambda>i. concat (map (unread before count view) (filter (\<lambda>p. shard r (fst p) = Some i) offs)))
       [0..<length (clients r)])"

text \<open>Every entry of an auction's stream names that auction.\<close>

definition labelled :: "(string \<Rightarrow> auction_view) \<Rightarrow> bool" where
  "labelled view \<longleftrightarrow> (\<forall>a. \<forall>e \<in> set (av_events (view a)). evAuctionID (event_of e) = a)"

section \<open>Lemmas\<close>

definition read_of :: "string \<times> string \<Rightarrow> string \<times> string" where
  "read_of p = (eventsKey (fst p), start_id (snd p))"

lemma shard_reads_result:
  assumes "router_ok r" and "length acc = length (clients r)"
  shows "\<exists>shards. shard_reads r offs acc = Some shards \<and> length shards = length acc \<and>
    (\<forall>i < length acc. shards ! i = acc ! i @ map read_of (filter (\<lambda>p. shard r (fst p) = Some i) offs))"
  using assms(2)
proof (induction offs arbitrary: acc)
  case (Cons p offs)
  obtain a off where p: "p = (a, off)" by (cases p)
  obtain i where i: "shard r a = Some i" "i < length acc"
    using ForAuction_total [OF assms(1), of a] Cons.prems by auto
  let ?acc = "acc[i := acc ! i @ [(eventsKey a, start_id off)]]"
  obtain shards where "shard_reads r offs ?acc = Some shards" "length shards = length acc"
    "\<forall>j < length acc. shards ! j = ?acc ! j @ map read_of (filter (\<lambda>p. shard r (fst p) = Some j) offs)"
    using Cons.IH [of ?acc] Cons.prems by auto
  with i p show ?case
    by (auto simp: start_id_def nth_list_update read_of_def)
qed simp

lemma map_nonempty_concat:
  "concat (map (\<lambda>st. g (snd st)) (filter (\<lambda>p. snd p \<noteq> []) (map f xs))) =
   concat (map (\<lambda>x. g (snd (f x))) xs)" if "g [] = []"
  using that by (induction xs) auto

context redis_backend
begin

lemma read_shard:
  assumes "valid db" "\<forall>p \<in> set shd. is_stream db (fst p)" "shd \<noteq> []"
    and that: "dbs ! i = db" "0 < sint count"
  shows "read_shards C R count lastI i (shd # shds) dbs out =
    read_shards C R count lastI (Suc i) shds dbs
      (out @ concat (map (\<lambda>p. map event_of (new_entries before (sint count) (snd p) (stream db (fst p)))) shd))"
proof -
  let ?res = "filter (\<lambda>p. snd p \<noteq> []) (map (\<lambda>(k, off). (k, new_entries before (sint count) off (stream db k))) shd)"
  have x: "XREAD R shd (sint count) db = Inr ?res"
    using assms(1,2) that(2) by (intro xread) auto
  have c: "concat (map (\<lambda>st. map event_of (snd st)) ?res) =
    concat (map (\<lambda>p. map event_of (new_entries before (sint count) (snd p) (stream db (fst p)))) shd)"
    by (subst map_nonempty_concat) (simp_all add: case_prod_beta')
  show ?thesis
  proof (cases "?res = []")
    case True
    then have "XREAD R shd (sint count) db = Inr []" using x by simp
    note nil = xread_nil [of "XREAD R shd (sint count)", OF this]
    have e: "concat (map (\<lambda>p. map event_of (new_entries before (sint count) (snd p) (stream db (fst p)))) shd) = []"
      using c True by simp
    show ?thesis unfolding e using nil assms(3) that(1) by (simp add: Let_def)
  next
    case False
    have "concat (map (\<lambda>st. map eventFromStream (snd st)) (map (\<lambda>(k, es). (k, map message_of es)) ?res)) =
      concat (map (\<lambda>st. map event_of (snd st)) ?res)"
      by (simp add: comp_def case_prod_beta' event_of_def [abs_def])
    with runs_xread [of "XREAD R shd (sint count)", OF x False] c assms(3) that(1) show ?thesis
      by (simp add: Let_def del: filter.simps)
  qed
qed

lemma read_shards_result:
  assumes "i + length shds = length dbs" "0 < sint count"
    and "\<forall>j < length shds. valid (dbs ! (i + j)) \<and> (\<forall>p \<in> set (shds ! j). is_stream (dbs ! (i + j)) (fst p))"
  shows "read_shards C R count lastI i shds dbs out =
    Inr (out @ concat (map (\<lambda>j. concat (map (\<lambda>p. map event_of
        (new_entries before (sint count) (snd p) (stream (dbs ! (i + j)) (fst p)))) (shds ! j))) [0..<length shds]))"
  using assms
proof (induction shds arbitrary: i out)
  case (Cons shd shds)
  let ?ev = "\<lambda>i p. map event_of (new_entries before (sint count) (snd p) (stream (dbs ! i) (fst p)))"
  have here: "valid (dbs ! i)" "\<forall>p \<in> set shd. is_stream (dbs ! i) (fst p)"
    using Cons.prems(3) by (force dest: spec [of _ 0])+
  have rest: "\<forall>j < length shds. valid (dbs ! (Suc i + j)) \<and> (\<forall>p \<in> set (shds ! j). is_stream (dbs ! (Suc i + j)) (fst p))"
  proof (intro allI impI)
    fix j assume "j < length shds"
    then show "valid (dbs ! (Suc i + j)) \<and> (\<forall>p \<in> set (shds ! j). is_stream (dbs ! (Suc i + j)) (fst p))"
      using Cons.prems(3) [rule_format, of "Suc j"] by simp
  qed
  have "read_shards C R count lastI i (shd # shds) dbs out =
      read_shards C R count lastI (Suc i) shds dbs (out @ concat (map (?ev i) shd))"
    using read_shard [OF here _ refl Cons.prems(2)] by (cases "shd = []") simp_all
  also have "\<dots> = Inr ((out @ concat (map (?ev i) shd)) @
      concat (map (\<lambda>j. concat (map (?ev (Suc i + j)) (shds ! j))) [0..<length shds]))"
    using Cons.prems(1,2) rest by (intro Cons.IH) simp_all
  also have "[0..<length (shd # shds)] = 0 # map Suc [0..<length shds]"
    by (simp add: map_Suc_upt upt_conv_Cons del: upt_Suc)
  ultimately show ?case by (simp add: comp_def)
qed simp

lemma ReadEvents_result:
  assumes "store_ok valid is_hash is_stream s dbs" and "0 < sint count"
  shows "RedisStore_ReadEvents C R s offs count dbs =
    Some (Inr (all_unread before (sint count) (store_view hash stream s dbs) (router s) offs))"
proof (cases "offs = []")
  case True
  then show ?thesis by (simp add: RedisStore_ReadEvents_def all_unread_def)
next
  case False
  let ?r = "router s" and ?n = "length (clients (router s))"
  have ok: "router_ok ?r" "length dbs = ?n" "\<forall>db \<in> set dbs. valid db \<and> kinds_ok is_hash is_stream db"
    using assms(1) by (simp_all add: store_ok_def)
  obtain shards where sh: "shard_reads ?r offs (replicate ?n []) = Some shards" "length shards = ?n"
    "\<forall>i < ?n. shards ! i = map read_of (filter (\<lambda>p. shard ?r (fst p) = Some i) offs)"
    using shard_reads_result [OF ok(1), of "replicate ?n []" offs] by auto
  have kinds: "\<forall>j < length shards. valid (dbs ! (0 + j)) \<and> (\<forall>p \<in> set (shards ! j). is_stream (dbs ! (0 + j)) (fst p))"
    using sh(2,3) ok(2,3) by (auto simp: kinds_ok_def read_of_def)
  have view: "unread before (sint count) (store_view hash stream s dbs) p =
      map event_of (new_entries before (sint count) (snd (read_of p)) (stream (dbs ! i) (fst (read_of p))))"
    if "shard ?r (fst p) = Some i" for p i
    using that ForAuction_total [OF ok(1), of "fst p"] by (auto simp: unread_def read_of_def store_view_def)
  have per_shard: "concat (map (\<lambda>p. map event_of (new_entries before (sint count) (snd p) (stream (dbs ! i) (fst p)))) (shards ! i)) =
      concat (map (unread before (sint count) (store_view hash stream s dbs)) (filter (\<lambda>p. shard ?r (fst p) = Some i) offs))"
    if "i \<in> set [0..<?n]" for i
    using sh(3) that
    by (auto simp: comp_def view [where i = i] intro!: arg_cong [where f = concat] map_cong)
  have all: "concat (map (\<lambda>i. concat (map (\<lambda>p. map event_of
        (new_entries before (sint count) (snd p) (stream (dbs ! i) (fst p)))) (shards ! i))) [0..<?n]) =
      all_unread before (sint count) (store_view hash stream s dbs) ?r offs"
    unfolding all_unread_def by (intro arg_cong [where f = concat] map_cong refl per_shard)
  have "read_shards C R count (last_shard shards) 0 shards dbs [] =
      Inr (all_unread before (sint count) (store_view hash stream s dbs) ?r offs)"
    using read_shards_result [OF _ assms(2) kinds, of "last_shard shards" "[]"] sh(2) ok(2) all
    by simp
  with False sh(1) assms(2) show ?thesis by (simp add: RedisStore_ReadEvents_def)
qed

end

section \<open>The events of one auction\<close>

lemma filter_concat_label:
  assumes "\<forall>p \<in> set ps. \<forall>e \<in> set (f p). lab e = fst p" and "distinct (map fst ps)"
  shows "filter (\<lambda>e. lab e = a) (concat (map f ps)) = (case map_of ps a of None \<Rightarrow> [] | Some off \<Rightarrow> f (a, off))"
  using assms
proof (induction ps)
  case (Cons p ps)
  obtain b off where p: "p = (b, off)" by (cases p)
  show ?case
  proof (cases "b = a")
    case True
    have own: "filter (\<lambda>e. lab e = a) (f p) = f p" using Cons.prems(1) p True by simp
    have "a \<notin> fst ` set ps" using Cons.prems(2) p True by simp
    then have "map_of ps a = None" by (simp add: map_of_eq_None_iff)
    with Cons own p True show ?thesis by simp
  next
    case False
    then have "filter (\<lambda>e. lab e = a) (f p) = []" using Cons.prems(1) p by (auto simp: filter_empty_conv)
    with Cons p False show ?thesis by simp
  qed
qed simp

lemma map_of_filter_key:
  "map_of (filter (\<lambda>p. P (fst p)) ps) a = (if P a then map_of ps a else None)"
  by (induction ps) auto

lemma concat_only:
  assumes "i < n" and "\<forall>j < n. j \<noteq> i \<longrightarrow> g j = []"
  shows "concat (map g [0..<n]) = g i"
  using assms
proof (induction n)
  case (Suc n)
  then show ?case by (cases "i = n") (auto simp: less_Suc_eq)
qed simp

lemma all_unread_of:
  assumes "router_ok r" and "labelled view" and "distinct (map fst offs)"
  shows "filter (\<lambda>e. evAuctionID e = a) (all_unread before count view r offs) =
    (case map_of offs a of None \<Rightarrow> [] | Some off \<Rightarrow> unread before count view (a, off))"
proof -
  let ?on = "\<lambda>i. filter (\<lambda>p. shard r (fst p) = Some i) offs"
  let ?g = "\<lambda>i. filter (\<lambda>e. evAuctionID e = a) (concat (map (unread before count view) (?on i)))"
  have lab: "\<forall>p \<in> set ps. \<forall>e \<in> set (unread before count view p). evAuctionID e = fst p" for ps
    using assms(2) by (auto simp: unread_def labelled_def new_entries_def dest!: in_set_takeD)
  have g: "?g i = (if shard r a = Some i then
      (case map_of offs a of None \<Rightarrow> [] | Some off \<Rightarrow> unread before count view (a, off)) else [])" for i
    using filter_concat_label [OF lab, of "?on i" a] assms(3)
    by (simp add: map_of_filter_key [of "\<lambda>x. shard r x = Some i"] distinct_map_filter)
  obtain i where i: "shard r a = Some i" "i < length (clients r)"
    using ForAuction_total [OF assms(1), of a] by auto
  have "filter (\<lambda>e. evAuctionID e = a) (all_unread before count view r offs) = concat (map ?g [0..<length (clients r)])"
    by (simp add: all_unread_def filter_concat comp_def)
  also have "\<dots> = ?g i" using i g by (intro concat_only) auto
  finally show ?thesis using g i by simp
qed

section \<open>Properties\<close>

text \<open>
  (C10) Reading events from working servers returns, for every auction asked for, exactly its events
  after the given offset in stream order, at most \<open>count\<close> of them, and no events of other auctions:
  whatever the order in which the map of offsets is walked, however the auctions are spread over the
  servers, and with an empty offset meaning the start of the stream.
\<close>

theorem read_events_complete:
  assumes "redis_backend R valid hash stream ttl is_hash is_stream before tick C"
    and "store_ok valid is_hash is_stream s dbs" and "0 < sint count"
    and "labelled (store_view hash stream s dbs)" and "distinct (map fst offs)"
  shows "\<exists>evs. RedisStore_ReadEvents C R s offs count dbs = Some (Inr evs) \<and>
    (\<forall>a. filter (\<lambda>e. evAuctionID e = a) evs =
       (case map_of offs a of
          None \<Rightarrow> []
        | Some off \<Rightarrow> unread before (sint count) (store_view hash stream s dbs) (a, off)))"
proof -
  have "router_ok (router s)" using assms(2) by (simp add: store_ok_def)
  with redis_backend.ReadEvents_result [OF assms(1-3), of offs] all_unread_of [OF _ assms(4,5)] show ?thesis
    by blast
qed

theorem read_events_complete_witness:
  "\<exists>evs. RedisStore_ReadEvents direct_driver mem_redis demo_store [(''a1'', []), (''a2'', ''3-0'')] 256 demo_dbs =
     Some (Inr evs) \<and> filter (\<lambda>e. evAuctionID e = ''a1'') evs = []"
proof -
  have rdy: "mem_ready 0 demo_store demo_dbs" by (rule demo_ready) simp
  have "labelled (store_view mem_hash mem_stream demo_store demo_dbs)"
    by (simp add: labelled_def demo_view)
  then show ?thesis
    using read_events_complete [OF memb.redis_backend_axioms, of demo_store demo_dbs 256 "[(''a1'', []), (''a2'', ''3-0'')]"] rdy
    by (auto simp: ready_def unread_def new_entries_def demo_view)
qed

end
