(* ===== verification/Service.thy ===== *)
theory Service
  imports Retries Events
begin

text \<open>
  \<open>internal/engine/service.go\<close>: the validation in front of a store. The Go interface \<open>Store\<close> is a
  record of operations on the state behind the interface; \<open>None\<close> is a panic. The locale
  \<open>store_contract\<close> is what the service relies on, and \<open>RedisStore\<close> is shown to provide it in front of
  any driver and any server. The service adds a default end time and rejects incomplete requests.
\<close>

section \<open>Definitions\<close>

record 'st Store =
  store_CreateAuction :: "CreateAuctionRequest \<Rightarrow> 'st \<Rightarrow> ('st \<times> go_error option) option"
  store_PlaceBid :: "bid_clock \<Rightarrow> PlaceBidRequest \<Rightarrow> 'st \<Rightarrow> ('st \<times> PlaceBidResult \<times> go_error option) option"
  store_ReadEvents :: "(string \<times> string) list \<Rightarrow> int64 \<Rightarrow> 'st \<Rightarrow> (go_error + AuctionEvent list) option"

definition redis_Store :: "'db go_redis \<Rightarrow> 'db redis_cmds \<Rightarrow> (RedisStore \<times> 'db list) Store" where
  "redis_Store C R =
     \<lparr>store_CreateAuction = (\<lambda>req st. map_option (\<lambda>(dbs, e). ((fst st, dbs), e)) (RedisStore_CreateAuction C R (fst st) req (snd st))),
      store_PlaceBid = (\<lambda>clk req st. map_option (\<lambda>(s, dbs, r). ((s, dbs), r)) (RedisStore_PlaceBid C R clk (fst st) req (snd st))),
      store_ReadEvents = (\<lambda>offs count st. RedisStore_ReadEvents C R (fst st) offs count (snd st))\<rparr>"

record 'st Service =
  svc_store :: "'st Store"
  defaultDuration :: duration

definition NewService :: "'st Store \<Rightarrow> duration \<Rightarrow> 'st Service" where
  "NewService store d =
     \<lparr>svc_store = store, defaultDuration = (if sint d \<le> 0 then 10 * Minute else d)\<rparr>"

definition Service_CreateAuction :: "time \<Rightarrow> 'st Service \<Rightarrow> CreateAuctionRequest \<Rightarrow> 'st \<Rightarrow>
    ('st \<times> go_error option) option" where
  "Service_CreateAuction now s req st =
     (if NewAuctionID req = [] then Some (st, Some ErrInvalidAuctionID)
      else let req' = (if IsZero (EndAt req) then req\<lparr>EndAt := Add now (defaultDuration s)\<rparr> else req)
           in store_CreateAuction (svc_store s) req' st)"

definition Service_PlaceBid :: "bid_clock \<Rightarrow> 'st Service \<Rightarrow> PlaceBidRequest \<Rightarrow> 'st \<Rightarrow>
    ('st \<times> PlaceBidResult \<times> go_error option) option" where
  "Service_PlaceBid clk s req st =
     (if AuctionID req = [] then Some (st, zero_result, Some ErrInvalidAuctionID)
      else if BidID req = [] then Some (st, zero_result, Some ErrInvalidBidID)
      else if UserID req = [] then Some (st, zero_result, Some ErrInvalidUserID)
      else if sint (AmountCents req) \<le> 0 then Some (st, zero_result, Some ErrInvalidAmount)
      else store_PlaceBid (svc_store s) clk req st)"

definition valid_bid :: "PlaceBidRequest \<Rightarrow> bool" where
  "valid_bid req \<longleftrightarrow> AuctionID req \<noteq> [] \<and> BidID req \<noteq> [] \<and> UserID req \<noteq> [] \<and> 0 < sint (AmountCents req)"

definition validation_errors :: "go_error set" where
  "validation_errors = {ErrInvalidAuctionID, ErrInvalidBidID, ErrInvalidUserID, ErrInvalidAmount}"

text \<open>A sequence of bids through the service.\<close>

fun serve_all :: "'st Service \<Rightarrow> bid_run \<Rightarrow> 'st \<Rightarrow> ('st \<times> (PlaceBidResult \<times> go_error option) list) option" where
  "serve_all s [] st = Some (st, [])"
| "serve_all s ((clk, req) # bids) st =
     (case Service_PlaceBid clk s req st of
        None \<Rightarrow> None
      | Some (st', r) \<Rightarrow> map_option (\<lambda>(st'', rs). (st'', r # rs)) (serve_all s bids st'))"

section \<open>What the service relies on\<close>

locale store_contract =
  fixes S :: "'st Store" and inv :: "'st \<Rightarrow> bool"
  assumes create_returns: "inv st \<Longrightarrow> \<exists>st' e. store_CreateAuction S creq st = Some (st', e) \<and> inv st'"
    and place_returns: "inv st \<Longrightarrow> \<exists>st' r. store_PlaceBid S clk req st = Some (st', r) \<and> inv st'"
    and read_returns: "inv st \<Longrightarrow> 0 \<le> sint count \<Longrightarrow> \<exists>r. store_ReadEvents S offs count st = Some r"
begin

lemma service_create_returns:
  "inv st \<Longrightarrow> svc_store s = S \<Longrightarrow> \<exists>st' e. Service_CreateAuction now s req st = Some (st', e) \<and> inv st'"
  using create_returns by (auto simp: Service_CreateAuction_def Let_def)

lemma service_place_returns:
  "inv st \<Longrightarrow> svc_store s = S \<Longrightarrow> \<exists>st' r. Service_PlaceBid clk s req st = Some (st', r) \<and> inv st'"
  using place_returns by (auto simp: Service_PlaceBid_def)

lemma serve_all_returns:
  "inv st \<Longrightarrow> svc_store s = S \<Longrightarrow> \<exists>st' rs. serve_all s bids st = Some (st', rs) \<and> inv st' \<and> length rs = length bids"
proof (induction bids arbitrary: st)
  case (Cons b bids)
  obtain clk req where b: "b = (clk, req)" by (cases b)
  obtain st1 r where "Service_PlaceBid clk s req st = Some (st1, r)" "inv st1"
    using service_place_returns [OF Cons.prems] by blast
  with Cons.IH [of st1] Cons.prems(2) b show ?case by auto
qed simp

end

definition redis_inv :: "RedisStore \<times> 'db list \<Rightarrow> bool" where
  "redis_inv st \<longleftrightarrow> router_ok (router (fst st)) \<and> length (snd st) = length (clients (router (fst st)))"

lemma shard_reads_total:
  "router_ok r \<Longrightarrow> \<exists>shards. shard_reads r offs (replicate (length (clients r)) []) = Some shards"
  using shard_reads_result [of r "replicate (length (clients r)) []" offs] by auto

lemma RedisStore_CreateAuction_total:
  assumes "redis_inv st"
  shows "\<exists>st' e. store_CreateAuction (redis_Store C R) req st = Some (st', e) \<and> redis_inv st'"
proof -
  obtain i where "ForAuction (router (fst st)) (NewAuctionID req) = Some i"
    using assms ForAuction_total unfolding redis_inv_def by blast
  with assms show ?thesis
    by (auto simp: redis_Store_def RedisStore_CreateAuction_def redis_inv_def split: prod.splits)
qed

lemma RedisStore_PlaceBid_total:
  assumes "redis_inv st"
  shows "\<exists>st' r. store_PlaceBid (redis_Store C R) clk req st = Some (st', r) \<and> redis_inv st'"
proof -
  obtain i where "ForAuction (router (fst st)) (AuctionID req) = Some i"
    using assms ForAuction_total unfolding redis_inv_def by blast
  with assms show ?thesis
    by (auto simp: redis_Store_def RedisStore_PlaceBid_def redis_inv_def split: prod.splits sum.splits)
qed

lemma RedisStore_ReadEvents_total:
  assumes "redis_inv st" and "0 \<le> sint count"
  shows "\<exists>r. store_ReadEvents (redis_Store C R) offs count st = Some r"
  using assms shard_reads_total [of "router (fst st)" offs]
  by (auto simp: redis_Store_def RedisStore_ReadEvents_def redis_inv_def)

interpretation redis: store_contract "redis_Store C R" redis_inv for C R
  by unfold_locales
     (fact RedisStore_CreateAuction_total, fact RedisStore_PlaceBid_total, fact RedisStore_ReadEvents_total)

section \<open>Lemmas\<close>

lemma Service_PlaceBid_cases:
  obtains (invalid) e where "\<not> valid_bid req" "e \<in> validation_errors"
      "Service_PlaceBid clk s req st = Some (st, zero_result, Some e)"
    | (valid) "valid_bid req" "Service_PlaceBid clk s req st = store_PlaceBid (svc_store s) clk req st"
proof (cases "valid_bid req")
  case True
  then show ?thesis by (intro valid) (auto simp: valid_bid_def Service_PlaceBid_def)
next
  case False
  then have "\<exists>e \<in> validation_errors. Service_PlaceBid clk s req st = Some (st, zero_result, Some e)"
    by (cases "AuctionID req = []"; cases "BidID req = []"; cases "UserID req = []")
       (simp_all add: valid_bid_def Service_PlaceBid_def validation_errors_def not_less)
  with False invalid show ?thesis by blast
qed

text \<open>The bids that reach the store.\<close>

definition admitted :: "bid_run \<Rightarrow> bid_run" where
  "admitted bids = filter (\<lambda>b. valid_bid (snd b)) bids"

lemma serve_all_place_all:
  assumes "svc_store s = redis_Store C R"
  shows "map_option fst (serve_all s bids (rs, dbs)) =
    map_option (\<lambda>(rs', dbs', _). (rs', dbs')) (place_all C R (admitted bids) rs dbs)"
proof (induction bids arbitrary: rs dbs)
  case Nil
  then show ?case by (simp add: admitted_def)
next
  case (Cons b bids)
  obtain clk req where b: "b = (clk, req)" by (cases b)
  show ?case
  proof (cases "valid_bid req")
    case True
    then have p: "Service_PlaceBid clk s req (rs, dbs) =
        map_option (\<lambda>(s, dbs, r). ((s, dbs), r)) (RedisStore_PlaceBid C R clk rs req dbs)"
      using assms by (cases rule: Service_PlaceBid_cases [of req clk s "(rs, dbs)"]) (simp_all add: redis_Store_def)
    show ?thesis
    proof (cases "RedisStore_PlaceBid C R clk rs req dbs")
      case None
      with p b True show ?thesis by (simp add: admitted_def)
    next
      case (Some x)
      obtain rs1 dbs1 r where x: "x = (rs1, dbs1, r)" by (cases x) auto
      from Cons.IH [of rs1 dbs1] Some x p b True show ?thesis
        by (cases "serve_all s bids (rs1, dbs1)"; cases "place_all C R (admitted bids) rs1 dbs1")
           (auto simp: admitted_def)
    qed
  next
    case False
    then obtain e where "Service_PlaceBid clk s req (rs, dbs) = Some ((rs, dbs), zero_result, Some e)"
      by (cases rule: Service_PlaceBid_cases [of req clk s "(rs, dbs)"]) auto
    with Cons.IH [of rs dbs] b False show ?thesis
      by (cases "serve_all s bids (rs, dbs)") (auto simp: admitted_def)
  qed
qed

lemma serve_all_invalid:
  "serve_all s bids st = Some (st', rs) \<Longrightarrow>
   length rs = length bids \<and>
   (\<forall>i < length bids. \<not> valid_bid (snd (bids ! i)) \<longrightarrow> fst (rs ! i) = zero_result \<and> (\<exists>e \<in> validation_errors. snd (rs ! i) = Some e))"
proof (induction bids arbitrary: st st' rs)
  case (Cons b bids)
  obtain clk req where b: "b = (clk, req)" by (cases b)
  obtain st1 r rs1 where p: "Service_PlaceBid clk s req st = Some (st1, r)" "serve_all s bids st1 = Some (st', rs1)"
    "rs = r # rs1"
    using Cons.prems b by (auto split: option.splits)
  have "\<not> valid_bid req \<longrightarrow> fst r = zero_result \<and> (\<exists>e \<in> validation_errors. snd r = Some e)"
    using p(1) by (cases rule: Service_PlaceBid_cases [of req clk s st]) auto
  with Cons.IH [OF p(2)] p(3) b show ?case by (auto simp: nth_Cons split: nat.splits)
qed simp

section \<open>Properties\<close>

text \<open>
  (C24) The service in front of a Redis store never panics, whatever its driver and servers answer. A
  run of requests leaves the store exactly as placing the valid ones among them would, in the same
  order; every request without an auction, bid or user identifier or with an amount of zero or less
  gets an empty result and a validation error, and does not reach the store.
\<close>

theorem service_runs_valid_bids_only:
  assumes "redis_inv (rs, dbs)"
  shows "\<exists>rs' dbs' out outs. serve_all (NewService (redis_Store C R) d) bids (rs, dbs) = Some ((rs', dbs'), out) \<and>
    place_all C R (filter (\<lambda>b. valid_bid (snd b)) bids) rs dbs = Some (rs', dbs', outs) \<and>
    length out = length bids \<and> redis_inv (rs', dbs') \<and>
    (\<forall>i < length bids. \<not> valid_bid (snd (bids ! i)) \<longrightarrow>
       fst (out ! i) = zero_result \<and> (\<exists>e \<in> validation_errors. snd (out ! i) = Some e))"
proof -
  let ?s = "NewService (redis_Store C R) d"
  have s: "svc_store ?s = redis_Store C R" by (simp add: NewService_def)
  obtain rs' dbs' out where run: "serve_all ?s bids (rs, dbs) = Some ((rs', dbs'), out)" "redis_inv (rs', dbs')"
    using redis.serve_all_returns [OF assms s] by force
  with serve_all_place_all [OF s, of bids rs dbs]
  have "\<exists>outs. place_all C R (filter (\<lambda>b. valid_bid (snd b)) bids) rs dbs = Some (rs', dbs', outs)"
    by (cases "place_all C R (filter (\<lambda>b. valid_bid (snd b)) bids) rs dbs") (auto simp: admitted_def)
  with run serve_all_invalid [OF run(1)] show ?thesis by blast
qed

theorem service_runs_valid_bids_only_witness:
  "\<exists>rs' dbs' out. serve_all (NewService (redis_Store direct_driver mem_redis) Minute)
      [(demo_clock 1000, demo_bid [] ''ann'' 150), (demo_clock 1001, demo_bid ''b2'' ''bob'' 0)] (demo_store, demo_dbs) =
      Some ((rs', dbs'), out) \<and> length out = 2 \<and> (\<exists>e \<in> validation_errors. snd (out ! 1) = Some e)"
proof -
  let ?bids = "[(demo_clock 1000, demo_bid [] ''ann'' 150), (demo_clock 1001, demo_bid ''b2'' ''bob'' 0)]"
  have "redis_inv (demo_store, demo_dbs)"
    by (simp add: redis_inv_def router_ok_def demo_store_def demo_config_def NewRedisStore_def)
  then obtain rs' dbs' out where run: "serve_all (NewService (redis_Store direct_driver mem_redis) Minute) ?bids (demo_store, demo_dbs) =
      Some ((rs', dbs'), out)" "length out = length ?bids"
    "\<forall>i < length ?bids. \<not> valid_bid (snd (?bids ! i)) \<longrightarrow>
       fst (out ! i) = zero_result \<and> (\<exists>e \<in> validation_errors. snd (out ! i) = Some e)"
    using service_runs_valid_bids_only [of demo_store demo_dbs direct_driver mem_redis Minute ?bids] by blast
  have "\<not> valid_bid (snd (?bids ! 1))" by (simp add: valid_bid_def demo_bid_def)
  with run show ?thesis by (intro exI [of _ rs'] exI [of _ dbs'] exI [of _ out]) (simp del: serve_all.simps)
qed

text \<open>
  An auction created through the service without an end time ends the default duration after its
  creation (ten minutes if the configured default is not positive), is open at its opening price
  with no winner and version 0, and no other auction is affected.
\<close>

theorem service_default_end_time:
  fixes d now req
  defines "dur \<equiv> (if sint d \<le> 0 then 600 * 10 ^ 9 else sint d)"
  assumes "redis_backend R valid hash stream ttl is_hash is_stream before tick C"
    and "store_ok valid is_hash is_stream s dbs"
    and "NewAuctionID req = a" and "a \<noteq> []" and "IsZero (EndAt req)"
    and "exact14 (sint (OpeningPriceCents req))" and "\<bar>(now + dur) div 10 ^ 6\<bar> < 10 ^ 14"
  shows "\<exists>dbs'. Service_CreateAuction now (NewService (redis_Store C R) d) req (s, dbs) = Some ((s, dbs'), None) \<and>
    a_rec (auction_at hash stream s dbs' a) =
      Some \<lparr>a_open = True, a_end = (now + dur) div 10 ^ 6, a_price = sint (OpeningPriceCents req), a_winner = [], a_version = 0\<rparr> \<and>
    (\<forall>b. b \<noteq> a \<longrightarrow> auction_at hash stream s dbs' b = auction_at hash stream s dbs b)"
proof -
  let ?svc = "NewService (redis_Store C R) d"
  let ?req = "req\<lparr>EndAt := Add now (defaultDuration ?svc)\<rparr>"
  have dur: "sint (defaultDuration ?svc) = dur" by (simp add: NewService_def dur_def go_durations)
  have "sint (UnixMilli (EndAt ?req)) = (now + dur) div 10 ^ 6"
    using assms(8) dur by (simp add: UnixMilli_def Add_def sint_int64)
  then have e: "sint (UnixMilli (EndAt ?req)) = (now + dur) div 10 ^ 6" "exact14 (sint (UnixMilli (EndAt ?req)))"
    using assms(8) by (simp_all add: exact14_def)
  have o: "exact14 (sint (OpeningPriceCents ?req))" using assms(7) by simp
  obtain dbs' where c: "RedisStore_CreateAuction C R s ?req dbs = Some (dbs', None)"
    "auction_at hash stream s dbs' a = create_spec ?req (auction_at hash stream s dbs a)"
    "\<forall>b. b \<noteq> a \<longrightarrow> store_view hash stream s dbs' b = store_view hash stream s dbs b"
    using redis_backend.CreateAuction_refines [OF assms(2,3) o e(2)] assms(4) by auto
  have "Service_CreateAuction now ?svc req (s, dbs) = Some ((s, dbs'), None)"
    using assms(4-6) c(1) by (simp add: Service_CreateAuction_def redis_Store_def NewService_def)
  moreover have "a_rec (auction_at hash stream s dbs' a) =
      Some \<lparr>a_open = True, a_end = (now + dur) div 10 ^ 6, a_price = sint (OpeningPriceCents req), a_winner = [], a_version = 0\<rparr>"
    using e(1) by (simp add: c(2) create_spec_def)
  moreover have "\<forall>b. b \<noteq> a \<longrightarrow> auction_at hash stream s dbs' b = auction_at hash stream s dbs b"
    using c(3) by (simp add: auction_at_def)
  ultimately show ?thesis by blast
qed

theorem service_default_end_time_witness:
  "\<exists>dbs'. Service_CreateAuction (1000 * 10 ^ 6) (NewService (redis_Store direct_driver mem_redis) 0)
      \<lparr>NewAuctionID = ''a1'', OpeningPriceCents = 100, EndAt = zero_time\<rparr> (demo_store, demo_dbs) = Some ((demo_store, dbs'), None) \<and>
    a_rec (auction_at mem_hash mem_stream demo_store dbs' ''a1'') =
      Some \<lparr>a_open = True, a_end = 601000, a_price = 100, a_winner = [], a_version = 0\<rparr>"
proof -
  have "mem_ready 0 demo_store demo_dbs" by (rule demo_ready) simp
  then have ok: "store_ok mem_wf mem_is_hash mem_is_stream demo_store demo_dbs" by (simp add: ready_def)
  show ?thesis
    using service_default_end_time [OF memb.redis_backend_axioms ok,
        of "\<lparr>NewAuctionID = ''a1'', OpeningPriceCents = 100, EndAt = zero_time\<rparr>" "''a1''" "1000 * 10 ^ 6" 0]
    by (auto simp: IsZero_def exact14_def)
qed

end
