(* ===== verification/Grpc.thy ===== *)
theory Grpc
  imports Service
begin

text \<open>
  \<open>internal/transport/grpc/server.go\<close> with the metrics of \<open>internal/obs/metrics.go\<close> and the
  messages of \<open>auction/v1/auction.pb.go\<close>: the admission of bids through a semaphore, the call of the
  service, the mapping of errors to status codes and the counting of outcomes. A handler is split
  into admission, call and deferred clean-up; \<open>API_PlaceBid\<close> is their composition. \<open>None\<close> is a
  panic. Handlers that run at the same time are the subject of \<open>Concurrent\<close>.
\<close>

section \<open>Metrics\<close>

record Metrics =
  BidRequestsTotal :: "string \<Rightarrow> nat"
  BidLatencySeconds :: nat
  InFlightBids :: int
  RedisBreakerOpen :: nat
  WsDroppedClients :: nat
  StreamDispatchLag :: int

text \<open>Of the latency histogram only the number of observations is kept.\<close>

definition NewMetrics :: Metrics where
  "NewMetrics = \<lparr>BidRequestsTotal = (\<lambda>_. 0), BidLatencySeconds = 0, InFlightBids = 0, RedisBreakerOpen = 0,
                 WsDroppedClients = 0, StreamDispatchLag = 0\<rparr>"

definition count_outcome :: "string \<Rightarrow> Metrics \<Rightarrow> Metrics" where
  "count_outcome l m = m\<lparr>BidRequestsTotal := (BidRequestsTotal m)(l := BidRequestsTotal m l + 1)\<rparr>"

section \<open>Messages\<close>

record pb_PlaceBidRequest =
  pb_AuctionId :: string
  pb_BidId :: string
  pb_UserId :: string
  pb_AmountCents :: int64

record pb_CreateAuctionRequest =
  pb_NewAuctionId :: string
  pb_OpeningPriceCents :: int64
  pb_DurationSec :: int64

record pb_PlaceBidResponse =
  pb_Accepted :: bool
  pb_Duplicate :: bool
  pb_Reason :: string
  pb_CurrentPriceCents :: int64
  pb_WinnerUserId :: string
  pb_Version :: int64
  pb_EventId :: string
  pb_ServerTsMs :: int64

text \<open>The generated getters: a nil message reads as the zero value.\<close>

definition GetAuctionId :: "pb_PlaceBidRequest option \<Rightarrow> string" where [pb_getters]:
  "GetAuctionId x = (case x of None \<Rightarrow> [] | Some r \<Rightarrow> pb_AuctionId r)"

definition GetBidId :: "pb_PlaceBidRequest option \<Rightarrow> string" where [pb_getters]:
  "GetBidId x = (case x of None \<Rightarrow> [] | Some r \<Rightarrow> pb_BidId r)"

definition GetUserId :: "pb_PlaceBidRequest option \<Rightarrow> string" where [pb_getters]:
  "GetUserId x = (case x of None \<Rightarrow> [] | Some r \<Rightarrow> pb_UserId r)"

definition GetAmountCents :: "pb_PlaceBidRequest option \<Rightarrow> int64" where [pb_getters]:
  "GetAmountCents x = (case x of None \<Rightarrow> 0 | Some r \<Rightarrow> pb_AmountCents r)"

definition GetNewAuctionId :: "pb_CreateAuctionRequest option \<Rightarrow> string" where [pb_getters]:
  "GetNewAuctionId x = (case x of None \<Rightarrow> [] | Some r \<Rightarrow> pb_NewAuctionId r)"

definition GetOpeningPriceCents :: "pb_CreateAuctionRequest option \<Rightarrow> int64" where [pb_getters]:
  "GetOpeningPriceCents x = (case x of None \<Rightarrow> 0 | Some r \<Rightarrow> pb_OpeningPriceCents r)"

definition GetDurationSec :: "pb_CreateAuctionRequest option \<Rightarrow> int64" where [pb_getters]:
  "GetDurationSec x = (case x of None \<Rightarrow> 0 | Some r \<Rightarrow> pb_DurationSec r)"

section \<open>The API\<close>

datatype code = C_ResourceExhausted | C_DeadlineExceeded | C_Unavailable | C_InvalidArgument | C_Internal

type_synonym status = "code \<times> string"

text \<open>The semaphore channel is its capacity and the number of tokens in it.\<close>

record 'st API =
  svc :: "'st Service"
  sem_len :: nat
  sem_cap :: nat
  metrics :: Metrics
  breakerOpen :: "time \<Rightarrow> 'st \<Rightarrow> bool"

text \<open>
  \<open>NewServer\<close> up to the objects of the gRPC library: the listener may fail, a channel of negative
  capacity panics, and the limit of concurrent streams is the conversion to \<open>uint32\<close>.
\<close>

definition NewServer :: "(string \<Rightarrow> string option) \<Rightarrow> string \<Rightarrow> 'st Service \<Rightarrow> int64 \<Rightarrow> Metrics \<Rightarrow>
    (time \<Rightarrow> 'st \<Rightarrow> bool) \<Rightarrow> (string + 'st API \<times> uint32) option" where
  "NewServer listen addr s maxInFlight m bo =
     (case listen addr of
        Some err \<Rightarrow> Some (Inl err)
      | None \<Rightarrow> if sint maxInFlight < 0 then None
               else Some (Inr (\<lparr>svc = s, sem_len = 0, sem_cap = nat (sint maxInFlight), metrics = m, breakerOpen = bo\<rparr>,
                               ucast maxInFlight)))"

definition bid_of_pb :: "pb_PlaceBidRequest option \<Rightarrow> PlaceBidRequest" where
  "bid_of_pb req =
     \<lparr>AuctionID = GetAuctionId req, BidID = GetBidId req, UserID = GetUserId req, AmountCents = GetAmountCents req\<rparr>"

definition pb_of_result :: "PlaceBidResult \<Rightarrow> pb_PlaceBidResponse" where
  "pb_of_result res =
     \<lparr>pb_Accepted = Accepted res, pb_Duplicate = Duplicate res, pb_Reason = Reason res,
      pb_CurrentPriceCents = CurrentPrice res, pb_WinnerUserId = WinnerUserID res, pb_Version = Version res,
      pb_EventId = EventID res, pb_ServerTsMs = ServerUnixMilli res\<rparr>"

definition status_of :: "go_error \<Rightarrow> status" where
  "status_of err =
     (if err = DeadlineExceeded then (C_DeadlineExceeded, error_text err)
      else if err = ErrRedisBreakerOpen then (C_Unavailable, error_text err)
      else if err \<in> {ErrInvalidAuctionID, ErrInvalidBidID, ErrInvalidUserID, ErrInvalidAmount}
           then (C_InvalidArgument, error_text err)
      else (C_Internal, error_text err))"

text \<open>From the entry of the handler to the \<open>select\<close>: whether a token was taken.\<close>

definition place_enter :: "'st API \<Rightarrow> bool \<times> 'st API" where
  "place_enter a =
     (let a1 = a\<lparr>metrics := (metrics a)\<lparr>InFlightBids := InFlightBids (metrics a) + 1\<rparr>\<rparr>
      in if sem_len a1 < sem_cap a1 then (True, a1\<lparr>sem_len := sem_len a1 + 1\<rparr>)
         else (False, a1\<lparr>metrics := count_outcome ''overloaded'' (metrics a1)\<rparr>))"

definition server_overloaded :: status where
  "server_overloaded = (C_ResourceExhausted, ''server overloaded'')"

text \<open>What the handler does with the answer of the service: counting it, and the response or status.\<close>

definition answer_of :: "PlaceBidResult \<times> go_error option \<Rightarrow> status + pb_PlaceBidResponse" where
  "answer_of r = (case snd r of Some err \<Rightarrow> Inl (status_of err) | None \<Rightarrow> Inr (pb_of_result (fst r)))"

definition place_report :: "time \<Rightarrow> 'st API \<Rightarrow> 'st \<Rightarrow> PlaceBidResult \<times> go_error option \<Rightarrow> 'st API" where
  "place_report t a st r =
     (case snd r of
        Some err \<Rightarrow>
          (let m1 = count_outcome ''error'' (metrics a)
           in a\<lparr>metrics := m1\<lparr>RedisBreakerOpen := (if breakerOpen a t st then 1 else 0)\<rparr>\<rparr>)
      | None \<Rightarrow>
          a\<lparr>metrics := count_outcome (if Accepted (fst r) then ''accepted'' else ''rejected'') (metrics a)\<rparr>)"

definition place_body :: "bid_clock \<Rightarrow> time \<Rightarrow> 'st API \<Rightarrow> pb_PlaceBidRequest option \<Rightarrow> 'st \<Rightarrow>
    ('st API \<times> 'st \<times> (status + pb_PlaceBidResponse)) option" where
  "place_body clk t a req st =
     (case Service_PlaceBid clk (svc a) (bid_of_pb req) st of
        None \<Rightarrow> None
      | Some (st', r) \<Rightarrow> Some (place_report t a st' r, st', answer_of r))"

text \<open>The deferred calls: the token goes back if one was taken, the latency is observed.\<close>

definition place_exit :: "bool \<Rightarrow> 'st API \<Rightarrow> 'st API" where
  "place_exit entered a =
     (let a1 = (if entered then a\<lparr>sem_len := sem_len a - 1\<rparr> else a)
      in a1\<lparr>metrics := (metrics a1)\<lparr>BidLatencySeconds := BidLatencySeconds (metrics a1) + 1,
                                   InFlightBids := InFlightBids (metrics a1) - 1\<rparr>\<rparr>)"

definition API_PlaceBid :: "bid_clock \<Rightarrow> time \<Rightarrow> 'st API \<Rightarrow> pb_PlaceBidRequest option \<Rightarrow> 'st \<Rightarrow>
    ('st API \<times> 'st \<times> (status + pb_PlaceBidResponse)) option" where
  "API_PlaceBid clk t a req st =
     (case place_enter a of
        (False, a1) \<Rightarrow> Some (place_exit False a1, st, Inl server_overloaded)
      | (True, a1) \<Rightarrow>
          (case place_body clk t a1 req st of
             None \<Rightarrow> None
           | Some (a2, st', r) \<Rightarrow> Some (place_exit True a2, st', r)))"

text \<open>The product of the seconds and \<open>time.Second\<close> is an \<open>int64\<close>.\<close>

definition API_CreateAuction :: "time \<Rightarrow> time \<Rightarrow> 'st API \<Rightarrow> pb_CreateAuctionRequest option \<Rightarrow> 'st \<Rightarrow>
    ('st \<times> status option) option" where
  "API_CreateAuction now now' a req st =
     (let endAt = (if 0 < sint (GetDurationSec req) then Add now (GetDurationSec req * Second) else zero_time)
      in case Service_CreateAuction now' (svc a)
                \<lparr>NewAuctionID = GetNewAuctionId req, OpeningPriceCents = GetOpeningPriceCents req, EndAt = endAt\<rparr> st of
           None \<Rightarrow> None
         | Some (st', Some err) \<Rightarrow> Some (st', Some (C_InvalidArgument, error_text err))
         | Some (st', None) \<Rightarrow> Some (st', None))"

section \<open>Lemmas\<close>

lemma count_outcome_simps [simp]:
  "BidRequestsTotal (count_outcome l m) = (BidRequestsTotal m)(l := BidRequestsTotal m l + 1)"
  "BidLatencySeconds (count_outcome l m) = BidLatencySeconds m" "InFlightBids (count_outcome l m) = InFlightBids m"
  by (simp_all add: count_outcome_def)

lemma place_report_frame [simp]:
  "sem_len (place_report t a st r) = sem_len a" "sem_cap (place_report t a st r) = sem_cap a"
  "svc (place_report t a st r) = svc a"
  "InFlightBids (metrics (place_report t a st r)) = InFlightBids (metrics a)"
  "BidLatencySeconds (metrics (place_report t a st r)) = BidLatencySeconds (metrics a)"
  by (simp_all add: place_report_def Let_def split: option.split)

section \<open>Properties\<close>

text \<open>The label under which a response is counted.\<close>

definition outcome_label :: "status + pb_PlaceBidResponse \<Rightarrow> string" where
  "outcome_label r =
     (case r of
        Inl s \<Rightarrow> if s = server_overloaded then ''overloaded'' else ''error''
      | Inr p \<Rightarrow> if pb_Accepted p then ''accepted'' else ''rejected'')"

text \<open>
  (C18) A bid request to the API over a Redis store, with any driver and servers, always gets one
  answer and is counted once, under the label of that answer; the semaphore and the in-flight gauge
  are back at their values and one latency is observed. When the semaphore is full the answer is
  "overloaded" and the store is not touched; an incomplete request is answered \<open>InvalidArgument\<close>,
  also without touching the store.
\<close>

theorem api_bid_counted_once:
  assumes "redis_inv st" and "svc_store (svc a) = redis_Store C R"
  shows "\<exists>a' st' r. API_PlaceBid clk t a req st = Some (a', st', r) \<and> redis_inv st' \<and>
    BidRequestsTotal (metrics a') =
      (BidRequestsTotal (metrics a))(outcome_label r := BidRequestsTotal (metrics a) (outcome_label r) + 1) \<and>
    sem_len a' = sem_len a \<and> InFlightBids (metrics a') = InFlightBids (metrics a) \<and>
    BidLatencySeconds (metrics a') = BidLatencySeconds (metrics a) + 1 \<and>
    (sem_len a < sem_cap a \<longleftrightarrow> r \<noteq> Inl server_overloaded) \<and>
    (sem_cap a \<le> sem_len a \<longrightarrow> st' = st) \<and>
    (sem_len a < sem_cap a \<and> \<not> valid_bid (bid_of_pb req) \<longrightarrow> st' = st \<and> (\<exists>msg. r = Inl (C_InvalidArgument, msg)))"
proof (cases "sem_len a < sem_cap a")
  case False
  then show ?thesis
    using assms(1) by (simp add: API_PlaceBid_def place_enter_def place_exit_def Let_def outcome_label_def)
next
  case True
  let ?a1 = "snd (place_enter a)" and ?req = "bid_of_pb req"
  have e: "place_enter a = (True, ?a1)" "metrics ?a1 = (metrics a)\<lparr>InFlightBids := InFlightBids (metrics a) + 1\<rparr>"
    "sem_len ?a1 = sem_len a + 1" "svc ?a1 = svc a"
    using True by (simp_all add: place_enter_def Let_def)
  obtain st' res err where p: "Service_PlaceBid clk (svc a) ?req st = Some (st', res, err)" "redis_inv st'"
    using redis.service_place_returns [OF assms(1,2)] by force
  have inv: "\<not> valid_bid ?req \<Longrightarrow> st' = st \<and> (\<exists>e \<in> validation_errors. err = Some e)"
    using p(1) by (cases rule: Service_PlaceBid_cases [of ?req clk "svc a" st]) auto
  define r where "r = answer_of (res, err)"
  obtain m where b: "place_body clk t ?a1 req st = Some (?a1\<lparr>metrics := m\<rparr>, st', r)"
    "BidRequestsTotal m = (BidRequestsTotal (metrics a))(outcome_label r := BidRequestsTotal (metrics a) (outcome_label r) + 1)"
    "InFlightBids m = InFlightBids (metrics a) + 1" "BidLatencySeconds m = BidLatencySeconds (metrics a)"
    using p(1) e(2,4) unfolding place_body_def r_def
    by (cases err) (auto simp: answer_of_def place_report_def outcome_label_def pb_of_result_def Let_def status_of_def server_overloaded_def)
  have run: "API_PlaceBid clk t a req st = Some (place_exit True (?a1\<lparr>metrics := m\<rparr>), st', r)"
    unfolding API_PlaceBid_def by (subst e(1)) (simp add: b(1))
  have r: "r \<noteq> Inl server_overloaded" by (auto simp: r_def answer_of_def status_of_def server_overloaded_def split: option.splits)
  have v: "\<not> valid_bid ?req \<longrightarrow> st' = st \<and> (\<exists>msg. r = Inl (C_InvalidArgument, msg))"
    using inv by (auto simp: r_def answer_of_def status_of_def validation_errors_def)
  show ?thesis
    using True r v b(2-4) e(3) p(2)
    by (intro exI [of _ "place_exit True (?a1\<lparr>metrics := m\<rparr>)"] exI [of _ st'] exI [of _ r])
       (simp add: run place_exit_def)
qed

theorem api_bid_counted_once_witness:
  "\<exists>a' st' msg. API_PlaceBid (demo_clock 1000) 0
     \<lparr>svc = NewService (redis_Store direct_driver mem_redis) Minute, sem_len = 0, sem_cap = 1, metrics = NewMetrics,
      breakerOpen = (\<lambda>t st. BreakerOpen t (fst st))\<rparr> None (demo_store, demo_dbs) =
     Some (a', st', Inl (C_InvalidArgument, msg)) \<and> st' = (demo_store, demo_dbs) \<and>
     BidRequestsTotal (metrics a') ''error'' = 1"
proof -
  let ?a = "\<lparr>svc = NewService (redis_Store direct_driver mem_redis) Minute, sem_len = 0, sem_cap = 1, metrics = NewMetrics,
      breakerOpen = (\<lambda>t st. BreakerOpen t (fst st))\<rparr>"
  have "redis_inv (demo_store, demo_dbs)"
    by (simp add: redis_inv_def router_ok_def demo_store_def demo_config_def NewRedisStore_def)
  moreover have "svc_store (svc ?a) = redis_Store direct_driver mem_redis" by (simp add: NewService_def)
  moreover have "\<not> valid_bid (bid_of_pb None)" by (simp add: valid_bid_def bid_of_pb_def pb_getters)
  ultimately show ?thesis
    using api_bid_counted_once [of "(demo_store, demo_dbs)" ?a direct_driver mem_redis "demo_clock 1000" 0 None]
    by (auto simp: outcome_label_def server_overloaded_def NewMetrics_def)
qed

text \<open>
  (C39) What becomes of a positive duration, overflow included: a request for \<open>n\<close> seconds is refused if it
  names no auction, and otherwise the store is asked for exactly the auction of the request, with an end
  time at \<open>n\<close> times \<open>10 ^ 9\<close> nanoseconds from now, reduced to the range of an \<open>int64\<close> modulo \<open>2 ^ 64\<close>; the
  default duration is never used. So up to 9223372036 seconds the auction ends when it should. Every
  longer one ends too early, never more than 292 years from now, and from 9223372037 to 18446744073
  seconds it has ended before it is created.
\<close>

theorem auction_duration_wraps:
  fixes req now
  defines "n \<equiv> sint (GetDurationSec req)"
  defines "e \<equiv> now + ((n * 10 ^ 9 + 2 ^ 63) mod 2 ^ 64 - 2 ^ 63)"
  assumes "0 < n" and "0 \<le> now"
  shows "API_CreateAuction now now' a req st =
      (if GetNewAuctionId req = [] then Some (st, Some (C_InvalidArgument, error_text ErrInvalidAuctionID))
       else map_option (\<lambda>(st', err). (st', map_option (\<lambda>err. (C_InvalidArgument, error_text err)) err))
         (store_CreateAuction (svc_store (svc a))
            \<lparr>NewAuctionID = GetNewAuctionId req, OpeningPriceCents = GetOpeningPriceCents req, EndAt = e\<rparr> st)) \<and>
    (n \<le> 9223372036 \<longrightarrow> e = now + n * 10 ^ 9) \<and>
    (9223372036 < n \<longrightarrow> e < now + n * 10 ^ 9 \<and> e < now + 2 ^ 63) \<and>
    (9223372036 < n \<and> n \<le> 18446744073 \<longrightarrow> e < now)"
proof -
  have "Add now (GetDurationSec req * Second) = e"
    by (simp add: Add_def e_def n_def go_durations sint_word_ariths signed_take_bit_eq_take_bit_shift take_bit_eq_mod)
  moreover have "\<not> IsZero e"
    using assms(4) by (simp add: IsZero_def zero_time_def e_def)
  ultimately have "API_CreateAuction now now' a req st =
      (if GetNewAuctionId req = [] then Some (st, Some (C_InvalidArgument, error_text ErrInvalidAuctionID))
       else map_option (\<lambda>(st', err). (st', map_option (\<lambda>err. (C_InvalidArgument, error_text err)) err))
         (store_CreateAuction (svc_store (svc a))
            \<lparr>NewAuctionID = GetNewAuctionId req, OpeningPriceCents = GetOpeningPriceCents req, EndAt = e\<rparr> st))"
    using assms(3) unfolding n_def
    by (simp add: API_CreateAuction_def Service_CreateAuction_def Let_def split: option.split)
  moreover have "n \<le> 9223372036 \<longrightarrow> e = now + n * 10 ^ 9" using assms(3) by (simp add: e_def)
  moreover have "e < now + 2 ^ 63"
    using pos_mod_bound [of "2 ^ 64 :: int" "n * 10 ^ 9 + 2 ^ 63"] by (simp add: e_def)
  moreover from this have "9223372036 < n \<longrightarrow> e < now + n * 10 ^ 9" by simp
  moreover have "9223372036 < n \<and> n \<le> 18446744073 \<longrightarrow> e < now"
  proof
    assume n: "9223372036 < n \<and> n \<le> 18446744073"
    then have "(n * 10 ^ 9 + 2 ^ 63 - 2 ^ 64) mod 2 ^ 64 = n * 10 ^ 9 + 2 ^ 63 - 2 ^ 64" by (intro mod_pos_pos_trivial) simp_all
    then have "(n * 10 ^ 9 + 2 ^ 63) mod 2 ^ 64 = n * 10 ^ 9 + 2 ^ 63 - 2 ^ 64"
      by (metis mod_diff_right_eq mod_self diff_zero)
    with n show "e < now" by (simp add: e_def)
  qed
  ultimately show ?thesis by blast
qed

theorem auction_duration_wraps_witness:
  "API_CreateAuction 1000 1000
     \<lparr>svc = NewService (redis_Store direct_driver mem_redis) Minute, sem_len = 0, sem_cap = 1, metrics = NewMetrics,
      breakerOpen = (\<lambda>t st. False)\<rparr>
     (Some \<lparr>pb_NewAuctionId = ''a1'', pb_OpeningPriceCents = 100, pb_DurationSec = 20000000000\<rparr>) (demo_store, demo_dbs) =
   map_option (\<lambda>(st', err). (st', map_option (\<lambda>err. (C_InvalidArgument, error_text err)) err))
     (store_CreateAuction (redis_Store direct_driver mem_redis)
       \<lparr>NewAuctionID = ''a1'', OpeningPriceCents = 100, EndAt = 1000 + 1553255926290448384\<rparr> (demo_store, demo_dbs))"
  using auction_duration_wraps [of "Some \<lparr>pb_NewAuctionId = ''a1'', pb_OpeningPriceCents = 100, pb_DurationSec = 20000000000\<rparr>"
      1000 1000 "\<lparr>svc = NewService (redis_Store direct_driver mem_redis) Minute, sem_len = 0, sem_cap = 1, metrics = NewMetrics,
      breakerOpen = (\<lambda>t st. False)\<rparr>" "(demo_store, demo_dbs)"]
  by (simp add: pb_getters NewService_def)

text \<open>
  (C40) A bid on an auction that does not exist is answered with the status \<open>Internal\<close> and the text
  \<open>auction_not_found\<close>, not with a response that carries this reason; the breaker does not count it.
\<close>

theorem unknown_auction_is_internal_error:
  fixes req clk s
  defines "breq \<equiv> bid_of_pb req"
  assumes "redis_backend R valid hash stream ttl is_hash is_stream before tick C"
    and "svc_store (svc a) = redis_Store C R" and "sem_len a < sem_cap a"
    and "store_ok valid is_hash is_stream s dbs" and "\<not> BreakerOpen (at_allow clk) s"
    and "good_state (Suc n) (av_state (store_view hash stream s dbs (AuctionID breq)))"
    and "plain_bid (sint (Milliseconds (idemTTL s))) (sint (UnixMilli (at_run clk))) breq"
    and "valid_bid breq"
    and "auction_at hash stream s dbs (AuctionID breq) = \<lparr>a_rec = None, a_results = Map.empty, a_log = []\<rparr>"
  shows "\<exists>a' s' dbs'. API_PlaceBid clk t a req (s, dbs) = Some (a', (s', dbs'), Inl (C_Internal, ''auction_not_found'')) \<and>
    (\<forall>u. \<not> BreakerOpen u s') \<and>
    auction_at hash stream s' dbs' (AuctionID breq) = auction_at hash stream s dbs (AuctionID breq)"
proof -
  obtain s' dbs' eid where p: "RedisStore_PlaceBid C R clk s breq dbs = Some (s', dbs', snd (place_spec
      (sint (Milliseconds (idemTTL s))) (sint (UnixMilli (at_run clk))) breq eid (auction_at hash stream s dbs (AuctionID breq))))"
    "auction_at hash stream s' dbs' (AuctionID breq) = fst (place_spec (sint (Milliseconds (idemTTL s)))
      (sint (UnixMilli (at_run clk))) breq eid (auction_at hash stream s dbs (AuctionID breq)))"
    "\<forall>u. \<not> BreakerOpen u s'"
    using redis_backend.PlaceBid_refines [OF assms(2,5-8)] by blast
  have "Service_PlaceBid clk (svc a) breq (s, dbs) = store_PlaceBid (svc_store (svc a)) clk breq (s, dbs)"
    using assms(9) by (cases rule: Service_PlaceBid_cases [of breq clk "svc a" "(s, dbs)"]) auto
  then have "\<exists>res. Service_PlaceBid clk (svc a) breq (s, dbs) = Some ((s', dbs'), res, Some (ErrReason ''auction_not_found''))"
    using p(1) assms(3,10) by (simp add: redis_Store_def place_spec_def)
  moreover have "fst (place_enter a)" "svc (snd (place_enter a)) = svc a"
    using assms(4) by (simp_all add: place_enter_def Let_def)
  ultimately show ?thesis
    using p(2,3) assms(10)
    by (cases "place_enter a") (auto simp: API_PlaceBid_def place_body_def answer_of_def breq_def status_of_def place_spec_def)
qed

theorem unknown_auction_is_internal_error_witness:
  "\<exists>a' s' dbs'. API_PlaceBid (demo_clock 1000) 0
     \<lparr>svc = NewService (redis_Store direct_driver mem_redis) Minute, sem_len = 0, sem_cap = 1, metrics = NewMetrics,
      breakerOpen = (\<lambda>t st. BreakerOpen t (fst st))\<rparr>
     (Some \<lparr>pb_AuctionId = ''nope'', pb_BidId = ''b1'', pb_UserId = ''ann'', pb_AmountCents = 150\<rparr>) (demo_store, demo_dbs) =
     Some (a', (s', dbs'), Inl (C_Internal, ''auction_not_found''))"
proof -
  let ?a = "\<lparr>svc = NewService (redis_Store direct_driver mem_redis) Minute, sem_len = 0, sem_cap = 1, metrics = NewMetrics,
      breakerOpen = (\<lambda>t st. BreakerOpen t (fst st))\<rparr>"
  let ?req = "Some \<lparr>pb_AuctionId = ''nope'', pb_BidId = ''b1'', pb_UserId = ''ann'', pb_AmountCents = 150\<rparr>"
  have rdy: "mem_ready (Suc 0) demo_store demo_dbs" by (rule demo_ready) simp
  have h: "svc_store (svc ?a) = redis_Store direct_driver mem_redis" "sem_len ?a < sem_cap ?a"
    "store_ok mem_wf mem_is_hash mem_is_stream demo_store demo_dbs" "\<not> BreakerOpen (at_allow (demo_clock 1000)) demo_store"
    "good_state (Suc 0) (av_state (store_view mem_hash mem_stream demo_store demo_dbs (AuctionID (bid_of_pb ?req))))"
    using rdy by (simp_all add: ready_def NewService_def)
  have g: "plain_bid (sint (Milliseconds (idemTTL demo_store))) (sint (UnixMilli (at_run (demo_clock 1000)))) (bid_of_pb ?req)"
    "valid_bid (bid_of_pb ?req)"
    by (simp_all add: plain_bid_def valid_bid_def exact14_def bid_of_pb_def pb_getters)
  have e: "auction_at mem_hash mem_stream demo_store demo_dbs (AuctionID (bid_of_pb ?req)) =
      \<lparr>a_rec = None, a_results = Map.empty, a_log = []\<rparr>"
    by (simp add: auction_at_def abs_auction_def demo_view abs_state_def fun_eq_iff)
  from unknown_auction_is_internal_error [OF memb.redis_backend_axioms h g e, of 0] show ?thesis by blast
qed

end
