(* ===== verification/Json.thy ===== *)
theory Json
  imports GoStd
begin

text \<open>
  What \<open>encoding/json\<close> does with the message struct of \<open>internal/transport/ws/hub.go\<close>: strings are
  byte sequences, quoted with the escapes of \<open>json.Marshal\<close> (quotes, backslashes, control
  characters, the characters special in HTML, U+2028 and U+2029, and the replacement character for
  bytes that are not valid UTF-8); fields tagged \<open>omitempty\<close> are left out when zero. A reader of such objects shows what a spectator
  gets back.
\<close>

section \<open>UTF-8\<close>

definition byte :: "char \<Rightarrow> nat" where
  "byte c = of_char c"

definition cont_in :: "nat \<Rightarrow> nat \<Rightarrow> string \<Rightarrow> nat \<Rightarrow> bool" where
  "cont_in lo hi s i \<longleftrightarrow> i < length s \<and> lo \<le> byte (s ! i) \<and> byte (s ! i) \<le> hi"

text \<open>The length of the valid encoding a string starts with, 0 if it starts with none.\<close>

definition rune_len :: "string \<Rightarrow> nat" where
  "rune_len s =
     (if s = [] then 0
      else let b = byte (hd s); cont = cont_in 0x80 0xBF s
           in if b < 0x80 then 1
              else if 0xC2 \<le> b \<and> b \<le> 0xDF then (if cont 1 then 2 else 0)
              else if 0xE0 \<le> b \<and> b \<le> 0xEF then
                (if cont_in (if b = 0xE0 then 0xA0 else 0x80) (if b = 0xED then 0x9F else 0xBF) s 1 \<and> cont 2 then 3 else 0)
              else if 0xF0 \<le> b \<and> b \<le> 0xF4 then
                (if cont_in (if b = 0xF0 then 0x90 else 0x80) (if b = 0xF4 then 0x8F else 0xBF) s 1 \<and> cont 2 \<and> cont 3
                 then 4 else 0)
              else 0)"

lemma rune_len_le: "rune_len s \<le> length s"
  by (auto simp: rune_len_def cont_in_def Let_def Suc_le_eq)

section \<open>Strings\<close>

definition hex_digit :: "nat \<Rightarrow> char" where
  "hex_digit n = (if n < 10 then char_of (48 + n) else char_of (87 + n))"

definition escape_byte :: "char \<Rightarrow> string" where
  "escape_byte c =
     (let b = byte c
      in if c = CHR 0x22 then [CHR 0x5C, CHR 0x22]
         else if c = CHR 0x5C then [CHR 0x5C, CHR 0x5C]
         else if b = 8 then [CHR 0x5C, CHR ''b''] else if b = 12 then [CHR 0x5C, CHR ''f'']
         else if b = 10 then [CHR 0x5C, CHR ''n''] else if b = 13 then [CHR 0x5C, CHR ''r'']
         else if b = 9 then [CHR 0x5C, CHR ''t'']
         else if b < 32 \<or> c = CHR ''<'' \<or> c = CHR ''>'' \<or> c = CHR ''&''
              then CHR 0x5C # ''u00'' @ [hex_digit (b div 16), hex_digit (b mod 16)]
         else [c])"

function escape :: "string \<Rightarrow> string" where
  "escape s =
     (if s = [] then []
      else let n = rune_len s; r = take n s
           in if n = 0 then CHR 0x5C # ''ufffd'' @ escape (tl s)
              else if n = 1 then escape_byte (hd s) @ escape (tl s)
              else if r = [CHR 0xE2, CHR 0x80, CHR 0xA8] then CHR 0x5C # ''u2028'' @ escape (drop n s)
              else if r = [CHR 0xE2, CHR 0x80, CHR 0xA9] then CHR 0x5C # ''u2029'' @ escape (drop n s)
              else r @ escape (drop n s))"
  by pat_completeness auto
termination
  by (relation "measure length") auto

declare escape.simps [simp del]

definition json_string :: "string \<Rightarrow> string" where
  "json_string s = CHR 0x22 # escape s @ [CHR 0x22]"

section \<open>The message\<close>

record Message =
  msg_Type :: string
  msg_AuctionID :: string
  msg_BidID :: string
  msg_UserID :: string
  msg_Amount :: int64
  msg_Version :: int64
  msg_Timestamp :: int64

definition json_field :: "string \<Rightarrow> string \<Rightarrow> string" where
  "json_field name v = json_string name @ CHR '':'' # v"

fun join_fields :: "string list \<Rightarrow> string" where
  "join_fields [] = []"
| "join_fields [f] = f"
| "join_fields (f # fs) = f @ CHR '','' # join_fields fs"

definition Marshal :: "Message \<Rightarrow> string" where
  "Marshal m =
     CHR ''{'' # join_fields
       ([json_field ''type'' (json_string (msg_Type m)), json_field ''auction_id'' (json_string (msg_AuctionID m))]
        @ (if msg_BidID m = [] then [] else [json_field ''bid_id'' (json_string (msg_BidID m))])
        @ (if msg_UserID m = [] then [] else [json_field ''user_id'' (json_string (msg_UserID m))])
        @ (if msg_Amount m = 0 then [] else [json_field ''amount_cents'' (FormatInt (msg_Amount m))])
        @ (if msg_Version m = 0 then [] else [json_field ''version'' (FormatInt (msg_Version m))])
        @ (if msg_Timestamp m = 0 then [] else [json_field ''timestamp_ms'' (FormatInt (msg_Timestamp m))]))
     @ ''}''"

section \<open>Reading a message back\<close>

text \<open>The code point of four hexadecimal digits, and the UTF-8 encoding of one that is no surrogate.\<close>

definition hex_val :: "char \<Rightarrow> nat option" where
  "hex_val c =
     (let b = byte c
      in if 48 \<le> b \<and> b \<le> 57 then Some (b - 48) else if 97 \<le> b \<and> b \<le> 102 then Some (b - 87)
         else if 65 \<le> b \<and> b \<le> 70 then Some (b - 55) else None)"

fun hex_vals :: "nat \<Rightarrow> string \<Rightarrow> nat option" where
  "hex_vals n [] = Some n"
| "hex_vals n (c # cs) = (case hex_val c of None \<Rightarrow> None | Some d \<Rightarrow> hex_vals (16 * n + d) cs)"

definition utf8 :: "nat \<Rightarrow> string option" where
  "utf8 n =
     (if n < 0x80 then Some [char_of n]
      else if n < 0x800 then Some [char_of (0xC0 + n div 64), char_of (0x80 + n mod 64)]
      else if 0xD800 \<le> n \<and> n \<le> 0xDFFF then None
      else Some [char_of (0xE0 + n div 4096), char_of (0x80 + n div 64 mod 64), char_of (0x80 + n mod 64)])"

definition simple_escape :: "char \<Rightarrow> char option" where
  "simple_escape =
     map_of [(CHR 0x22, CHR 0x22), (CHR 0x5C, CHR 0x5C), (CHR ''/'', CHR ''/''), (CHR ''b'', CHR 0x08),
             (CHR ''f'', CHR 0x0C), (CHR ''n'', CHR 0x0A), (CHR ''r'', CHR 0x0D), (CHR ''t'', CHR 0x09)]"

text \<open>The rest of a string after its opening quote: what it stands for, and what follows the closing quote.\<close>

fun read_body :: "string \<Rightarrow> (string \<times> string) option" where
  "read_body [] = None"
| "read_body (c # cs) =
     (if c = CHR 0x22 then Some ([], cs)
      else if c = CHR 0x5C then
        (case cs of
           [] \<Rightarrow> None
         | d # ds \<Rightarrow>
             if d = CHR ''u'' then
               (case ds of
                  h1 # h2 # h3 # h4 # rest \<Rightarrow>
                    (case Option.bind (hex_vals 0 [h1, h2, h3, h4]) utf8 of
                       None \<Rightarrow> None
                     | Some u \<Rightarrow> map_option (\<lambda>(a, b). (u @ a, b)) (read_body rest))
                | _ \<Rightarrow> None)
             else
               (case simple_escape d of
                  None \<Rightarrow> None
                | Some e \<Rightarrow> map_option (\<lambda>(a, b). (e # a, b)) (read_body ds)))
      else if byte c < 32 then None
      else map_option (\<lambda>(a, b). (c # a, b)) (read_body cs))"

text \<open>An object of strings and integers, written without blanks, and the message in it.\<close>

datatype json_value = JString string | JInt int64

definition read_value :: "string \<Rightarrow> (json_value \<times> string) option" where
  "read_value s =
     (case s of
        [] \<Rightarrow> None
      | c # cs \<Rightarrow>
          if c = CHR 0x22 then map_option (\<lambda>(a, b). (JString a, b)) (read_body cs)
          else let num = takeWhile (\<lambda>c. c \<noteq> CHR '','' \<and> c \<noteq> CHR ''}'') s
               in if snd (ParseInt num) = None then Some (JInt (fst (ParseInt num)), drop (length num) s) else None)"

fun read_fields :: "nat \<Rightarrow> string \<Rightarrow> ((string \<times> json_value) list \<times> string) option" where
  "read_fields 0 s = None"
| "read_fields (Suc n) s =
     (case s of
        c # cs \<Rightarrow>
          if c \<noteq> CHR 0x22 then None
          else (case read_body cs of
                  Some (name, d # ds) \<Rightarrow>
                    if d \<noteq> CHR '':'' then None
                    else (case read_value ds of
                            Some (v, e # es) \<Rightarrow>
                              if e = CHR ''}'' then Some ([(name, v)], es)
                              else if e = CHR '','' then
                                map_option (\<lambda>(fs, r). ((name, v) # fs, r)) (read_fields n es)
                              else None
                          | _ \<Rightarrow> None)
                | _ \<Rightarrow> None)
      | [] \<Rightarrow> None)"

definition string_of :: "(string \<times> json_value) list \<Rightarrow> string \<Rightarrow> string" where
  "string_of fs k = (case map_of fs k of Some (JString s) \<Rightarrow> s | _ \<Rightarrow> [])"

definition int_of :: "(string \<times> json_value) list \<Rightarrow> string \<Rightarrow> int64" where
  "int_of fs k = (case map_of fs k of Some (JInt i) \<Rightarrow> i | _ \<Rightarrow> 0)"

definition Unmarshal :: "string \<Rightarrow> Message option" where
  "Unmarshal s =
     (case s of
        [] \<Rightarrow> None
      | c # cs \<Rightarrow>
          if c \<noteq> CHR ''{'' then None
          else (case read_fields (length cs) cs of
                  Some (fs, []) \<Rightarrow>
                    Some \<lparr>msg_Type = string_of fs ''type'', msg_AuctionID = string_of fs ''auction_id'',
                          msg_BidID = string_of fs ''bid_id'', msg_UserID = string_of fs ''user_id'',
                          msg_Amount = int_of fs ''amount_cents'', msg_Version = int_of fs ''version'',
                          msg_Timestamp = int_of fs ''timestamp_ms''\<rparr>
                | _ \<Rightarrow> None))"

text \<open>A string with the replacement character U+FFFD for every byte that is not part of valid UTF-8.\<close>

function to_valid :: "string \<Rightarrow> string" where
  "to_valid s =
     (if s = [] then []
      else if rune_len s = 0 then [CHR 0xEF, CHR 0xBF, CHR 0xBD] @ to_valid (tl s)
      else take (rune_len s) s @ to_valid (drop (rune_len s) s))"
  by pat_completeness auto
termination
  by (relation "measure length") auto

declare to_valid.simps [simp del]

definition valid_message :: "Message \<Rightarrow> Message" where
  "valid_message m =
     m\<lparr>msg_Type := to_valid (msg_Type m), msg_AuctionID := to_valid (msg_AuctionID m),
       msg_BidID := to_valid (msg_BidID m), msg_UserID := to_valid (msg_UserID m)\<rparr>"

section \<open>Lemmas\<close>

text \<open>A piece of a body that is read as the text \<open>t\<close>, whatever follows.\<close>

definition reads_piece :: "string \<Rightarrow> string \<Rightarrow> bool" where
  "reads_piece p t \<longleftrightarrow> (\<forall>r. read_body (p @ r) = map_option (\<lambda>(a, b). (t @ a, b)) (read_body r))"

lemma reads_piece_append: "reads_piece p t \<Longrightarrow> reads_piece q u \<Longrightarrow> reads_piece (p @ q) (t @ u)"
  unfolding reads_piece_def by (auto simp: option.map_comp comp_def split_def)

lemma reads_piece_Nil: "reads_piece [] []"
  by (simp add: reads_piece_def option.map_ident split_def)

lemma reads_piece_plain:
  assumes "\<forall>c \<in> set p. c \<noteq> CHR 0x22 \<and> c \<noteq> CHR 0x5C \<and> 32 \<le> byte c"
  shows "reads_piece p p"
  using assms
proof (induction p)
  case Nil
  then show ?case by (simp add: reads_piece_Nil)
next
  case (Cons c p)
  then show ?case by (auto simp: reads_piece_def option.map_comp comp_def split_def)
qed

lemma reads_piece_simple: "d \<noteq> CHR ''u'' \<Longrightarrow> simple_escape d = Some e \<Longrightarrow> reads_piece [CHR 0x5C, d] [e]"
  by (simp add: reads_piece_def)

lemma reads_piece_hex:
  assumes "hex_vals 0 [h1, h2, h3, h4] = Some n" and "utf8 n = Some u"
  shows "reads_piece (CHR 0x5C # CHR ''u'' # [h1, h2, h3, h4]) u"
  using assms by (simp add: reads_piece_def)

lemma byte_lt: "byte c < 256"
  by (simp add: byte_def)

lemma byte_inject: "byte c = byte d \<longleftrightarrow> c = d"
  by (simp add: byte_def)

lemma char_of_byte [simp]: "char_of (byte c) = c"
  by (simp add: byte_def)

lemma hex_val_digit: "n < 16 \<Longrightarrow> hex_val (hex_digit n) = Some n"
  by (simp add: hex_val_def hex_digit_def byte_def)

lemma reads_escape_byte:
  assumes "byte c < 0x80"
  shows "reads_piece (escape_byte c) [c]"
proof -
  have "byte c div 16 < 16" "byte c mod 16 < 16" "16 * (byte c div 16) + byte c mod 16 = byte c"
    using assms by simp_all
  moreover have "hex_val (CHR ''0'') = Some 0" by code_simp
  ultimately have "hex_vals 0 [CHR ''0'', CHR ''0'', hex_digit (byte c div 16), hex_digit (byte c mod 16)] = Some (byte c)"
    by (simp add: hex_val_digit)
  then have six: "reads_piece (CHR 0x5C # ''u00'' @ [hex_digit (byte c div 16), hex_digit (byte c mod 16)]) [c]"
    using reads_piece_hex [of "CHR ''0''" "CHR ''0''" "hex_digit (byte c div 16)" "hex_digit (byte c mod 16)" "byte c" "[c]"] assms
    by (simp add: utf8_def)
  show ?thesis
  proof (cases "c = CHR 0x22 \<or> c = CHR 0x5C \<or> byte c \<in> {8, 9, 10, 12, 13}")
    case True
    then have "c \<in> {CHR 0x22, CHR 0x5C, CHR 0x08, CHR 0x09, CHR 0x0A, CHR 0x0C, CHR 0x0D}"
      by (auto simp: byte_def intro: of_char_eqI)
    then show ?thesis
      by (auto simp: escape_byte_def byte_def simple_escape_def intro!: reads_piece_simple)
  next
    case False
    then have plain: "reads_piece [c] [c]" if "32 \<le> byte c" using that by (intro reads_piece_plain) simp
    from False six plain show ?thesis by (auto simp: escape_byte_def Let_def)
  qed
qed

lemma high_bytes:
  assumes "1 < rune_len s" "c \<in> set (take (rune_len s) s)"
  shows "128 \<le> byte c"
proof -
  obtain i where i: "i < rune_len s" "i < length s" "c = s ! i"
    using assms(2) by (auto simp: in_set_conv_nth)
  then have "i \<in> {0, 1, 2, 3}" and "s \<noteq> []"
    by (auto simp: rune_len_def Let_def split: if_splits)
  with assms(1) i show ?thesis
    by (auto simp: rune_len_def cont_in_def Let_def hd_conv_nth numeral_2_eq_2 numeral_3_eq_3 split: if_splits)
qed

lemma rune_len_one: "rune_len s = 1 \<Longrightarrow> s \<noteq> [] \<and> byte (hd s) < 0x80"
  by (auto simp: rune_len_def Let_def split: if_splits)

lemma replacement_bytes:
  "char_of (239 :: nat) = CHR 0xEF" "char_of (191 :: nat) = CHR 0xBF" "char_of (189 :: nat) = CHR 0xBD"
  "char_of (226 :: nat) = CHR 0xE2" "char_of (128 :: nat) = CHR 0x80" "char_of (168 :: nat) = CHR 0xA8"
  "char_of (169 :: nat) = CHR 0xA9"
  by code_simp+

lemma reads_literals:
  "reads_piece (CHR 0x5C # ''ufffd'') [CHR 0xEF, CHR 0xBF, CHR 0xBD]"
  "reads_piece (CHR 0x5C # ''u2028'') [CHR 0xE2, CHR 0x80, CHR 0xA8]"
  "reads_piece (CHR 0x5C # ''u2029'') [CHR 0xE2, CHR 0x80, CHR 0xA9]"
  using reads_piece_hex [of "CHR ''f''" "CHR ''f''" "CHR ''f''" "CHR ''d''" 65533]
    reads_piece_hex [of "CHR ''2''" "CHR ''0''" "CHR ''2''" "CHR ''8''" 8232]
    reads_piece_hex [of "CHR ''2''" "CHR ''0''" "CHR ''2''" "CHR ''9''" 8233]
  by (simp_all add: hex_val_def byte_def utf8_def replacement_bytes)

lemma reads_escape: "reads_piece (escape s) (to_valid s)"
proof (induction s rule: measure_induct_rule [of length])
  case (less s)
  let ?n = "rune_len s" and ?r = "take (rune_len s) s"
  show ?case
  proof (cases "s = []")
    case True
    then show ?thesis by (simp add: escape.simps to_valid.simps reads_piece_Nil)
  next
    case ne: False
    consider "?n = 0" | "?n = 1" | "1 < ?n" by linarith
    then show ?thesis
    proof cases
      case 1
      have "reads_piece (escape (tl s)) (to_valid (tl s))" using ne by (intro less.IH) simp
      from reads_piece_append [OF reads_literals(1) this] 1 ne show ?thesis
        by (simp add: escape.simps [of s] to_valid.simps [of s])
    next
      case 2
      have "reads_piece (escape (tl s)) (to_valid (tl s))" using ne by (intro less.IH) simp
      moreover obtain c t where s: "s = c # t" using ne by (cases s) simp_all
      ultimately have "reads_piece (escape_byte c @ escape t) (c # to_valid t)"
        using reads_piece_append [OF reads_escape_byte] rune_len_one [OF 2] by fastforce
      with 2 s show ?thesis by (simp add: escape.simps [of "c # t"] to_valid.simps [of "c # t"] Let_def)
    next
      case 3
      have r: "reads_piece ?r ?r"
        using high_bytes [OF 3] by (intro reads_piece_plain) (force simp: byte_def)
      have "reads_piece (escape (drop ?n s)) (to_valid (drop ?n s))" using ne 3 by (intro less.IH) simp
      from reads_piece_append [OF r this] reads_piece_append [OF reads_literals(2) this]
        reads_piece_append [OF reads_literals(3) this] ne 3 show ?thesis
        by (auto simp: escape.simps [of s] to_valid.simps [of s] Let_def)
    qed
  qed
qed

lemma read_json_string: "read_body (tl (json_string s) @ r) = Some (to_valid s, r)"
  using reads_escape [of s] by (simp add: json_string_def reads_piece_def)

lemma to_valid_ascii: "\<forall>c \<in> set s. byte c < 0x80 \<Longrightarrow> to_valid s = s"
proof (induction s)
  case (Cons c s)
  then have "rune_len (c # s) = 1" by (simp add: rune_len_def)
  with Cons show ?case by (simp add: to_valid.simps [of "c # s"])
qed (simp add: to_valid.simps)

text \<open>Fields are read one after the other.\<close>

definition stops :: "string \<Rightarrow> bool" where
  "stops r \<longleftrightarrow> (\<exists>c cs. r = c # cs \<and> (c = CHR '','' \<or> c = CHR ''}''))"

definition reads_value :: "string \<Rightarrow> json_value \<Rightarrow> bool" where
  "reads_value p v \<longleftrightarrow> (\<forall>r. stops r \<longrightarrow> read_value (p @ r) = Some (v, r))"

lemma reads_value_string: "reads_value (json_string s) (JString (to_valid s))"
  using read_json_string [of s] by (simp add: reads_value_def read_value_def json_string_def)

lemma FormatInt_chars:
  assumes "c \<in> set (FormatInt w)"
  shows "is_digit c \<or> c = CHR ''-''"
  using assms show_nat_digits by (auto simp: FormatInt_def show_int_def split: if_splits)

lemma reads_value_int: "reads_value (FormatInt w) (JInt w)"
  unfolding reads_value_def
proof (intro allI impI)
  fix r
  assume "stops r"
  then obtain c cs where r: "r = c # cs" "c = CHR '','' \<or> c = CHR ''}''" by (auto simp: stops_def)
  have plain: "d \<noteq> CHR '','' \<and> d \<noteq> CHR ''}'' \<and> d \<noteq> CHR 0x22" if "d \<in> set (FormatInt w)" for d
    using FormatInt_chars [OF that] by (auto simp: is_digit_def)
  then have t: "takeWhile (\<lambda>c. c \<noteq> CHR '','' \<and> c \<noteq> CHR ''}'') (FormatInt w @ r) = FormatInt w"
    using r by (subst takeWhile_append2) auto
  obtain d ds where "FormatInt w = d # ds" by (cases "FormatInt w") (simp_all add: FormatInt_def)
  moreover from this have "d \<noteq> CHR 0x22" using plain [of d] by simp
  ultimately show "read_value (FormatInt w @ r) = Some (JInt w, r)"
    using t ParseInt_FormatInt [of w] unfolding read_value_def by (simp add: Let_def)
qed

lemma read_fields_join:
  assumes "list_all2 (\<lambda>f (k, v). \<exists>name p. f = json_field name p \<and> k = to_valid name \<and> reads_value p v) fs kvs"
    and "fs \<noteq> []" and "length fs \<le> n"
  shows "read_fields n (join_fields fs @ CHR ''}'' # r) = Some (kvs, r)"
  using assms
proof (induction fs kvs arbitrary: n rule: list_all2_induct)
  case (Cons f fs kv kvs)
  obtain k v name p where kv: "kv = (k, v)" "f = json_field name p" "k = to_valid name" "reads_value p v"
    using Cons.hyps(1) by (auto split: prod.splits)
  obtain m where m: "n = Suc m" "length fs \<le> m" using Cons.prems(2) by (cases n) auto
  have f: "f = CHR 0x22 # tl (json_string name) @ CHR '':'' # p" by (simp add: kv(2) json_field_def json_string_def)
  show ?case
  proof (cases fs)
    case Nil
    then have "kvs = []" using Cons.hyps(2) by simp
    moreover have "read_value (p @ CHR ''}'' # r) = Some (v, CHR ''}'' # r)"
      using kv(4) by (simp add: reads_value_def stops_def)
    ultimately show ?thesis
      using Nil m(1) kv(1,3) read_json_string [of name "CHR '':'' # p @ CHR ''}'' # r"] by (simp add: f)
  next
    case (Cons g gs)
    have j: "join_fields (f # fs) = f @ CHR '','' # join_fields fs" using Cons by simp
    have "read_value (p @ CHR '','' # join_fields fs @ CHR ''}'' # r) = Some (v, CHR '','' # join_fields fs @ CHR ''}'' # r)"
      using kv(4) by (simp add: reads_value_def stops_def)
    moreover have "read_fields m (join_fields fs @ CHR ''}'' # r) = Some (kvs, r)"
      using Cons.IH [of m] m(2) Cons by simp
    ultimately show ?thesis
      using m(1) kv(1,3) read_json_string [of name "CHR '':'' # p @ CHR '','' # join_fields fs @ CHR ''}'' # r"]
      unfolding j by (simp add: f)
  qed
qed simp

text \<open>The fields of a message in the order in which they are written.\<close>

definition message_fields :: "Message \<Rightarrow> (string \<times> json_value) list" where
  "message_fields m =
     [(''type'', JString (msg_Type m)), (''auction_id'', JString (msg_AuctionID m))]
     @ (if msg_BidID m = [] then [] else [(''bid_id'', JString (msg_BidID m))])
     @ (if msg_UserID m = [] then [] else [(''user_id'', JString (msg_UserID m))])
     @ (if msg_Amount m = 0 then [] else [(''amount_cents'', JInt (msg_Amount m))])
     @ (if msg_Version m = 0 then [] else [(''version'', JInt (msg_Version m))])
     @ (if msg_Timestamp m = 0 then [] else [(''timestamp_ms'', JInt (msg_Timestamp m))])"

fun json_piece :: "json_value \<Rightarrow> string" where
  "json_piece (JString s) = json_string s"
| "json_piece (JInt i) = FormatInt i"

fun valid_value :: "json_value \<Rightarrow> json_value" where
  "valid_value (JString s) = JString (to_valid s)"
| "valid_value (JInt i) = JInt i"

lemma Marshal_fields:
  "Marshal m = CHR ''{'' # join_fields (map (\<lambda>(k, v). json_field k (json_piece v)) (message_fields m)) @ CHR ''}'' # []"
  by (simp only: Marshal_def message_fields_def map_append list.map if_distrib [of "map _"] prod.case json_piece.simps
      append.simps)

lemma reads_json_piece: "reads_value (json_piece v) (valid_value v)"
  by (cases v) (simp_all add: reads_value_string reads_value_int)

lemma message_keys:
  assumes "(k, v) \<in> set (message_fields m)"
  shows "to_valid k = k"
proof (rule to_valid_ascii)
  have k: "k \<in> set [''type'', ''auction_id'', ''bid_id'', ''user_id'', ''amount_cents'', ''version'', ''timestamp_ms'']"
    using assms by (auto simp: message_fields_def split: if_splits)
  have "list_all (list_all (\<lambda>c. byte c < 0x80))
      [''type'', ''auction_id'', ''bid_id'', ''user_id'', ''amount_cents'', ''version'', ''timestamp_ms'']"
    by code_simp
  from bspec [OF iffD1 [OF list_all_iff this] k] show "\<forall>c \<in> set k. byte c < 0x80"
    by (rule iffD1 [OF list_all_iff])
qed

lemma read_message_fields:
  "read_fields (length (message_fields m) + n)
     (join_fields (map (\<lambda>(k, v). json_field k (json_piece v)) (message_fields m)) @ CHR ''}'' # r) =
   Some (map (apsnd valid_value) (message_fields m), r)"
proof (rule read_fields_join)
  show "list_all2 (\<lambda>f (k, v). \<exists>name p. f = json_field name p \<and> k = to_valid name \<and> reads_value p v)
      (map (\<lambda>(k, v). json_field k (json_piece v)) (message_fields m)) (map (apsnd valid_value) (message_fields m))"
    unfolding list.rel_map
  proof (rule list.rel_refl_strong)
    fix x
    assume x: "x \<in> set (message_fields m)"
    obtain k v where "x = (k, v)" by (cases x)
    with x message_keys reads_json_piece show "(case apsnd valid_value x of (k, v) \<Rightarrow>
        \<exists>name p. (case x of (k, v) \<Rightarrow> json_field k (json_piece v)) = json_field name p \<and> k = to_valid name \<and> reads_value p v)"
      by force
  qed
qed (simp_all add: message_fields_def)

lemma to_valid_Nil [simp]: "to_valid [] = []"
  by (simp add: to_valid.simps)

lemma field_lookups:
  fixes m
  defines "fs \<equiv> map (apsnd valid_value) (message_fields m)"
  shows "string_of fs ''type'' = to_valid (msg_Type m)" "string_of fs ''auction_id'' = to_valid (msg_AuctionID m)"
    "string_of fs ''bid_id'' = to_valid (msg_BidID m)" "string_of fs ''user_id'' = to_valid (msg_UserID m)"
    "int_of fs ''amount_cents'' = msg_Amount m" "int_of fs ''version'' = msg_Version m"
    "int_of fs ''timestamp_ms'' = msg_Timestamp m"
  unfolding fs_def string_of_def int_of_def message_fields_def
  by (simp_all add: map_add_def)

section \<open>Property\<close>

text \<open>
  (C16) A spectator gets back what was broadcast: reading a marshalled message gives the message, with
  every field in its place and the fields left out for being zero read as zero, whatever bytes its
  strings hold (quotes, backslashes, control and HTML characters included). Only bytes that are not
  valid UTF-8 are lost: each is read as the replacement character.
\<close>

theorem message_roundtrip:
  "Unmarshal (Marshal m) = Some (valid_message m)"
proof -
  let ?body = "join_fields (map (\<lambda>(k, v). json_field k (json_piece v)) (message_fields m)) @ [CHR ''}'']"
  have "length fs \<le> length (join_fields fs)" if "\<forall>f \<in> set fs. f \<noteq> []" for fs
    using that
  proof (induction fs rule: join_fields.induct)
    case (3 f g gs)
    then show ?case by (cases f) auto
  next
    case (2 f)
    then show ?case by (cases f) auto
  qed simp
  moreover have "\<forall>f \<in> set (map (\<lambda>(k, v). json_field k (json_piece v)) (message_fields m)). f \<noteq> []"
    by (auto simp: json_field_def json_string_def)
  ultimately have "length (map (\<lambda>(k, v). json_field k (json_piece v)) (message_fields m)) \<le>
      length (join_fields (map (\<lambda>(k, v). json_field k (json_piece v)) (message_fields m)))" by blast
  then have "length (message_fields m) \<le> length ?body" by simp
  then obtain n where "length ?body = length (message_fields m) + n" using le_Suc_ex by blast
  then have "read_fields (length ?body) ?body = Some (map (apsnd valid_value) (message_fields m), [])"
    using read_message_fields [of m n "[]"] by simp
  moreover have "Marshal m = CHR ''{'' # ?body" using Marshal_fields [of m] by simp
  ultimately show ?thesis
    by (simp add: Unmarshal_def field_lookups valid_message_def)
qed

end
