(* ===== verification/Hub.thy ===== *)
theory Hub
  imports Json
begin

text \<open>
  The websocket fan-out: \<open>internal/transport/ws/hub.go\<close> and the clients of \<open>handler.go\<close>. The hub's
  channels are queues with their capacities, its goroutine \<open>Run\<close> is a program counter, and a client
  is its send channel, its two pumps and its connection. \<open>hub_step\<close> interleaves the goroutines:
  handlers that subscribe, publishers, the hub itself, and the pumps. A goroutine whose channel
  operation would block has no step. Labels say what the hub did.
\<close>

section \<open>Clients\<close>

type_synonym client = nat

text \<open>
  Where the write pump stands: at its \<open>select\<close>, blocked in it, writing a message, returning, ended.
\<close>

datatype pump_pc = PumpIdle | PumpWaiting | PumpWriting | PumpClosing | PumpDone

text \<open>
  \<open>closeFn\<close> unregisters from the auction it captured. While the write pump is blocked in its receive,
  a send is handed over directly; \<open>received\<close> is what it took so far.
\<close>

record Client =
  send :: "string list"
  send_cap :: nat
  closeFn :: "string option"
  conn_open :: "bool option"
  reading :: bool
  pump :: pump_pc
  received :: "string list"

definition NewBufferedClient :: "nat \<Rightarrow> Client" where
  "NewBufferedClient depth =
     \<lparr>send = [], send_cap = depth, closeFn = None, conn_open = None, reading = False, pump = PumpDone,
      received = []\<rparr>"

definition Messages :: "Client \<Rightarrow> string list" where
  "Messages c = send c"

text \<open>The client \<open>ServeHTTP\<close> builds for an upgraded connection, with its pumps running.\<close>

definition subscriber :: "string \<Rightarrow> nat \<Rightarrow> Client" where
  "subscriber auctionID depth =
     \<lparr>send = [], send_cap = depth, closeFn = Some auctionID, conn_open = Some True, reading = True, pump = PumpIdle,
      received = []\<rparr>"

text \<open>The non-blocking send of a \<open>select\<close> with a default branch.\<close>

definition try_send :: "string \<Rightarrow> Client \<Rightarrow> Client option" where
  "try_send p c =
     (if pump c = PumpWaiting then Some (c\<lparr>pump := PumpWriting, received := received c @ [p]\<rparr>)
      else if length (send c) < send_cap c then Some (c\<lparr>send := send c @ [p]\<rparr>)
      else None)"

text \<open>Everything a client was given: what its pump took and what is still queued.\<close>

definition given :: "Client \<Rightarrow> string list" where
  "given c = received c @ send c"

section \<open>The hub\<close>

text \<open>What travels on the channels: an auction with a client, or with a payload.\<close>

type_synonym subscription = "string \<times> client"
type_synonym targetedMessage = "string \<times> string"

record Hub =
  queueDepth :: int64
  dropped :: nat
  register :: "subscription list"
  unregister :: "subscription list"
  broadcast :: "targetedMessage list"
  hub_clients :: "string \<rightharpoonup> client set"

definition NewHub :: "int64 \<Rightarrow> Hub" where
  "NewHub depth =
     \<lparr>queueDepth = depth, dropped = 0, register = [], unregister = [], broadcast = [], hub_clients = Map.empty\<rparr>"

definition register_cap :: nat where "register_cap = 1024"
definition unregister_cap :: nat where "unregister_cap = 1024"
definition broadcast_cap :: nat where "broadcast_cap = 4096"

text \<open>The blocking sends: \<open>None\<close> while the channel is full.\<close>

definition Register :: "string \<Rightarrow> client \<Rightarrow> Hub \<Rightarrow> Hub option" where
  "Register a c h =
     (if length (register h) < register_cap then Some (h\<lparr>register := register h @ [(a, c)]\<rparr>) else None)"

definition Unregister :: "string \<Rightarrow> client \<Rightarrow> Hub \<Rightarrow> Hub option" where
  "Unregister a c h =
     (if length (unregister h) < unregister_cap then Some (h\<lparr>unregister := unregister h @ [(a, c)]\<rparr>) else None)"

definition Broadcast :: "string \<Rightarrow> Message \<Rightarrow> Hub \<Rightarrow> Hub option" where
  "Broadcast a m h =
     (if length (broadcast h) < broadcast_cap then Some (h\<lparr>broadcast := broadcast h @ [(a, Marshal m)]\<rparr>) else None)"

definition members :: "Hub \<Rightarrow> string \<Rightarrow> client set" where
  "members h a = (case hub_clients h a of None \<Rightarrow> {} | Some cs \<Rightarrow> cs)"

definition do_register :: "string \<Rightarrow> client \<Rightarrow> Hub \<Rightarrow> Hub" where
  "do_register a c h = h\<lparr>hub_clients := (hub_clients h)(a \<mapsto> insert c (members h a))\<rparr>"

definition do_unregister :: "string \<Rightarrow> client \<Rightarrow> Hub \<Rightarrow> Hub" where
  "do_unregister a c h =
     (case hub_clients h a of
        None \<Rightarrow> h
      | Some cs \<Rightarrow> h\<lparr>hub_clients := (hub_clients h)(a := (if cs - {c} = {} then None else Some (cs - {c})))\<rparr>)"

text \<open>Offering a payload to the clients in the order of the range loop; the ones that are full.\<close>

fun deliver :: "string \<Rightarrow> client list \<Rightarrow> (client \<rightharpoonup> Client) \<Rightarrow> (client \<rightharpoonup> Client) \<times> client list" where
  "deliver p [] hp = (hp, [])"
| "deliver p (c # cs) hp =
     (case hp c of
        None \<Rightarrow> deliver p cs hp
      | Some cl \<Rightarrow>
          (case try_send p cl of
             Some cl' \<Rightarrow> deliver p cs (hp(c \<mapsto> cl'))
           | None \<Rightarrow> (let (hp', full) = deliver p cs hp in (hp', c # full))))"

text \<open>The removal of a full client from its set, and of a set that became empty.\<close>

definition remove_member :: "string \<Rightarrow> client \<Rightarrow> Hub \<Rightarrow> Hub" where
  "remove_member a c h =
     (case hub_clients h a of None \<Rightarrow> h | Some ms \<Rightarrow> h\<lparr>hub_clients := (hub_clients h)(a \<mapsto> ms - {c})\<rparr>)"

definition remove_empty :: "string \<Rightarrow> Hub \<Rightarrow> Hub" where
  "remove_empty a h = (if hub_clients h a = Some {} then h\<lparr>hub_clients := (hub_clients h)(a := None)\<rparr> else h)"

definition KnownAuctions :: "Hub \<Rightarrow> string set" where
  "KnownAuctions h = dom (hub_clients h)"

section \<open>Goroutines\<close>

text \<open>
  \<open>Run\<close> is in its \<open>select\<close>, or removes the clients a broadcast found full, holding the lock: it deletes the
  first of them from its set and then closes it, for which it waits for room in its own \<open>unregister\<close> channel.
\<close>

datatype run_pc = Selecting | Dropping string "client list"

record hub_sys =
  hub :: Hub
  heap :: "client \<rightharpoonup> Client"
  run :: run_pc

datatype hub_label =
    Joined string client
  | Left string client
  | Queued string string
  | Sent string string "client list"
  | Other

definition close_conn :: "Client \<Rightarrow> Client" where
  "close_conn c = c\<lparr>conn_open := map_option (\<lambda>_. False) (conn_open c)\<rparr>"

text \<open>\<open>Client.close\<close>: unregister through \<open>closeFn\<close>, which may block, then close the connection.\<close>

definition Client_close :: "client \<Rightarrow> Client \<Rightarrow> Hub \<Rightarrow> (Client \<times> Hub) option" where
  "Client_close c cl h =
     (case closeFn cl of
        None \<Rightarrow> Some (close_conn cl, h)
      | Some a \<Rightarrow> map_option (\<lambda>h'. (close_conn cl, h')) (Unregister a c h))"

text \<open>A turn of the loop of \<open>readPump\<close>: a message is ignored, an error ends the loop and closes the client.\<close>

definition readPump :: "bool \<Rightarrow> client \<Rightarrow> Client \<Rightarrow> Hub \<Rightarrow> (Client \<times> Hub) option" where
  "readPump ok c cl h =
     (if ok then Some (cl, h)
      else map_option (\<lambda>(cl', h'). (cl'\<lparr>reading := False\<rparr>, h')) (Client_close c cl h))"

datatype http_outcome = BadRequest | UpgradeFailed | HandlerPanic | Subscribed

text \<open>\<open>Handler.ServeHTTP\<close> up to the start of the pumps; \<open>None\<close> while \<open>Register\<close> blocks.\<close>

definition ServeHTTP :: "string \<Rightarrow> bool \<Rightarrow> client \<Rightarrow> hub_sys \<Rightarrow> (http_outcome \<times> hub_sys) option" where
  "ServeHTTP auctionID upgraded c s =
     (if auctionID = [] then Some (BadRequest, s)
      else if \<not> upgraded then Some (UpgradeFailed, s)
      else if sint (queueDepth (hub s)) < 0 then Some (HandlerPanic, s)
      else case Register auctionID c (hub s) of
             None \<Rightarrow> None
           | Some h \<Rightarrow> Some (Subscribed, s\<lparr>hub := h,
               heap := (heap s)(c \<mapsto> subscriber auctionID (nat (sint (queueDepth (hub s)))))\<rparr>))"

text \<open>
  The loop of \<open>writePump\<close> on its client (the channel is never closed, so that its receive always
  yields a message). A write to an open connection may succeed or fail, one to a closed connection
  fails; the ticker may fire at any time.
\<close>

inductive pump_step :: "Client \<Rightarrow> Client \<Rightarrow> bool" where
  pump_take: "pump cl = PumpIdle \<Longrightarrow> send cl = m # ms \<Longrightarrow>
    pump_step cl (cl\<lparr>send := ms, received := received cl @ [m], pump := PumpWriting\<rparr>)"
| pump_wait: "pump cl = PumpIdle \<Longrightarrow> send cl = [] \<Longrightarrow> pump_step cl (cl\<lparr>pump := PumpWaiting\<rparr>)"
| pump_written: "pump cl = PumpWriting \<Longrightarrow> conn_open cl = Some True \<Longrightarrow> pump_step cl (cl\<lparr>pump := PumpIdle\<rparr>)"
| pump_write_error: "pump cl = PumpWriting \<Longrightarrow> pump_step cl (cl\<lparr>pump := PumpClosing\<rparr>)"
| pump_ping: "pump cl = PumpIdle \<or> pump cl = PumpWaiting \<Longrightarrow> conn_open cl = Some True \<Longrightarrow>
    pump_step cl (cl\<lparr>pump := PumpIdle\<rparr>)"
| pump_ping_error: "pump cl = PumpIdle \<or> pump cl = PumpWaiting \<Longrightarrow> pump_step cl (cl\<lparr>pump := PumpClosing\<rparr>)"

inductive hub_step :: "hub_label \<Rightarrow> hub_sys \<Rightarrow> hub_sys \<Rightarrow> bool" where
  serve: "heap s c = None \<Longrightarrow> ServeHTTP a upgraded c s = Some (out, t) \<Longrightarrow> hub_step Other s t"
| publish: "Broadcast a m (hub s) = Some h \<Longrightarrow> hub_step (Queued a (Marshal m)) s (s\<lparr>hub := h\<rparr>)"
| run_register: "run s = Selecting \<Longrightarrow> register (hub s) = (a, c) # rest \<Longrightarrow>
    hub_step (Joined a c) s (s\<lparr>hub := do_register a c ((hub s)\<lparr>register := rest\<rparr>)\<rparr>)"
| run_unregister: "run s = Selecting \<Longrightarrow> unregister (hub s) = (a, c) # rest \<Longrightarrow>
    hub_step (Left a c) s (s\<lparr>hub := do_unregister a c ((hub s)\<lparr>unregister := rest\<rparr>)\<rparr>)"
| run_broadcast: "run s = Selecting \<Longrightarrow> broadcast (hub s) = (a, p) # rest \<Longrightarrow>
    distinct cs \<Longrightarrow> set cs = members (hub s) a \<Longrightarrow> deliver p cs (heap s) = (heap', full) \<Longrightarrow>
    hub_step (Sent a p full) s
      (s\<lparr>hub := (hub s)\<lparr>broadcast := rest, dropped := dropped (hub s) + length full\<rparr>, heap := heap',
         run := (if full = [] then Selecting else Dropping a full)\<rparr>)"
| drop_delete: "run s = Dropping a (c # cs) \<Longrightarrow> c \<in> members (hub s) a \<Longrightarrow>
    hub_step Other s (s\<lparr>hub := remove_member a c (hub s)\<rparr>)"
| drop_close: "run s = Dropping a (c # cs) \<Longrightarrow> c \<notin> members (hub s) a \<Longrightarrow> heap s c = Some cl \<Longrightarrow>
    Client_close c cl (hub s) = Some (cl', h) \<Longrightarrow>
    hub_step Other s (s\<lparr>hub := h, heap := (heap s)(c \<mapsto> cl'), run := Dropping a cs\<rparr>)"
| drop_done: "run s = Dropping a [] \<Longrightarrow>
    hub_step Other s (s\<lparr>hub := remove_empty a (hub s), run := Selecting\<rparr>)"
| pump_moves: "heap s c = Some cl \<Longrightarrow> pump_step cl cl' \<Longrightarrow> hub_step Other s (s\<lparr>heap := (heap s)(c \<mapsto> cl')\<rparr>)"
| pump_ends: "heap s c = Some cl \<Longrightarrow> pump cl = PumpClosing \<Longrightarrow> Client_close c cl (hub s) = Some (cl', h) \<Longrightarrow>
    hub_step Other s (s\<lparr>hub := h, heap := (heap s)(c \<mapsto> cl'\<lparr>pump := PumpDone\<rparr>)\<rparr>)"
| reads: "heap s c = Some cl \<Longrightarrow> reading cl \<Longrightarrow> ok \<longrightarrow> conn_open cl = Some True \<Longrightarrow> readPump ok c cl (hub s) = Some (cl', h) \<Longrightarrow>
    hub_step Other s (s\<lparr>hub := h, heap := (heap s)(c \<mapsto> cl')\<rparr>)"

inductive hub_runs :: "hub_sys \<Rightarrow> hub_label list \<Rightarrow> hub_sys \<Rightarrow> bool" where
  hub_refl: "hub_runs s [] s"
| hub_more: "hub_runs s tr t \<Longrightarrow> hub_step l t u \<Longrightarrow> hub_runs s (tr @ [l]) u"

definition hub_init :: "int64 \<Rightarrow> hub_sys" where
  "hub_init depth = \<lparr>hub = NewHub depth, heap = Map.empty, run = Selecting\<rparr>"

section \<open>Invariant\<close>

definition of_auction :: "hub_sys \<Rightarrow> string \<Rightarrow> client \<Rightarrow> bool" where
  "of_auction s a c \<longleftrightarrow> (\<exists>cl. heap s c = Some cl \<and> closeFn cl = Some a)"

definition client_ok :: "Client \<Rightarrow> bool" where
  "client_ok cl \<longleftrightarrow> length (send cl) \<le> send_cap cl \<and> (pump cl = PumpWaiting \<longrightarrow> send cl = [])"

definition sets_ok :: "hub_sys \<Rightarrow> bool" where
  "sets_ok s \<longleftrightarrow> (\<forall>a ms. hub_clients (hub s) a = Some ms \<longrightarrow> finite ms \<and> (ms \<noteq> {} \<or> (\<exists>cs. run s = Dropping a cs)))"

definition owners_ok :: "hub_sys \<Rightarrow> bool" where
  "owners_ok s \<longleftrightarrow>
     (\<forall>a c. c \<in> members (hub s) a \<longrightarrow> of_auction s a c) \<and>
     (\<forall>(a, c) \<in> set (register (hub s)). of_auction s a c) \<and>
     (\<forall>a c cs. run s = Dropping a cs \<longrightarrow> c \<in> set cs \<longrightarrow> of_auction s a c)"

definition pending_ok :: "hub_sys \<Rightarrow> bool" where
  "pending_ok s \<longleftrightarrow> (case run s of Selecting \<Rightarrow> True | Dropping a cs \<Rightarrow> distinct cs \<and> set (tl cs) \<subseteq> members (hub s) a)"

definition queues_ok :: "hub_sys \<Rightarrow> bool" where
  "queues_ok s \<longleftrightarrow> length (register (hub s)) \<le> register_cap \<and> length (unregister (hub s)) \<le> unregister_cap \<and>
     length (broadcast (hub s)) \<le> broadcast_cap \<and> (\<forall>c cl. heap s c = Some cl \<longrightarrow> client_ok cl)"

definition hub_inv :: "hub_sys \<Rightarrow> bool" where
  "hub_inv s \<longleftrightarrow> sets_ok s \<and> owners_ok s \<and> pending_ok s \<and> queues_ok s"

text \<open>What was sent to an auction's subscribers along a run.\<close>

fun sent_to :: "string \<Rightarrow> hub_label list \<Rightarrow> string list" where
  "sent_to a [] = []"
| "sent_to a (Sent b p full # tr) = (if b = a then p # sent_to a tr else sent_to a tr)"
| "sent_to a (_ # tr) = sent_to a tr"

text \<open>What was queued for an auction along a run, and what still waits in the hub's channel.\<close>

fun queued_for :: "string \<Rightarrow> hub_label list \<Rightarrow> string list" where
  "queued_for a [] = []"
| "queued_for a (Queued b p # tr) = (if b = a then p # queued_for a tr else queued_for a tr)"
| "queued_for a (_ # tr) = queued_for a tr"

definition pending_for :: "string \<Rightarrow> Hub \<Rightarrow> string list" where
  "pending_for a h = map snd (filter (\<lambda>m. fst m = a) (broadcast h))"

section \<open>Lemmas\<close>

lemma queued_for_append [simp]: "queued_for a (tr @ tr') = queued_for a tr @ queued_for a tr'"
proof (induction tr)
  case (Cons l tr)
  then show ?case by (cases l) simp_all
qed simp

lemma sent_to_append [simp]: "sent_to a (tr @ tr') = sent_to a tr @ sent_to a tr'"
proof (induction tr)
  case (Cons l tr)
  then show ?case by (cases l) simp_all
qed simp

lemma deliver_spec:
  "distinct cs \<Longrightarrow> deliver p cs hp =
     ((\<lambda>c. if c \<in> set cs then map_option (\<lambda>cl. case try_send p cl of Some cl' \<Rightarrow> cl' | None \<Rightarrow> cl) (hp c) else hp c),
      filter (\<lambda>c. \<exists>cl. hp c = Some cl \<and> try_send p cl = None) cs)"
proof (induction cs arbitrary: hp)
  case Nil
  then show ?case by simp
next
  case (Cons c cs)
  show ?case
  proof (cases "hp c")
    case None
    with Cons show ?thesis by (auto simp: fun_eq_iff)
  next
    case (Some cl)
    show ?thesis
    proof (cases "try_send p cl")
      case None
      with Cons Some show ?thesis by (auto simp: fun_eq_iff)
    next
      case sent: (Some cl')
      have "filter (\<lambda>d. \<exists>x. (hp(c \<mapsto> cl')) d = Some x \<and> try_send p x = None) cs =
          filter (\<lambda>d. \<exists>x. hp d = Some x \<and> try_send p x = None) cs"
        using Cons.prems by (intro filter_cong) auto
      with Cons Some sent show ?thesis by (auto simp: fun_eq_iff)
    qed
  qed
qed

lemma try_send_ok:
  "client_ok cl \<Longrightarrow> try_send p cl = Some cl' \<Longrightarrow>
   client_ok cl' \<and> closeFn cl' = closeFn cl \<and> given cl' = given cl @ [p]"
  by (auto simp: client_ok_def try_send_def given_def split: if_splits)

lemma try_send_full: "try_send p cl = None \<Longrightarrow> send_cap cl \<le> length (send cl)"
  by (simp add: try_send_def split: if_splits)

lemma pump_step_frame:
  assumes "pump_step cl cl'"
  shows "closeFn cl' = closeFn cl \<and> given cl' = given cl \<and> send_cap cl' = send_cap cl \<and> reading cl' = reading cl \<and>
    (client_ok cl \<longrightarrow> client_ok cl')"
  using assms by cases (auto simp: given_def client_ok_def)

lemma Client_close_frame:
  assumes "Client_close c cl h = Some (cl', h')"
  shows "closeFn cl' = closeFn cl \<and> send cl' = send cl \<and> received cl' = received cl \<and> pump cl' = pump cl \<and>
    send_cap cl' = send_cap cl \<and> hub_clients h' = hub_clients h \<and> register h' = register h \<and> broadcast h' = broadcast h \<and>
    queueDepth h' = queueDepth h \<and> (length (unregister h) \<le> unregister_cap \<longrightarrow> length (unregister h') \<le> unregister_cap)"
  using assms by (auto simp: Client_close_def Unregister_def close_conn_def split: option.splits if_splits)

lemma readPump_frame:
  assumes "readPump ok c cl h = Some (cl', h')"
  shows "closeFn cl' = closeFn cl \<and> send cl' = send cl \<and> received cl' = received cl \<and> pump cl' = pump cl \<and>
    send_cap cl' = send_cap cl \<and> hub_clients h' = hub_clients h \<and> register h' = register h \<and> broadcast h' = broadcast h \<and>
    queueDepth h' = queueDepth h \<and> (length (unregister h) \<le> unregister_cap \<longrightarrow> length (unregister h') \<le> unregister_cap)"
proof (cases ok)
  case True
  with assms show ?thesis by (simp add: readPump_def)
next
  case False
  then obtain cl0 where "Client_close c cl h = Some (cl0, h')" "cl' = cl0\<lparr>reading := False\<rparr>"
    using assms by (auto simp: readPump_def)
  with Client_close_frame [OF this(1)] show ?thesis by simp
qed

lemma members_do_register [simp]:
  "members (do_register a c h) b = (if b = a then insert c (members h a) else members h b)"
  by (simp add: do_register_def members_def)

lemma members_do_unregister [simp]:
  "members (do_unregister a c h) b = (if b = a then members h a - {c} else members h b)"
  by (auto simp: do_unregister_def members_def split: option.splits)

lemma members_update [simp]:
  "members (h\<lparr>register := r\<rparr>) a = members h a" "members (h\<lparr>unregister := u\<rparr>) a = members h a"
  "members (h\<lparr>broadcast := b\<rparr>) a = members h a" "members (h\<lparr>dropped := n\<rparr>) a = members h a"
  by (simp_all add: members_def)

lemma members_cong: "hub_clients h = hub_clients h' \<Longrightarrow> members h a = members h' a"
  by (simp add: members_def)

lemma members_remove [simp]:
  "members (remove_member a c h) b = (if b = a then members h a - {c} else members h b)"
  "members (remove_empty a h) b = members h b"
  by (auto simp: remove_member_def remove_empty_def members_def split: option.splits)

lemma remove_frame [simp]:
  "register (remove_member a c h) = register h" "unregister (remove_member a c h) = unregister h"
  "broadcast (remove_member a c h) = broadcast h" "register (remove_empty a h) = register h"
  "unregister (remove_empty a h) = unregister h" "broadcast (remove_empty a h) = broadcast h"
  by (simp_all add: remove_member_def remove_empty_def split: option.split)

lemma try_send_closeFn: "try_send p cl = Some cl' \<Longrightarrow> closeFn cl' = closeFn cl"
  by (auto simp: try_send_def split: if_splits)

lemma ServeHTTP_cases:
  assumes "ServeHTTP a upgraded c s = Some (out, t)"
  obtains (refused) "t = s"
    | (subscribed) "length (register (hub s)) < register_cap" "t = s\<lparr>hub := (hub s)\<lparr>register := register (hub s) @ [(a, c)]\<rparr>,
        heap := (heap s)(c \<mapsto> subscriber a (nat (sint (queueDepth (hub s)))))\<rparr>"
proof -
  have "t = s \<or> length (register (hub s)) < register_cap \<and> t = s\<lparr>hub := (hub s)\<lparr>register := register (hub s) @ [(a, c)]\<rparr>,
        heap := (heap s)(c \<mapsto> subscriber a (nat (sint (queueDepth (hub s)))))\<rparr>"
    using assms by (simp add: ServeHTTP_def Register_def split: if_splits)
  then show ?thesis using refused subscribed by blast
qed

lemma of_auction_step:
  assumes "hub_step l s t" "of_auction s a c"
  shows "of_auction t a c"
  using assms
proof (induction rule: hub_step.induct)
  case (serve s c' a' up out t)
  from serve(2) show ?case
    using serve(1,3) by (cases rule: ServeHTTP_cases) (auto simp: of_auction_def)
next
  case (run_broadcast s a' p rest cs hp' full)
  then show ?case
    by (auto simp: of_auction_def deliver_spec try_send_closeFn split: option.splits)
next
  case (drop_close s a' c' cs cl cl' h)
  with Client_close_frame [OF drop_close(4)] show ?case by (auto simp: of_auction_def)
next
  case (pump_moves s c' cl cl')
  with pump_step_frame [OF pump_moves(2)] show ?case by (auto simp: of_auction_def)
next
  case (pump_ends s c' cl cl' h)
  with Client_close_frame [OF pump_ends(3)] show ?case by (auto simp: of_auction_def)
next
  case (reads s c' cl ok cl' h)
  with readPump_frame [OF reads(4)] show ?case by (auto simp: of_auction_def)
qed (auto simp: of_auction_def)

lemma owners_step:
  assumes "hub_step l s t" "owners_ok s"
  shows "owners_ok t"
proof -
  have keep: "of_auction s a c \<Longrightarrow> of_auction t a c" for a c using of_auction_step [OF assms(1)] .
  have "(\<forall>b d. d \<in> members (hub t) b \<longrightarrow> d \<in> members (hub s) b \<or> of_auction s b d) \<and>
        (\<forall>(b, d) \<in> set (register (hub t)). of_auction s b d \<or> of_auction t b d) \<and>
        (\<forall>b d ds. run t = Dropping b ds \<longrightarrow> d \<in> set ds \<longrightarrow> of_auction s b d)"
    using assms
  proof (induction rule: hub_step.induct)
    case (serve s c a up out t)
    from serve(2) show ?case
      using serve(3) by (cases rule: ServeHTTP_cases) (auto simp: owners_ok_def of_auction_def subscriber_def members_def)
  next
    case (publish a m s h)
    then show ?case by (auto simp: owners_ok_def Broadcast_def members_def split: if_splits)
  next
    case (run_broadcast s a p rest cs hp' full)
    have "full = filter (\<lambda>c. \<exists>cl. heap s c = Some cl \<and> try_send p cl = None) cs"
      using run_broadcast(5) unfolding deliver_spec [OF run_broadcast(3)] by simp
    then have "set full \<subseteq> members (hub s) a" using run_broadcast(4) by auto
    with run_broadcast(6) show ?case by (auto simp: owners_ok_def)
  next
    case (drop_close s a c cs cl cl' h)
    have "register h = register (hub s)" "\<And>b. members h b = members (hub s) b"
      using Client_close_frame [OF drop_close(4)] members_cong [of h "hub s"] by simp_all
    with drop_close(1,5) show ?case by (auto simp: owners_ok_def)
  next
    case (pump_ends s c cl cl' h)
    have "register h = register (hub s)" "\<And>b. members h b = members (hub s) b"
      using Client_close_frame [OF pump_ends(3)] members_cong [of h "hub s"] by simp_all
    with pump_ends(4) show ?case by (auto simp: owners_ok_def)
  next
    case (reads s c cl ok cl' h)
    have "register h = register (hub s)" "\<And>b. members h b = members (hub s) b"
      using readPump_frame [OF reads(4)] members_cong [of h "hub s"] by simp_all
    with reads(5) show ?case by (auto simp: owners_ok_def)
  next
    case (run_register s a c rest)
    then show ?case by (auto simp: owners_ok_def do_register_def members_def split: if_splits)
  next
    case (run_unregister s a c rest)
    then show ?case by (auto simp: owners_ok_def do_unregister_def members_def split: if_splits option.splits)
  qed (auto simp: owners_ok_def)
  with keep assms(2) show ?thesis by (fastforce simp: owners_ok_def)
qed

lemma queues_step:
  assumes "hub_step l s t" "queues_ok s"
  shows "queues_ok t"
  using assms
proof (induction rule: hub_step.induct)
  case (serve s c a up out t)
  from serve(2) show ?case
    using serve(3) by (cases rule: ServeHTTP_cases) (auto simp: queues_ok_def client_ok_def subscriber_def)
next
  case (publish a m s h)
  then show ?case by (auto simp: queues_ok_def Broadcast_def split: if_splits)
next
  case (run_unregister s a c rest)
  then show ?case by (auto simp: queues_ok_def do_unregister_def split: option.splits)
next
  case (run_broadcast s a p rest cs hp' full)
  then have hp': "hp' = (\<lambda>c. if c \<in> set cs then map_option (\<lambda>cl. case try_send p cl of Some cl' \<Rightarrow> cl' | None \<Rightarrow> cl) (heap s c)
      else heap s c)" by (simp add: deliver_spec)
  have "client_ok cl" if "hp' c = Some cl" for c cl
  proof -
    obtain x where x: "heap s c = Some x" "cl = x \<or> try_send p x = Some cl"
      using \<open>hp' c = Some cl\<close> unfolding hp' by (auto split: if_splits option.splits)
    then have "client_ok x" using run_broadcast(6) by (simp add: queues_ok_def)
    with x(2) try_send_ok show ?thesis by blast
  qed
  with run_broadcast show ?case by (auto simp: queues_ok_def)
next
  case (drop_close s a c cs cl cl' h)
  with Client_close_frame [OF drop_close(4)] show ?case by (auto simp: queues_ok_def client_ok_def)
next
  case (pump_moves s c cl cl')
  with pump_step_frame [OF pump_moves(2)] show ?case by (auto simp: queues_ok_def)
next
  case (pump_ends s c cl cl' h)
  with Client_close_frame [OF pump_ends(3)] show ?case by (auto simp: queues_ok_def client_ok_def)
next
  case (reads s c cl ok cl' h)
  with readPump_frame [OF reads(4)] show ?case by (auto simp: queues_ok_def client_ok_def)
qed (auto simp: queues_ok_def do_register_def)

lemma sets_pending_cong:
  "hub_clients (hub t) = hub_clients (hub s) \<Longrightarrow> run t = run s \<Longrightarrow> sets_ok s \<Longrightarrow> pending_ok s \<Longrightarrow> sets_ok t \<and> pending_ok t"
  by (simp add: sets_ok_def pending_ok_def members_def split: run_pc.splits)

lemma sets_pending_step:
  assumes "hub_step l s t" "sets_ok s" "pending_ok s"
  shows "sets_ok t \<and> pending_ok t"
  using assms
proof (induction rule: hub_step.induct)
  case (serve s c a up out t)
  from serve(2) show ?case
    by (cases rule: ServeHTTP_cases) (rule sets_pending_cong [OF _ _ serve(3,4)], simp_all)+
next
  case (publish a m s h)
  then show ?case by (intro sets_pending_cong [OF _ _ publish(2,3)]) (auto simp: Broadcast_def split: if_splits)
next
  case (run_register s a c rest)
  then show ?case by (auto simp: sets_ok_def pending_ok_def do_register_def members_def split: option.splits)
next
  case (run_unregister s a c rest)
  then show ?case
    by (cases "hub_clients (hub s) a") (auto simp: sets_ok_def pending_ok_def do_unregister_def split: if_splits)
next
  case (run_broadcast s a p rest cs hp' full)
  then have f: "full = filter (\<lambda>c. \<exists>cl. heap s c = Some cl \<and> try_send p cl = None) cs" by (simp add: deliver_spec)
  have "set full \<subseteq> members (hub s) a" "distinct full" using run_broadcast(3,4) f by auto
  with run_broadcast(1,6) show ?case by (auto simp: sets_ok_def pending_ok_def dest: list.set_sel(2) distinct_tl)
next
  case (drop_delete s a c cs)
  have "sets_ok (s\<lparr>hub := remove_member a c (hub s)\<rparr>)"
    using drop_delete(1,3) by (cases "hub_clients (hub s) a") (auto simp: sets_ok_def remove_member_def split: if_splits)
  with drop_delete(1,4) show ?case by (auto simp: pending_ok_def)
next
  case (drop_close s a c cs cl cl' h)
  have h: "hub_clients h = hub_clients (hub s)" using Client_close_frame [OF drop_close(4)] by simp
  have "set (tl cs) \<subseteq> members (hub s) a" using drop_close(1,6) by (cases cs) (auto simp: pending_ok_def)
  with drop_close(1,5,6) h members_cong [OF h, of a] show ?case by (auto simp: sets_ok_def pending_ok_def)
next
  case (drop_done s a)
  have "finite ms \<and> ms \<noteq> {}" if "hub_clients (remove_empty a (hub s)) b = Some ms" for b ms
  proof (cases "b = a")
    case True
    with that drop_done(2) show ?thesis by (auto simp: sets_ok_def remove_empty_def split: if_splits)
  next
    case False
    then have "hub_clients (hub s) b = Some ms" using that by (simp add: remove_empty_def split: if_splits)
    with False drop_done(1,2) show ?thesis by (auto simp: sets_ok_def)
  qed
  then show ?case by (simp add: sets_ok_def pending_ok_def)
next
  case (pump_ends s c cl cl' h)
  then show ?case using Client_close_frame [OF pump_ends(3)] by (intro sets_pending_cong [OF _ _ pump_ends(4,5)]) simp_all
next
  case (reads s c cl ok cl' h)
  then show ?case using readPump_frame [OF reads(4)] by (intro sets_pending_cong [OF _ _ reads(5,6)]) simp_all
next
  case (pump_moves s c cl cl')
  then show ?case by (intro sets_pending_cong [OF _ _ pump_moves(3,4)]) simp_all
qed

lemma hub_inv_step: "hub_step l s t \<Longrightarrow> hub_inv s \<Longrightarrow> hub_inv t"
  by (auto simp: hub_inv_def intro: owners_step queues_step dest: sets_pending_step)

lemma hub_inv_runs: "hub_runs s tr t \<Longrightarrow> hub_inv s \<Longrightarrow> hub_inv t"
  by (induction rule: hub_runs.induct) (auto intro: hub_inv_step)

text \<open>The broadcast channel is first in, first out.\<close>

lemma hub_fifo_step:
  "hub_step l s t \<Longrightarrow> sent_to a [l] @ pending_for a (hub t) = pending_for a (hub s) @ queued_for a [l]"
proof (induction rule: hub_step.induct)
  case (serve s c b up out t)
  from serve(2) show ?case by (cases rule: ServeHTTP_cases) (simp_all add: pending_for_def)
next
  case (publish b m s h)
  then show ?case by (auto simp: pending_for_def Broadcast_def split: if_splits)
next
  case (run_register s b c rest)
  then show ?case by (simp add: pending_for_def do_register_def)
next
  case (run_unregister s b c rest)
  then show ?case by (simp add: pending_for_def do_unregister_def split: option.split)
next
  case (drop_close s b c cs cl cl' h)
  with Client_close_frame [OF drop_close(4)] show ?case by (simp add: pending_for_def)
next
  case (pump_ends s c cl cl' h)
  with Client_close_frame [OF pump_ends(3)] show ?case by (simp add: pending_for_def)
next
  case (reads s c cl ok cl' h)
  with readPump_frame [OF reads(4)] show ?case by (simp add: pending_for_def)
qed (simp_all add: pending_for_def)

lemma hub_fifo:
  "hub_runs s tr t \<Longrightarrow> sent_to a tr @ pending_for a (hub t) = pending_for a (hub s) @ queued_for a tr"
proof (induction rule: hub_runs.induct)
  case (hub_more s tr t l u)
  have "sent_to a (tr @ [l]) @ pending_for a (hub u) = sent_to a tr @ (sent_to a [l] @ pending_for a (hub u))" by simp
  also have "\<dots> = (sent_to a tr @ pending_for a (hub t)) @ queued_for a [l]"
    using hub_fifo_step [OF hub_more(2), of a] by simp
  finally show ?case using hub_more(3) by simp
qed simp

lemma hub_inv_member: "hub_inv s \<Longrightarrow> c \<in> members (hub s) a \<Longrightarrow> of_auction s a c"
  by (simp add: hub_inv_def owners_ok_def)

lemma hub_inv_dropping: "hub_inv s \<Longrightarrow> run s = Dropping a cs \<Longrightarrow> c \<in> set cs \<Longrightarrow> of_auction s a c"
  by (simp add: hub_inv_def owners_ok_def)

lemma hub_inv_client: "hub_inv s \<Longrightarrow> heap s c = Some cl \<Longrightarrow> client_ok cl"
  by (simp add: hub_inv_def queues_ok_def)

lemma hub_inv_init: "hub_inv (hub_init depth)"
  by (simp add: hub_inv_def sets_ok_def owners_ok_def pending_ok_def queues_ok_def hub_init_def NewHub_def members_def)

end
