(* ===== verification/Dispatcher.thy ===== *)
theory Dispatcher
  imports Events Hub
begin

text \<open>
  \<open>internal/engine/dispatcher.go\<close>: the loop that polls the streams of the auctions with subscribers
  and hands their events to the hub. A tick gets the auctions the hub knows as a list, the order in
  which the maps are walked, and returns the messages in the order in which they are broadcast
  (a broadcast that finds the hub's channel full waits there), the next state, and the lag it
  records. \<open>None\<close> is a panic of the store.
\<close>

section \<open>Definitions\<close>

record EventDispatcher =
  streamCount :: int64
  offsets :: "string \<rightharpoonup> string"

definition NewEventDispatcher :: "int64 \<Rightarrow> EventDispatcher" where
  "NewEventDispatcher count =
     \<lparr>streamCount = (if sint count \<le> 0 then 256 else count), offsets = Map.empty\<rparr>"

text \<open>The two loops over the known auctions: forget the offsets of others, start new ones at \<open>0-0\<close>.\<close>

definition sync_offsets :: "string list \<Rightarrow> (string \<rightharpoonup> string) \<Rightarrow> (string \<rightharpoonup> string)" where
  "sync_offsets known offs =
     (\<lambda>a. if a \<in> set known then (case offs a of Some off \<Rightarrow> Some off | None \<Rightarrow> Some ''0-0'') else None)"

definition bid_message :: "AuctionEvent \<Rightarrow> Message" where
  "bid_message e =
     \<lparr>msg_Type = ''bid_accepted'', msg_AuctionID = evAuctionID e, msg_BidID = evBidID e, msg_UserID = evUserID e,
      msg_Amount = evAmountCents e, msg_Version = evVersion e, msg_Timestamp = evServerUnixMilli e\<rparr>"

fun dispatch_events :: "AuctionEvent list \<Rightarrow> (string \<rightharpoonup> string) \<Rightarrow> (string \<rightharpoonup> string) \<times> (string \<times> Message) list" where
  "dispatch_events [] offs = (offs, [])"
| "dispatch_events (e # es) offs =
     (let (offs', ms) = dispatch_events es (offs(evAuctionID e \<mapsto> evID e))
      in (offs', (evAuctionID e, bid_message e) # ms))"

definition dispatch_lag :: "time \<Rightarrow> AuctionEvent list \<Rightarrow> int64 option" where
  "dispatch_lag now evs = (case evs of [] \<Rightarrow> None | e # _ \<Rightarrow> Some (UnixMilli now - evServerUnixMilli e))"

definition dispatch_tick :: "((string \<times> string) list \<Rightarrow> int64 \<Rightarrow> (go_error + AuctionEvent list) option) \<Rightarrow> time \<Rightarrow>
    string list \<Rightarrow> EventDispatcher \<Rightarrow> (EventDispatcher \<times> (string \<times> Message) list \<times> int64 option) option" where
  "dispatch_tick read now known d =
     (let offs = sync_offsets known (offsets d); d1 = d\<lparr>offsets := offs\<rparr>
      in if known = [] then Some (d1, [], None)
         else case read (map (\<lambda>a. (a, the (offs a))) known) (streamCount d) of
                None \<Rightarrow> None
              | Some (Inl e) \<Rightarrow> Some (d1, [], None)
              | Some (Inr evs) \<Rightarrow>
                  (let (offs', ms) = dispatch_events evs offs
                   in Some (d1\<lparr>offsets := offs'\<rparr>, ms, dispatch_lag now evs)))"

text \<open>Ticks one after the other, each with the known auctions and the databases it finds.\<close>

fun dispatch_run :: "'db go_redis \<Rightarrow> 'db redis_cmds \<Rightarrow> RedisStore \<Rightarrow> (time \<times> string list \<times> 'db list) list \<Rightarrow> EventDispatcher \<Rightarrow>
    (EventDispatcher \<times> (string \<times> Message) list) option" where
  "dispatch_run C R s [] d = Some (d, [])"
| "dispatch_run C R s ((now, known, dbs) # ticks) d =
     (case dispatch_tick (\<lambda>offs count. RedisStore_ReadEvents C R s offs count dbs) now known d of
        None \<Rightarrow> None
      | Some (d1, ms, _) \<Rightarrow> map_option (\<lambda>(d2, ms'). (d2, ms @ ms')) (dispatch_run C R s ticks d1))"

section \<open>Positions in a stream\<close>

text \<open>The dispatcher has handed on the first \<open>n\<close> entries of a stream.\<close>

definition at_pos :: "string option \<Rightarrow> stream_entry list \<Rightarrow> nat \<Rightarrow> bool" where
  "at_pos off es n \<longleftrightarrow>
     (n = 0 \<and> (off = None \<or> off = Some ''0-0'')) \<or>
     (0 < n \<and> n \<le> length es \<and> off = Some (fst (es ! (n - 1))) \<and> fst (es ! (n - 1)) \<noteq> [])"

definition messages_for :: "string \<Rightarrow> (string \<times> Message) list \<Rightarrow> (string \<times> Message) list" where
  "messages_for a ms = filter (\<lambda>m. fst m = a) ms"

definition extends :: "stream_entry list \<Rightarrow> stream_entry list \<Rightarrow> bool" where
  "extends es es' \<longleftrightarrow> (\<exists>more. es' = es @ more)"

section \<open>Lemmas\<close>

lemma messages_for_append [simp]: "messages_for a (ms @ ms') = messages_for a ms @ messages_for a ms'"
  by (simp add: messages_for_def)

lemma dispatch_events_messages:
  "messages_for a (snd (dispatch_events evs offs)) =
   map (\<lambda>e. (a, bid_message e)) (filter (\<lambda>e. evAuctionID e = a) evs)"
  by (induction evs arbitrary: offs) (auto simp: messages_for_def split_def Let_def)

lemma dispatch_events_offsets:
  "fst (dispatch_events evs offs) a =
   (if filter (\<lambda>e. evAuctionID e = a) evs = [] then offs a
    else Some (evID (last (filter (\<lambda>e. evAuctionID e = a) evs))))"
  by (induction evs arbitrary: offs) (auto simp: split_def Let_def)

lemma extends_refl: "extends es es"
  by (simp add: extends_def)

lemma at_pos_extends: "at_pos off es n \<Longrightarrow> extends es es' \<Longrightarrow> at_pos off es' n"
  unfolding at_pos_def extends_def by (elim disjE exE conjE) (auto simp: nth_append)

lemma evID_event_of [simp]: "evID (event_of e) = fst e"
  by (simp add: event_of_def eventFromStream_def message_of_def Let_def)

context redis_server
begin

lemma filter_after:
  assumes "sorted_wrt (\<lambda>x y. before (fst x) (fst y)) es" and "\<forall>e \<in> set es. before ''0-0'' (fst e)"
    and "at_pos (Some off) es n"
  shows "filter (\<lambda>e. before off (fst e)) es = drop n es"
proof (cases "n = 0")
  case True
  then have "off = ''0-0''" using assms(3) by (simp add: at_pos_def)
  with True assms(2) show ?thesis by simp
next
  case False
  then have n: "0 < n" "n \<le> length es" "off = fst (es ! (n - 1))" using assms(3) by (simp_all add: at_pos_def)
  let ?x = "es ! (n - 1)"
  have es: "es = take (n - 1) es @ ?x # drop n es"
    using n(1,2) by (metis Suc_diff_1 Suc_le_lessD id_take_nth_drop)
  have s: "sorted_wrt (\<lambda>x y. before (fst x) (fst y)) (take (n - 1) es @ ?x # drop n es)"
    using assms(1) es by simp
  have early: "\<not> before off (fst y)" if "y \<in> set (take (n - 1) es)" for y
  proof
    assume "before off (fst y)"
    moreover have "before (fst y) off" using s that n(3) by (simp add: sorted_wrt_append)
    ultimately show False using before_trans before_irrefl by blast
  qed
  have late: "before off (fst y)" if "y \<in> set (drop n es)" for y
    using s that n(3) by (auto simp: sorted_wrt_append)
  have "filter (\<lambda>e. before off (fst e)) (take (n - 1) es @ ?x # drop n es) = drop n es"
    using early late before_irrefl n(3) by (auto simp: filter_empty_conv)
  then show ?thesis using es by (metis (no_types, lifting))
qed

end

lemma at_pos_advance:
  assumes "at_pos (Some off) es n" and "0 < k" and "\<forall>e \<in> set es. fst e \<noteq> []"
  shows "at_pos (if take k (drop n es) = [] then Some off else Some (fst (last (take k (drop n es))))) es (min (n + k) (length es))"
proof (cases "n < length es")
  case True
  have n: "n \<le> length es" using True by simp
  have l: "last (take k (drop n es)) = es ! (min (n + k) (length es) - 1)"
  proof (cases "n + k \<le> length es")
    case True
    then have "length (take k (drop n es)) = k" by simp
    then show ?thesis using True assms(2) by (simp add: last_conv_nth min_def add.commute)
  next
    case False
    then have "take k (drop n es) = drop n es" by simp
    then show ?thesis using False \<open>n < length es\<close> by (simp add: last_conv_nth min_def)
  qed
  have "es ! (min (n + k) (length es) - 1) \<in> set es" using True assms(2) by (intro nth_mem) linarith
  with l True assms(2,3) show ?thesis by (auto simp: at_pos_def)
next
  case False
  with assms(1) show ?thesis by (auto simp: at_pos_def)
qed

lemma drop_take_join: "i \<le> j \<Longrightarrow> j \<le> m \<Longrightarrow> drop i (take j xs) @ drop j (take m xs) = drop i (take m xs)"
proof -
  assume a: "i \<le> j" "j \<le> m"
  have "take m xs = take j xs @ drop j (take m xs)"
    using a(2) append_take_drop_id [of j "take m xs"] by (simp add: min_def)
  then have "drop i (take m xs) = drop i (take j xs) @ drop (i - length (take j xs)) (drop j (take m xs))"
    by (metis drop_append)
  also have "drop (i - length (take j xs)) (drop j (take m xs)) = drop j (take m xs)"
    using a by (cases "j \<le> length xs") simp_all
  finally show ?thesis by simp
qed

lemma map_of_offsets: "map_of (map (\<lambda>a. (a, f a)) known) a = (if a \<in> set known then Some (f a) else None)"
  by (induction known) auto

section \<open>What the dispatcher relies on\<close>

text \<open>
  A store that can be read: for auctions with offsets it returns, of each of them, at most \<open>count\<close>
  events after the offset, and nothing of any other auction.
\<close>

locale event_source =
  fixes read :: "(string \<times> string) list \<Rightarrow> int64 \<Rightarrow> (go_error + AuctionEvent list) option"
    and after :: "int \<Rightarrow> string \<times> string \<Rightarrow> AuctionEvent list"
  assumes reads: "distinct (map fst offs) \<Longrightarrow> 0 < sint count \<Longrightarrow> \<exists>evs. read offs count = Some (Inr evs) \<and>
      (\<forall>a. filter (\<lambda>e. evAuctionID e = a) evs =
         (case map_of offs a of None \<Rightarrow> [] | Some off \<Rightarrow> after (sint count) (a, off)))"
begin

lemma tick_reads:
  assumes "distinct known" and "0 < sint (streamCount d)"
  shows "\<exists>d' ms lag. dispatch_tick read now known d = Some (d', ms, lag) \<and> streamCount d' = streamCount d \<and>
    dom (offsets d') = set known \<and> fst ` set ms \<subseteq> set known \<and>
    (\<forall>a \<in> set known. \<forall>off. sync_offsets known (offsets d) a = Some off \<longrightarrow>
       (let evs = after (sint (streamCount d)) (a, off) in
        messages_for a ms = map (\<lambda>e. (a, bid_message e)) evs \<and>
        offsets d' a = Some (if evs = [] then off else evID (last evs))))"
proof (cases "known = []")
  case True
  then show ?thesis by (auto simp: dispatch_tick_def sync_offsets_def dom_def)
next
  case False
  let ?offs = "sync_offsets known (offsets d)"
  let ?reads = "map (\<lambda>a. (a, the (?offs a))) known"
  have "distinct (map fst ?reads)" using assms(1) by (simp add: comp_def)
  then obtain evs where evs: "read ?reads (streamCount d) = Some (Inr evs)"
    "\<And>a. filter (\<lambda>e. evAuctionID e = a) evs =
       (if a \<in> set known then after (sint (streamCount d)) (a, the (?offs a)) else [])"
    using reads [OF _ assms(2), of ?reads] that by (fastforce simp: map_of_offsets split: if_splits)
  let ?d' = "d\<lparr>offsets := fst (dispatch_events evs ?offs)\<rparr>" and ?ms = "snd (dispatch_events evs ?offs)"
  have tick: "dispatch_tick read now known d = Some (?d', ?ms, dispatch_lag now evs)"
    using evs(1) False by (auto simp: dispatch_tick_def Let_def split_def)
  have "dom ?offs = set known" by (auto simp: sync_offsets_def dom_def split: option.splits)
  then have known: "dom (offsets ?d') = set known"
    by (auto simp: dom_def dispatch_events_offsets evs(2) split: if_splits)
  have "messages_for a ?ms = []" if "a \<notin> set known" for a
    using that by (simp add: dispatch_events_messages evs(2))
  then have "fst ` set ?ms \<subseteq> set known" by (force simp: messages_for_def filter_empty_conv)
  moreover have "messages_for a ?ms = map (\<lambda>e. (a, bid_message e)) (after (sint (streamCount d)) (a, off)) \<and>
      offsets ?d' a = Some (if after (sint (streamCount d)) (a, off) = [] then off
        else evID (last (after (sint (streamCount d)) (a, off))))" if "a \<in> set known" "?offs a = Some off" for a off
    using that by (simp add: dispatch_events_messages dispatch_events_offsets evs(2))
  ultimately show ?thesis
    using tick known by (intro exI [of _ ?d'] exI [of _ ?ms] exI [of _ "dispatch_lag now evs"]) (simp add: Let_def)
qed

end

text \<open>The Redis store is one, as long as its servers work and their streams are labelled.\<close>

locale redis_source = redis_backend R valid hash stream ttl is_hash is_stream before tick C
  for R :: "'db redis_cmds" and valid :: "'db \<Rightarrow> bool" and hash :: "'db \<Rightarrow> string \<Rightarrow> string \<rightharpoonup> string"
    and stream :: "'db \<Rightarrow> string \<Rightarrow> stream_entry list" and ttl :: "'db \<Rightarrow> string \<Rightarrow> int option"
    and is_hash :: "'db \<Rightarrow> string \<Rightarrow> bool" and is_stream :: "'db \<Rightarrow> string \<Rightarrow> bool"
    and before :: "string \<Rightarrow> string \<Rightarrow> bool" and tick :: "int \<Rightarrow> 'db \<Rightarrow> 'db" and C :: "'db go_redis" +
  fixes s :: RedisStore and dbs :: "'db list"
  assumes store: "store_ok valid is_hash is_stream s dbs" and labels: "labelled (store_view hash stream s dbs)"
begin

lemma redis_reads:
  assumes "distinct (map fst offs)" and "0 < sint count"
  shows "\<exists>evs. RedisStore_ReadEvents C R s offs count dbs = Some (Inr evs) \<and>
    (\<forall>a. filter (\<lambda>e. evAuctionID e = a) evs =
       (case map_of offs a of None \<Rightarrow> [] | Some off \<Rightarrow> unread before (sint count) (store_view hash stream s dbs) (a, off)))"
proof -
  have "router_ok (router s)" using store by (simp add: store_ok_def)
  with ReadEvents_result [OF store assms(2), of offs] all_unread_of [OF _ labels assms(1)] show ?thesis by blast
qed

end

sublocale redis_source \<subseteq> src: event_source "\<lambda>offs count. RedisStore_ReadEvents C R s offs count dbs"
  "\<lambda>count. unread before count (store_view hash stream s dbs)"
  by unfold_locales (rule redis_reads)

context redis_source
begin

lemmas source_tick = src.tick_reads

end

context redis_backend
begin

lemma redis_source_here:
  "store_ok valid is_hash is_stream s dbs \<Longrightarrow> labelled (store_view hash stream s dbs) \<Longrightarrow>
   redis_source R valid hash stream ttl is_hash is_stream before tick C s dbs"
  by (intro redis_source.intro redis_backend_axioms redis_source_axioms.intro)

lemma tick_advances:
  assumes "store_ok valid is_hash is_stream s dbs" "labelled (store_view hash stream s dbs)" "distinct known"
    and "a \<in> set known" "0 < sint (streamCount d)"
    and "at_pos (offsets d a) (av_events (store_view hash stream s dbs a)) n"
  shows "\<exists>d' ms lag. dispatch_tick (\<lambda>offs count. RedisStore_ReadEvents C R s offs count dbs) now known d = Some (d', ms, lag) \<and>
    streamCount d' = streamCount d \<and>
    (let es = av_events (store_view hash stream s dbs a); k = nat (sint (streamCount d)) in
     messages_for a ms = map (\<lambda>e. (a, bid_message (event_of e))) (take k (drop n es)) \<and>
     at_pos (offsets d' a) es (min (n + k) (length es)))"
proof -
  let ?es = "av_events (store_view hash stream s dbs a)" and ?k = "nat (sint (streamCount d))"
  obtain i where i: "ForAuction (router s) a = Some i" "i < length dbs" "valid (dbs ! i)"
    using assms(1) by (rule store_ok_shard)
  have es: "?es = stream (dbs ! i) (eventsKey a)" using i(1) by (simp add: store_view_def)
  obtain off where off: "sync_offsets known (offsets d) a = Some off"
    using assms(4) by (cases "offsets d a") (auto simp: sync_offsets_def)
  have pos: "at_pos (Some off) ?es n"
    using assms(4,6) off by (auto simp: sync_offsets_def at_pos_def split: option.splits)
  have start: "start_id off = off" using pos by (auto simp: at_pos_def start_id_def)
  have ids: "\<forall>e \<in> set ?es. before ''0-0'' (fst e)" "\<forall>e \<in> set ?es. fst e \<noteq> []"
    "sorted_wrt (\<lambda>x y. before (fst x) (fst y)) ?es"
    unfolding es using stream_start stream_ids stream_ordered i(3) by blast+
  have new: "unread before (sint (streamCount d)) (store_view hash stream s dbs) (a, off) = map event_of (take ?k (drop n ?es))"
    using filter_after [OF ids(3,1) pos] start by (simp add: unread_def new_entries_def)
  obtain d' ms lag where "dispatch_tick (\<lambda>offs count. RedisStore_ReadEvents C R s offs count dbs) now known d = Some (d', ms, lag)"
    "streamCount d' = streamCount d" "messages_for a ms = map (\<lambda>e. (a, bid_message (event_of e))) (take ?k (drop n ?es))"
    "offsets d' a = Some (if take ?k (drop n ?es) = [] then off else fst (last (take ?k (drop n ?es))))"
    using redis_source.source_tick [OF redis_source_here [OF assms(1,2)] assms(3,5), of now] assms(4) off new
    by (force simp: Let_def last_map)
  with at_pos_advance [OF pos _ ids(2), of ?k] assms(5) show ?thesis by (auto simp: Let_def split: if_splits)
qed

end

section \<open>Runs of ticks\<close>

text \<open>The databases of the ticks are in order and the stream of \<open>a\<close> only grows from one to the next.\<close>

fun growing :: "('db \<Rightarrow> string \<Rightarrow> string \<rightharpoonup> string) \<Rightarrow> ('db \<Rightarrow> string \<Rightarrow> stream_entry list) \<Rightarrow> RedisStore \<Rightarrow> string \<Rightarrow>
    stream_entry list \<Rightarrow> (time \<times> string list \<times> 'db list) list \<Rightarrow> bool" where
  "growing hash stream s a es [] = True"
| "growing hash stream s a es ((now, known, dbs) # ticks) =
     (extends es (av_events (store_view hash stream s dbs a)) \<and>
      growing hash stream s a (av_events (store_view hash stream s dbs a)) ticks)"

definition ticks_ok :: "('db \<Rightarrow> bool) \<Rightarrow> ('db \<Rightarrow> string \<Rightarrow> string \<rightharpoonup> string) \<Rightarrow> ('db \<Rightarrow> string \<Rightarrow> stream_entry list) \<Rightarrow>
    ('db \<Rightarrow> string \<Rightarrow> bool) \<Rightarrow> ('db \<Rightarrow> string \<Rightarrow> bool) \<Rightarrow> RedisStore \<Rightarrow> string \<Rightarrow> (time \<times> string list \<times> 'db list) list \<Rightarrow> bool" where
  "ticks_ok valid hash stream is_hash is_stream s a ticks \<longleftrightarrow>
     (\<forall>(now, known, dbs) \<in> set ticks. store_ok valid is_hash is_stream s dbs \<and> labelled (store_view hash stream s dbs) \<and>
        distinct known \<and> a \<in> set known)"

fun last_stream :: "('db \<Rightarrow> string \<Rightarrow> string \<rightharpoonup> string) \<Rightarrow> ('db \<Rightarrow> string \<Rightarrow> stream_entry list) \<Rightarrow> RedisStore \<Rightarrow> string \<Rightarrow>
    stream_entry list \<Rightarrow> (time \<times> string list \<times> 'db list) list \<Rightarrow> stream_entry list" where
  "last_stream hash stream s a es [] = es"
| "last_stream hash stream s a es ((now, known, dbs) # ticks) =
     last_stream hash stream s a (av_events (store_view hash stream s dbs a)) ticks"

lemma growing_extends: "growing hash stream s a es ticks \<Longrightarrow> extends es (last_stream hash stream s a es ticks)"
proof (induction ticks arbitrary: es)
  case (Cons t ticks)
  obtain now known dbs where t: "t = (now, known, dbs)" by (cases t)
  with Cons.prems Cons.IH show ?case by (fastforce simp: extends_def)
qed (simp add: extends_refl)

context redis_backend
begin

lemma run_delivers:
  assumes "ticks_ok valid hash stream is_hash is_stream s a ticks" "growing hash stream s a es ticks"
    and "0 < sint (streamCount d)" "at_pos (offsets d a) es n" "n \<le> length es"
  shows "\<exists>d' ms m. dispatch_run C R s ticks d = Some (d', ms) \<and> n \<le> m \<and>
    m \<le> length (last_stream hash stream s a es ticks) \<and>
    min (n + length ticks * nat (sint (streamCount d))) (length es) \<le> m \<and>
    messages_for a ms = map (\<lambda>e. (a, bid_message (event_of e))) (drop n (take m (last_stream hash stream s a es ticks)))"
  using assms
proof (induction ticks arbitrary: d es n)
  case Nil
  then show ?case by (intro exI [of _ d] exI [of _ "[]"] exI [of _ n]) (simp add: messages_for_def)
next
  case (Cons t ticks)
  obtain now known dbs where t: "t = (now, known, dbs)" by (cases t)
  let ?k = "nat (sint (streamCount d))" and ?es = "av_events (store_view hash stream s dbs a)"
  let ?n = "min (n + ?k) (length ?es)" and ?last = "last_stream hash stream s a ?es ticks"
  have ok: "store_ok valid is_hash is_stream s dbs" "labelled (store_view hash stream s dbs)" "distinct known" "a \<in> set known"
    using Cons.prems(1) t by (simp_all add: ticks_ok_def)
  have ext: "extends es ?es" "growing hash stream s a ?es ticks" using Cons.prems(2) t by simp_all
  then have le: "length es \<le> length ?es" "n \<le> length ?es" using Cons.prems(5) by (auto simp: extends_def)
  obtain d1 ms1 lag where p: "dispatch_tick (\<lambda>offs count. RedisStore_ReadEvents C R s offs count dbs) now known d = Some (d1, ms1, lag)"
    "streamCount d1 = streamCount d" "messages_for a ms1 = map (\<lambda>e. (a, bid_message (event_of e))) (take ?k (drop n ?es))"
    "at_pos (offsets d1 a) ?es ?n"
    using tick_advances [OF ok Cons.prems(3) at_pos_extends [OF Cons.prems(4) ext(1)], of now] by (auto simp: Let_def)
  have "ticks_ok valid hash stream is_hash is_stream s a ticks" using Cons.prems(1) by (simp add: ticks_ok_def)
  then obtain d' ms m where r: "dispatch_run C R s ticks d1 = Some (d', ms)" "?n \<le> m" "m \<le> length ?last"
    "min (?n + length ticks * ?k) (length ?es) \<le> m"
    "messages_for a ms = map (\<lambda>e. (a, bid_message (event_of e))) (drop ?n (take m ?last))"
    using Cons.IH [OF _ ext(2) _ p(4)] Cons.prems(3) p(2) by auto
  have "\<exists>more. ?last = ?es @ more" using growing_extends [OF ext(2)] by (simp add: extends_def)
  then have "take k (drop n ?es) = drop n (take (min (n + k) (length ?es)) ?last)" for k
    using le(2) by (auto simp: take_drop min_def add.commute)
  then have "take ?k (drop n ?es) @ drop ?n (take m ?last) = drop n (take ?n ?last) @ drop ?n (take m ?last)" by metis
  also have "\<dots> = drop n (take m ?last)" using r(2) le by (intro drop_take_join) auto
  finally have msgs: "messages_for a (ms1 @ ms) = map (\<lambda>e. (a, bid_message (event_of e))) (drop n (take m ?last))"
    using p(3) r(5) by (simp flip: map_append)
  have "n \<le> ?n" using le by simp
  moreover have "min (n + length (t # ticks) * ?k) (length es) \<le> m" using r(4) le by (auto simp: min_def split: if_splits)
  ultimately show ?case
    using t p(1) r(1,2,3) msgs by (intro exI [of _ d'] exI [of _ "ms1 @ ms"] exI [of _ m]) auto
qed

end

section \<open>Labels\<close>

lemma labelled_iff: "labelled (store_view hash stream s dbs) \<longleftrightarrow>
    (\<forall>a. \<forall>e \<in> set (a_log (auction_at hash stream s dbs a)). evAuctionID e = a)"
  by (simp add: labelled_def auction_at_def abs_auction_def)

lemma place_spec_labels:
  "\<forall>e \<in> set (a_log st). evAuctionID e = AuctionID req \<Longrightarrow>
   \<forall>e \<in> set (a_log (fst (place_spec ttl now req eid st))). evAuctionID e = AuctionID req"
  by (auto simp: place_spec_def remember_def mk_event_def Let_def split: option.splits)

text \<open>The model of a server in memory, with its two empty databases.\<close>

interpretation demo: redis_source mem_redis mem_wf mem_hash mem_stream mem_ttl mem_is_hash mem_is_stream id_lt mem_tick
  direct_driver demo_store demo_dbs
  using demo_ready [of 0] by (intro memb.redis_source_here) (simp_all add: ready_def labelled_def demo_view)

section \<open>Properties\<close>

text \<open>
  (C13) The dispatcher neither loses nor repeats nor reorders events: while an auction stays known, over
  any number of ticks during which its stream grows, the messages broadcast for it are those of
  the first \<open>m\<close> entries of its stream, in stream order, each once. And it keeps up: after \<open>t\<close> ticks
  with a read limit of \<open>c\<close>, \<open>m\<close> is at least \<open>t * c\<close> or covers all entries present before the first tick.
\<close>

theorem dispatcher_delivers_in_order:
  assumes "redis_backend R valid hash stream ttl is_hash is_stream before tick C"
    and "ticks_ok valid hash stream is_hash is_stream s a ticks" and "growing hash stream s a es ticks"
    and "0 < sint (streamCount d)" and "offsets d a = None"
  shows "\<exists>d' ms m. dispatch_run C R s ticks d = Some (d', ms) \<and>
    messages_for a ms = map (\<lambda>e. (a, bid_message (event_of e))) (take m (last_stream hash stream s a es ticks)) \<and>
    min (length ticks * nat (sint (streamCount d))) (length es) \<le> m \<and>
    m \<le> length (last_stream hash stream s a es ticks)"
proof -
  have "at_pos (offsets d a) es 0" using assms(5) by (simp add: at_pos_def)
  from redis_backend.run_delivers [OF assms(1-4) this] show ?thesis by auto
qed

theorem dispatcher_delivers_in_order_witness:
  "\<exists>d' ms m. dispatch_run direct_driver mem_redis demo_store [(0, [''a1'', ''a2''], demo_dbs), (1, [''a1''], demo_dbs)]
      (NewEventDispatcher 0) = Some (d', ms) \<and>
    messages_for ''a1'' ms = map (\<lambda>e. (''a1'', bid_message (event_of e)))
      (take m (last_stream mem_hash mem_stream demo_store ''a1'' [] [(0, [''a1'', ''a2''], demo_dbs), (1, [''a1''], demo_dbs)]))"
proof -
  let ?ticks = "[(0, [''a1'', ''a2''], demo_dbs), (1, [''a1''], demo_dbs)]"
  have "mem_ready 0 demo_store demo_dbs" by (rule demo_ready) simp
  then have ok: "ticks_ok mem_wf mem_hash mem_stream mem_is_hash mem_is_stream demo_store ''a1'' ?ticks"
    by (simp add: ticks_ok_def ready_def labelled_def demo_view)
  have gr: "growing mem_hash mem_stream demo_store ''a1'' [] ?ticks" by (simp add: demo_view extends_def)
  show ?thesis
    using dispatcher_delivers_in_order [OF memb.redis_backend_axioms ok gr, of "NewEventDispatcher 0"]
    by (auto simp: NewEventDispatcher_def simp del: dispatch_run.simps last_stream.simps)
qed

text \<open>
  (C19) After every tick against working servers the dispatcher holds an offset for exactly the auctions
  the hub knows, so that its memory is bounded by them, and it broadcasts only to those.
\<close>

theorem dispatcher_tracks_known_auctions:
  assumes "redis_backend R valid hash stream ttl is_hash is_stream before tick C"
    and "store_ok valid is_hash is_stream s dbs" "labelled (store_view hash stream s dbs)" "distinct known"
    and "0 < sint (streamCount d)"
  shows "\<exists>d' ms lag. dispatch_tick (\<lambda>offs count. RedisStore_ReadEvents C R s offs count dbs) now known d = Some (d', ms, lag) \<and>
    dom (offsets d') = set known \<and> fst ` set ms \<subseteq> set known"
proof -
  obtain d' ms lag where "dispatch_tick (\<lambda>offs count. RedisStore_ReadEvents C R s offs count dbs) now known d = Some (d', ms, lag)"
    "dom (offsets d') = set known" "fst ` set ms \<subseteq> set known"
    using redis_source.source_tick [OF redis_backend.redis_source_here [OF assms(1-3)] assms(4,5), of now]
    by (elim exE conjE) (rule that)
  then show ?thesis by (intro exI conjI)
qed

theorem dispatcher_tracks_known_auctions_witness:
  "\<exists>d' ms lag. dispatch_tick (\<lambda>offs count. RedisStore_ReadEvents direct_driver mem_redis demo_store offs count demo_dbs) 0 [''a1'']
      \<lparr>streamCount = 256, offsets = [''gone'' \<mapsto> ''7-0'']\<rparr> = Some (d', ms, lag) \<and> dom (offsets d') = {''a1''}"
proof -
  have "mem_ready 0 demo_store demo_dbs" by (rule demo_ready) simp
  then have "store_ok mem_wf mem_is_hash mem_is_stream demo_store demo_dbs" "labelled (store_view mem_hash mem_stream demo_store demo_dbs)"
    by (simp_all add: ready_def labelled_def demo_view)
  from dispatcher_tracks_known_auctions [OF memb.redis_backend_axioms this, of "[''a1'']" "\<lparr>streamCount = 256, offsets = [''gone'' \<mapsto> ''7-0'']\<rparr>" 0]
  show ?thesis by auto
qed

end
