(* ===== verification/Wiring.thy ===== *)
theory Wiring
  imports Grpc Dispatcher
begin

text \<open>
  \<open>cmd/server/main.go\<close>: how the components are put together, the two probes of the HTTP server, and
  what the process does when it stops. The environment, the listener, and of the driver \<open>redis.NewClient\<close>
  and \<open>PING\<close> are parameters. The servers, goroutines and signals of the libraries are represented by their outcomes.
\<close>

section \<open>Definitions\<close>

text \<open>The objects \<open>main\<close> holds once everything is started.\<close>

record 'db server =
  srv_config :: Config
  srv_gc_percent :: int64
  srv_mem_limit :: "int64 option"
  srv_router :: RedisRouter
  srv_store :: RedisStore
  srv_hub :: Hub
  srv_dispatcher :: EventDispatcher
  srv_api :: "(RedisStore \<times> 'db list) API"
  srv_streams :: uint32

text \<open>\<open>os.Exit(1)\<close> after logging a message, a panic, or a running server.\<close>

datatype 'db startup = Exit1 string | Panicked | Started "'db server"

definition main_start :: "(redis_options \<Rightarrow> bool) \<Rightarrow> 'db go_redis \<Rightarrow> 'db redis_cmds \<Rightarrow> (string \<Rightarrow> string option) \<Rightarrow> environ \<Rightarrow>
    'db startup" where
  "main_start accepts C R listen env =
     (case Load env of
        Inl e \<Rightarrow> Exit1 ''failed to load config''
      | Inr cfg \<Rightarrow>
          (case NewRedisRouter accepts (RedisAddresses cfg) (RedisPassword cfg) (RedisDB cfg) (RedisPoolSize cfg) of
             None \<Rightarrow> Panicked
           | Some (Inl e) \<Rightarrow> Exit1 ''failed to initialize redis router''
           | Some (Inr r) \<Rightarrow>
               (let m = NewMetrics; store = NewRedisStore r cfg;
                    service = NewService (redis_Store C R) (DefaultAuctionDuration cfg);
                    h = NewHub (MaxWSQueueDepth cfg); d = NewEventDispatcher (StreamReadCount cfg)
                in case NewServer listen (GRPCAddress cfg) service (MaxInFlightBids cfg) m (\<lambda>t st. BreakerOpen t (fst st)) of
                     None \<Rightarrow> Panicked
                   | Some (Inl e) \<Rightarrow> Exit1 ''failed to initialize gRPC server''
                   | Some (Inr (a, streams)) \<Rightarrow>
                       Started \<lparr>srv_config = cfg, srv_gc_percent = GOGC cfg,
                         srv_mem_limit = (if 0 < sint (GoMemLimitBytes cfg) then Some (GoMemLimitBytes cfg) else None),
                         srv_router = r, srv_store = store, srv_hub = h, srv_dispatcher = d, srv_api = a,
                         srv_streams = streams\<rparr>)))"

text \<open>The answers of the probes: status code, content type if set, body.\<close>

type_synonym http_reply = "nat \<times> string option \<times> string"

definition json_status :: "string \<Rightarrow> string" where
  "json_status v = CHR ''{'' # json_field ''status'' (json_string v) @ ''}''"

definition healthz :: http_reply where
  "healthz = (200, Some ''application/json'', json_status ''ok'')"

definition readyz :: "(nat \<Rightarrow> go_error option) \<Rightarrow> RedisRouter \<Rightarrow> http_reply option" where
  "readyz ping r =
     (case ForAuction r ''health'' of
        None \<Rightarrow> None
      | Some i \<Rightarrow> (case ping i of
                     Some e \<Rightarrow> Some (503, None, json_status ''redis_unavailable'')
                   | None \<Rightarrow> Some (200, None, json_status ''ready'')))"

text \<open>Why the \<open>select\<close> at the end returns, and what happens then, deferred calls included.\<close>

datatype stop_cause = StopSignal | ServeEnded bool

datatype stop_action = Log_Info string | Log_Error string | GracefulStop | ShutdownHTTP duration | CloseRouter

definition main_stop :: "Config \<Rightarrow> stop_cause \<Rightarrow> stop_action list" where
  "main_stop cfg cause =
     (case cause of
        StopSignal \<Rightarrow> [Log_Info ''shutdown signal received'']
      | ServeEnded server_closed \<Rightarrow> if server_closed then [] else [Log_Error ''server terminated''])
     @ [GracefulStop, ShutdownHTTP (GracefulShutdownTimeout cfg), Log_Info ''server shutdown complete'', CloseRouter]"

fun perform :: "stop_action \<Rightarrow> 'db server \<Rightarrow> 'db server" where
  "perform CloseRouter srv = srv\<lparr>srv_router := Close (srv_router srv)\<rparr>"
| "perform _ srv = srv"

text \<open>The logger writes the records of its level and above.\<close>

definition logged :: "Config \<Rightarrow> stop_action \<Rightarrow> bool" where
  "logged cfg a =
     (case a of
        Log_Info _ \<Rightarrow> LogLevel cfg \<le> LevelInfo
      | Log_Error _ \<Rightarrow> LogLevel cfg \<le> LevelError
      | _ \<Rightarrow> False)"

section \<open>Lemmas\<close>

definition config_options :: "Config \<Rightarrow> redis_options list" where
  "config_options cfg = map (\<lambda>a. client_options a (RedisPassword cfg) (RedisDB cfg) (RedisPoolSize cfg)) (RedisAddresses cfg)"

lemma router_of_config:
  assumes "Load env = Inr cfg"
  shows "NewRedisRouter accepts (RedisAddresses cfg) (RedisPassword cfg) (RedisDB cfg) (RedisPoolSize cfg) =
    (if \<forall>opts \<in> set (config_options cfg). accepts opts
     then Some (Inr \<lparr>clients = map client_of (config_options cfg), closed = False\<rparr>) else None)"
proof -
  have "\<forall>a \<in> set (RedisAddresses cfg). a \<noteq> [] \<and> TrimSpace a = a"
    using Load_addresses [OF assms] splitAddrs_trimmed by auto
  then have "filter (\<lambda>a. a \<noteq> []) (map TrimSpace (RedisAddresses cfg)) = RedisAddresses cfg"
    by (simp add: map_idI)
  then have "wanted_options (RedisAddresses cfg) (RedisPassword cfg) (RedisDB cfg) (RedisPoolSize cfg) = config_options cfg"
    by (simp add: wanted_options_def config_options_def)
  moreover have "config_options cfg \<noteq> []" using Load_addresses [OF assms] by (auto simp: config_options_def)
  ultimately show ?thesis by (simp add: NewRedisRouter_def router_clients_wanted)
qed

lemma new_breaker_closed: "\<not> isOpen t (newCircuitBreaker thr d)"
  by (simp add: isOpen_def newCircuitBreaker_def)

lemma NewService_default: "0 < sint (defaultDuration (NewService S d))"
  by (simp add: NewService_def go_durations)

lemma NewEventDispatcher_count: "0 < sint (streamCount (NewEventDispatcher c))"
  by (simp add: NewEventDispatcher_def)

section \<open>Properties\<close>

text \<open>
  (C30) Once the configuration is read, starting up fails in three ways only: the driver panics on the
  options of a client, which no check of the configuration prevents (with a driver that refuses
  negative pool sizes, as go-redis does, a negative \<open>REDIS_POOL_SIZE\<close> panics whatever the rest); the
  address of the gRPC server cannot be bound; or \<open>MAX_INFLIGHT_BIDS\<close> is negative, which no check refuses
  either and which panics when the semaphore is made. Otherwise the server runs with one client per
  configured address, the remembered window and stream limit of the configuration, a closed breaker,
  an empty semaphore of the configured size, and a hub without clients, and neither its store nor the
  default duration nor the read limit can make a later call panic or read nothing. Stopping it closes
  every client.
\<close>

theorem server_starts:
  assumes "Load env = Inr cfg" and "length (RedisAddresses cfg) < 2 ^ 32"
  shows "(((\<exists>opts \<in> set (config_options cfg). \<not> accepts opts) \<and> main_start accepts C R listen env = Panicked) \<or>
    ((\<forall>opts \<in> set (config_options cfg). accepts opts) \<and>
     ((listen (GRPCAddress cfg) \<noteq> None \<and> main_start accepts C R listen env = Exit1 ''failed to initialize gRPC server'') \<or>
      (listen (GRPCAddress cfg) = None \<and> sint (MaxInFlightBids cfg) < 0 \<and> main_start accepts C R listen env = Panicked) \<or>
      (listen (GRPCAddress cfg) = None \<and> 0 \<le> sint (MaxInFlightBids cfg) \<and>
       (\<exists>srv. main_start accepts C R listen env = Started srv \<and>
          map (Addr \<circ> Options) (clients (srv_router srv)) = RedisAddresses cfg \<and>
          router (srv_store srv) = srv_router srv \<and> idemTTL (srv_store srv) = BidIdempotencyTTL cfg \<and>
          {t. BreakerOpen t (srv_store srv)} = {} \<and>
          {dbs. redis_inv (srv_store srv, dbs)} = {dbs. length dbs = length (RedisAddresses cfg)} \<and>
          svc_store (svc (srv_api srv)) = redis_Store C R \<and> 0 < sint (defaultDuration (svc (srv_api srv))) \<and>
          int (sem_cap (srv_api srv)) = sint (MaxInFlightBids cfg) \<and> sem_len (srv_api srv) = 0 \<and>
          KnownAuctions (srv_hub srv) = {} \<and> 0 < sint (streamCount (srv_dispatcher srv)) \<and>
          (\<forall>c \<in> set (clients (srv_router (fold perform (main_stop cfg cause) srv))). client_closed c)))))) \<and>
    ((\<forall>opts. sint (PoolSize opts) < 0 \<longrightarrow> \<not> accepts opts) \<and> sint (RedisPoolSize cfg) < 0 \<longrightarrow>
     main_start accepts C R listen env = Panicked)"
proof (intro conjI impI, goal_cases)
  case 1
  note start = main_start_def router_of_config [OF assms(1)] assms(1) Let_def NewServer_def
  show ?case
  proof (cases "\<forall>opts \<in> set (config_options cfg). accepts opts")
    case False
    then show ?thesis by (auto simp: start)
  next
    case ok: True
    let ?cs = "map client_of (config_options cfg)"
    have cs: "map (Addr \<circ> Options) ?cs = RedisAddresses cfg" "length ?cs = length (RedisAddresses cfg)"
      by (simp_all add: comp_def config_options_def client_options_def)
    have "router_ok \<lparr>clients = ?cs, closed = False\<rparr>"
      using conjunct2 [OF Load_addresses [OF assms(1)]] assms(2) by (simp add: router_ok_def config_options_def)
    moreover have "fold perform (main_stop cfg cause) srv = srv\<lparr>srv_router := Close (srv_router srv)\<rparr>" for srv :: "'a server"
      by (simp add: main_stop_def split: stop_cause.split)
    ultimately show ?thesis
      using ok cs
      by (cases "listen (GRPCAddress cfg)"; cases "sint (MaxInFlightBids cfg) < 0")
        (simp_all add: start NewRedisStore_def BreakerOpen_def new_breaker_closed redis_inv_def NewService_default
          NewEventDispatcher_count KnownAuctions_def NewHub_def Close_def
          NewService_def [THEN arg_cong [where f = svc_store]])
  qed
next
  case 2
  have "RedisAddresses cfg \<noteq> []" using Load_addresses [OF assms(1)] by blast
  then have "\<exists>opts \<in> set (config_options cfg). \<not> accepts opts"
    using 2 by (cases "RedisAddresses cfg") (simp_all add: config_options_def client_options_def)
  then show ?case by (auto simp: main_start_def router_of_config [OF assms(1)] assms(1))
qed

lemma no_env_addresses:
  "\<exists>cfg. Load (\<lambda>_. []) = Inr cfg \<and> RedisAddresses cfg = [''127.0.0.1:6379''] \<and> sint (MaxInFlightBids cfg) = 100000 \<and>
     sint (RedisPoolSize cfg) = 256"
proof -
  have "splitAddrs ''127.0.0.1:6379'' = [''127.0.0.1:6379'']" by code_simp
  then show ?thesis
    by (simp add: Load_def getEnv_def getEnvInt_def getEnvDuration_def getEnvInt64_def keep_first_def)
qed

theorem server_starts_witness:
  "\<exists>srv. main_start (\<lambda>opts. 0 \<le> sint (PoolSize opts)) direct_driver mem_redis (\<lambda>_. None) (\<lambda>_. []) = Started srv \<and>
    map (Addr \<circ> Options) (clients (srv_router srv)) = [''127.0.0.1:6379'']"
proof -
  obtain cfg where cfg: "Load (\<lambda>_. []) = Inr cfg" "RedisAddresses cfg = [''127.0.0.1:6379'']" "sint (MaxInFlightBids cfg) = 100000"
    "sint (RedisPoolSize cfg) = 256"
    using no_env_addresses by blast
  have "\<forall>opts \<in> set (config_options cfg). 0 \<le> sint (PoolSize opts)"
    using cfg(4) by (simp add: config_options_def client_options_def)
  with server_starts [OF cfg(1), of "\<lambda>opts. 0 \<le> sint (PoolSize opts)" direct_driver mem_redis "\<lambda>_. None" StopSignal] cfg(2,3)
  show ?thesis by auto
qed

end
