(* ===== verification/Http.thy ===== *)
theory Http
  imports Hub
begin

text \<open>
  How a websocket request finds its auction: \<open>r.URL.Query().Get\<close> of \<open>net/url\<close> on the raw query of the
  request, and the handler of \<open>internal/transport/ws/handler.go\<close> around the part of \<open>ServeHTTP\<close> that \<open>Hub\<close>
  models. The upgrade is a parameter, which may consult the handler's origin check.
\<close>

section \<open>Queries\<close>

text \<open>
  \<open>url.QueryUnescape\<close>, and \<open>strings.Cut\<close> at a single character. \<open>ParseQuery\<close> skips parts that are
  empty, hold a semicolon, or do not unescape; its result lists the pairs in the order of the query,
  so that \<open>Get\<close>, the first value of a key, is a lookup. (The limit of recent releases on the number of
  parameters is left out.)
\<close>

fun QueryUnescape :: "string \<Rightarrow> string option" where
  "QueryUnescape [] = Some []"
| "QueryUnescape (c # cs) =
     (if c = CHR ''%'' then
        (case cs of
           a # b # rest \<Rightarrow>
             (case (hex_val a, hex_val b) of
                (Some x, Some y) \<Rightarrow> map_option ((#) (char_of (16 * x + y))) (QueryUnescape rest)
              | _ \<Rightarrow> None)
         | _ \<Rightarrow> None)
      else map_option ((#) (if c = CHR ''+'' then CHR '' '' else c)) (QueryUnescape cs))"

definition Cut :: "char \<Rightarrow> string \<Rightarrow> string \<times> string" where
  "Cut sep s = (takeWhile (\<lambda>c. c \<noteq> sep) s, tl (dropWhile (\<lambda>c. c \<noteq> sep) s))"

lemma Cut_shorter: "s \<noteq> [] \<Longrightarrow> Cut sep s = (a, b) \<Longrightarrow> length b < length s"
proof -
  assume "s \<noteq> []" "Cut sep s = (a, b)"
  moreover have "length (dropWhile (\<lambda>c. c \<noteq> sep) s) \<le> length s" by (rule length_dropWhile_le)
  ultimately show ?thesis by (cases "dropWhile (\<lambda>c. c \<noteq> sep) s") (auto simp: Cut_def)
qed

function ParseQuery :: "string \<Rightarrow> (string \<times> string) list" where
  "ParseQuery query =
     (if query = [] then []
      else case Cut CHR ''&'' query of
        (part, rest) \<Rightarrow>
          (if CHR '';'' \<in> set part \<or> part = [] then []
           else case Cut CHR ''='' part of
             (k, v) \<Rightarrow>
               (case (QueryUnescape k, QueryUnescape v) of
                  (Some key, Some val) \<Rightarrow> [(key, val)]
                | _ \<Rightarrow> [])) @ ParseQuery rest)"
  by pat_completeness auto
termination
  by (relation "measure length") (auto intro: Cut_shorter [OF _ sym])

declare ParseQuery.simps [simp del]

definition query_get :: "string \<Rightarrow> string \<Rightarrow> string" where
  "query_get raw key = (case map_of (ParseQuery raw) key of None \<Rightarrow> [] | Some v \<Rightarrow> v)"

section \<open>The handler\<close>

record http_request =
  req_Path :: string
  req_RawQuery :: string
  req_Origin :: string

record Handler =
  upgrader_CheckOrigin :: "http_request \<Rightarrow> bool"

definition NewHandler :: Handler where
  "NewHandler = \<lparr>upgrader_CheckOrigin = (\<lambda>_. True)\<rparr>"

definition Handler_ServeHTTP :: "Handler \<Rightarrow> ((http_request \<Rightarrow> bool) \<Rightarrow> http_request \<Rightarrow> bool) \<Rightarrow> http_request \<Rightarrow>
    client \<Rightarrow> hub_sys \<Rightarrow> (http_outcome \<times> hub_sys) option" where
  "Handler_ServeHTTP h Upgrade r c s =
     ServeHTTP (query_get (req_RawQuery r) ''auction_id'') (Upgrade (upgrader_CheckOrigin h) r) c s"

text \<open>\<open>url.QueryEscape\<close>, as a client would write an identifier into the address.\<close>

definition unreserved :: "char \<Rightarrow> bool" where
  "unreserved c \<longleftrightarrow>
     (let b = byte c
      in 48 \<le> b \<and> b \<le> 57 \<or> 65 \<le> b \<and> b \<le> 90 \<or> 97 \<le> b \<and> b \<le> 122 \<or> c \<in> set ''-_.~'')"

definition upper_hex :: "nat \<Rightarrow> char" where
  "upper_hex n = (if n < 10 then char_of (48 + n) else char_of (55 + n))"

definition escape_char :: "char \<Rightarrow> string" where
  "escape_char c =
     (if unreserved c then [c] else if c = CHR '' '' then ''+''
      else [CHR ''%'', upper_hex (byte c div 16), upper_hex (byte c mod 16)])"

definition QueryEscape :: "string \<Rightarrow> string" where
  "QueryEscape s = concat (map escape_char s)"

section \<open>Lemmas\<close>

lemma hex_val_upper: "n < 16 \<Longrightarrow> hex_val (upper_hex n) = Some n"
  by (simp add: hex_val_def upper_hex_def byte_def)

lemma unreserved_plain:
  "unreserved c \<Longrightarrow> c \<noteq> CHR ''%'' \<and> c \<noteq> CHR ''+'' \<and> c \<noteq> CHR ''&'' \<and> c \<noteq> CHR '';'' \<and> c \<noteq> CHR ''=''"
  by (auto simp: unreserved_def byte_def)

lemma QueryUnescape_escape: "QueryUnescape (QueryEscape s) = Some s"
proof (induction s)
  case Nil
  then show ?case by (simp add: QueryEscape_def)
next
  case (Cons c s)
  have b: "byte c div 16 < 16" "byte c mod 16 < 16" using byte_lt [of c] by simp_all
  have "char_of (16 * (byte c div 16) + byte c mod 16) = c" by simp
  with Cons unreserved_plain [of c] hex_val_upper [OF b(1)] hex_val_upper [OF b(2)] show ?case
    by (auto simp: QueryEscape_def escape_char_def)
qed

lemma upper_hex_alnum: "n < 16 \<Longrightarrow> byte (upper_hex n) \<in> {48..57} \<union> {65..70}"
  by (simp add: byte_def upper_hex_def)

lemma separators_bytes: "byte CHR ''&'' = 38" "byte CHR '';'' = 59" "byte CHR ''='' = 61"
  by (simp_all add: byte_def)

lemma QueryEscape_chars:
  assumes "c \<in> set (QueryEscape s)"
  shows "c \<noteq> CHR ''&'' \<and> c \<noteq> CHR '';'' \<and> c \<noteq> CHR ''=''"
proof -
  have hex: "upper_hex n \<noteq> CHR ''&'' \<and> upper_hex n \<noteq> CHR '';'' \<and> upper_hex n \<noteq> CHR ''=''" if "n < 16" for n
  proof -
    have "byte (upper_hex n) \<notin> {38, 59, 61}" using upper_hex_alnum [OF that] by auto
    then show ?thesis by (metis insertCI separators_bytes)
  qed
  obtain d where "c \<in> set (escape_char d)" using assms by (auto simp: QueryEscape_def)
  moreover have "byte d div 16 < 16" "byte d mod 16 < 16" using byte_lt [of d] by simp_all
  ultimately show ?thesis using hex unreserved_plain [of d] by (auto simp: escape_char_def split: if_splits)
qed

lemma Cut_plain: "sep \<notin> set a \<Longrightarrow> Cut sep (a @ sep # b) = (a, b)"
  and Cut_none: "sep \<notin> set a \<Longrightarrow> Cut sep a = (a, [])"
  by (induction a) (auto simp: Cut_def)

lemma ParseQuery_pair:
  assumes "rest = [] \<or> (\<exists>r. rest = CHR ''&'' # r)"
  shows "ParseQuery (QueryEscape k @ CHR ''='' # QueryEscape v @ rest) = (k, v) # ParseQuery (tl rest)"
proof -
  let ?part = "QueryEscape k @ CHR ''='' # QueryEscape v"
  have plain: "CHR ''&'' \<notin> set ?part" "CHR '';'' \<notin> set ?part" "CHR ''='' \<notin> set (QueryEscape k)"
    using QueryEscape_chars by auto
  have "Cut CHR ''&'' (?part @ rest) = (?part, tl rest)"
    using assms Cut_plain [OF plain(1)] Cut_none [OF plain(1)] by auto
  moreover have "Cut CHR ''='' ?part = (QueryEscape k, QueryEscape v)" using Cut_plain [OF plain(3)] .
  ultimately show ?thesis
    using plain(2) by (simp add: ParseQuery.simps [of "?part @ rest" for rest] ParseQuery.simps [of "QueryEscape k @ CHR ''='' # QueryEscape v @ rest"] QueryUnescape_escape)
qed

text \<open>Parameters in front of others do not change how those are read, whatever they are.\<close>

lemma ParseQuery_append: "ParseQuery (p @ CHR ''&'' # q) = ParseQuery p @ ParseQuery q"
proof (induction p rule: ParseQuery.induct)
  case (1 p)
  let ?pairs = "\<lambda>part. if CHR '';'' \<in> set part \<or> part = [] then []
    else case Cut CHR ''='' part of (k, v) \<Rightarrow>
      (case (QueryUnescape k, QueryUnescape v) of (Some key, Some val) \<Rightarrow> [(key, val)] | _ \<Rightarrow> [])"
  have unfold: "ParseQuery x = (if x = [] then [] else ?pairs (fst (Cut CHR ''&'' x)) @ ParseQuery (snd (Cut CHR ''&'' x)))" for x
    by (subst ParseQuery.simps) (simp split: prod.split)
  have empty: "ParseQuery [] = []" by (simp add: ParseQuery.simps)
  show ?case
  proof (cases "CHR ''&'' \<in> set p")
    case False
    note cut = Cut_plain [OF False, of q] Cut_none [OF False]
    have "ParseQuery (p @ CHR ''&'' # q) = ?pairs p @ ParseQuery q"
      by (subst unfold) (simp add: cut)
    moreover have "ParseQuery p = ?pairs p"
      by (subst unfold) (simp add: cut empty)
    ultimately show ?thesis by simp
  next
    case True
    then obtain a b where p: "p = a @ CHR ''&'' # b" "CHR ''&'' \<notin> set a" by (meson split_list_first)
    have "ParseQuery (b @ CHR ''&'' # q) = ParseQuery b @ ParseQuery q"
      using 1 Cut_plain [OF p(2), of b] p(1) by simp
    moreover have "ParseQuery p = ?pairs a @ ParseQuery b"
      by (subst unfold) (simp add: p(1) Cut_plain [OF p(2)])
    moreover have "ParseQuery (p @ CHR ''&'' # q) = ?pairs a @ ParseQuery (b @ CHR ''&'' # q)"
      by (subst unfold) (simp add: p(1) Cut_plain [OF p(2)])
    ultimately show ?thesis by simp
  qed
qed

section \<open>Property\<close>

text \<open>
  (C17) Every auction can be watched: take a request whose query names an auction identifier, escaped as
  \<open>url.QueryEscape\<close> does, with any text in front of it and behind it, from which it is separated by
  ampersands. The client is subscribed to exactly this auction, whatever bytes the identifier holds and
  whatever the request's origin, unless the text in front already holds a readable parameter
  \<open>auction_id\<close>, which then decides. An empty identifier is refused and nothing changes.
\<close>

theorem ws_request_roundtrip:
  assumes "req_RawQuery r = front @ ''auction_id='' @ QueryEscape a @ rest"
    and "front = [] \<or> last front = CHR ''&''" and "rest = [] \<or> hd rest = CHR ''&''"
  defines "b \<equiv> (case map_of (ParseQuery front) ''auction_id'' of Some v \<Rightarrow> v | None \<Rightarrow> a)"
  shows "query_get (req_RawQuery r) ''auction_id'' = b \<and>
    Handler_ServeHTTP NewHandler (\<lambda>check r. check r \<and> upgrades r) r c s =
      (if b = [] then Some (BadRequest, s)
       else if \<not> upgrades r then Some (UpgradeFailed, s)
       else if sint (queueDepth (hub s)) < 0 then Some (HandlerPanic, s)
       else map_option (\<lambda>h. (Subscribed, s\<lparr>hub := h, heap := (heap s)(c \<mapsto> subscriber b (nat (sint (queueDepth (hub s)))))\<rparr>))
              (Register b c (hub s)))"
proof -
  let ?q = "''auction_id='' @ QueryEscape a @ rest"
  have "QueryEscape ''auction_id'' = ''auction_id''" by code_simp
  then have q: "?q = QueryEscape ''auction_id'' @ CHR ''='' # QueryEscape a @ rest" by simp
  have "rest = [] \<or> (\<exists>x. rest = CHR ''&'' # x)" using assms(3) by (cases rest) auto
  then have tail: "ParseQuery ?q = (''auction_id'', a) # ParseQuery (tl rest)"
    unfolding q by (rule ParseQuery_pair)
  have "map_of (ParseQuery (front @ ?q)) ''auction_id'' = Some b"
  proof (cases "front = []")
    case True
    then show ?thesis using tail by (simp add: b_def ParseQuery.simps [of "[]"])
  next
    case False
    then obtain p where p: "front = p @ [CHR ''&'']" using assms(2) by (metis append_butlast_last_id)
    then have "ParseQuery (front @ ?q) = ParseQuery p @ ParseQuery ?q" using ParseQuery_append [of p ?q] by simp
    moreover have "ParseQuery front = ParseQuery p" using ParseQuery_append [of p "[]"] p by (simp add: ParseQuery.simps [of "[]"])
    ultimately show ?thesis using tail by (simp add: b_def map_add_def split: option.split)
  qed
  then have "query_get (req_RawQuery r) ''auction_id'' = b" using assms(1) by (simp add: query_get_def)
  then show ?thesis
    by (simp add: Handler_ServeHTTP_def NewHandler_def ServeHTTP_def split: option.split)
qed

theorem ws_request_roundtrip_witness:
  "Handler_ServeHTTP NewHandler (\<lambda>check r. check r \<and> True)
     \<lparr>req_Path = ''/ws'', req_RawQuery = ''token=x&auction_id=a%26b+%2F&auction_id=z'', req_Origin = ''evil.example''\<rparr> 7 (hub_init 16) =
   Some (Subscribed, (hub_init 16)\<lparr>hub := (NewHub 16)\<lparr>register := [(''a&b /'', 7)]\<rparr>,
     heap := [7 \<mapsto> subscriber ''a&b /'' 16]\<rparr>)"
proof -
  have e: "QueryEscape ''a&b /'' = ''a%26b+%2F''" "ParseQuery ''token=x&'' = [(''token'', ''x'')]" by code_simp+
  then show ?thesis
    using ws_request_roundtrip [of "\<lparr>req_Path = ''/ws'', req_RawQuery = ''token=x&auction_id=a%26b+%2F&auction_id=z'', req_Origin = ''evil.example''\<rparr>"
        "''token=x&''" "''a&b /''" "''&auction_id=z''" "\<lambda>_. True" 7 "hub_init 16"]
    by (simp add: hub_init_def NewHub_def Register_def register_cap_def)
qed

end
