(* ===== verification/Process.thy ===== *)
theory Process
  imports Wiring Http
begin

text \<open>
  The running process of \<open>cmd/server/main.go\<close>: the routes of its HTTP server, and the goroutines from the
  start of the two servers to the end of \<open>main\<close>. A server's \<open>Serve\<close> returns when it fails or is stopped,
  its goroutine then sends the error to \<open>errCh\<close>, and \<open>main\<close> waits for a signal or for one of these errors.
  When \<open>main\<close> has returned the process is over and no goroutine moves any more.
\<close>

section \<open>Paths\<close>

text \<open>
  What the library's \<open>ServeMux\<close> does with a path before it looks it up: \<open>path.Clean\<close>, for a path that begins
  with a slash, and \<open>cleanPath\<close>, which adds a missing slash in front and keeps the one at the end.
\<close>

fun clean_segments :: "string list \<Rightarrow> string list \<Rightarrow> string list" where
  "clean_segments kept [] = rev kept"
| "clean_segments kept (seg # rest) =
     clean_segments (if seg = [] \<or> seg = ''.'' then kept else if seg = ''..'' then tl kept else seg # kept) rest"

definition slashed :: "string list \<Rightarrow> string" where
  "slashed segs = concat (map ((#) CHR ''/'') segs)"

definition path_Clean :: "string \<Rightarrow> string" where
  "path_Clean p = (let segs = clean_segments [] (Split CHR ''/'' p) in if segs = [] then ''/'' else slashed segs)"

definition cleanPath :: "string \<Rightarrow> string" where
  "cleanPath p =
     (let p = (if p = [] \<or> hd p \<noteq> CHR ''/'' then CHR ''/'' # p else p); np = path_Clean p
      in if last p = CHR ''/'' \<and> np \<noteq> ''/'' then np @ ''/'' else np)"

section \<open>Routes\<close>

datatype route = RouteWs | RouteMetrics | RouteHealthz | RouteReadyz

text \<open>The patterns have no trailing slash and no wildcard, so that a clean path matches only if it is equal.\<close>

definition main_mux :: "(string \<times> route) list" where
  "main_mux = [(''/ws'', RouteWs), (''/metrics'', RouteMetrics), (''/healthz'', RouteHealthz), (''/readyz'', RouteReadyz)]"

record http_server =
  http_Addr :: string
  http_Mux :: "(string \<times> route) list"
  ReadHeaderTimeout :: duration

definition new_http_server :: "Config \<Rightarrow> http_server" where
  "new_http_server cfg = \<lparr>http_Addr = HTTPAddress cfg, http_Mux = main_mux, ReadHeaderTimeout = 2 * Second\<rparr>"

datatype http_answer = Probe http_reply | Websocket http_outcome | MetricsPage | NotFoundPage | Redirected string

text \<open>
  A request with another method than \<open>CONNECT\<close> and a path without escapes. The library sends a request
  whose path is not clean to the clean one; the exposition of the metrics is the library's too. \<open>None\<close> is a
  panic of the probe or a subscription that blocks.
\<close>

definition http_serve :: "(nat \<Rightarrow> go_error option) \<Rightarrow> ((http_request \<Rightarrow> bool) \<Rightarrow> http_request \<Rightarrow> bool) \<Rightarrow>
    http_server \<Rightarrow> RedisRouter \<Rightarrow> http_request \<Rightarrow> client \<Rightarrow> hub_sys \<Rightarrow> (http_answer \<times> hub_sys) option" where
  "http_serve ping Upgrade srv r req c s =
     (if cleanPath (req_Path req) \<noteq> req_Path req then Some (Redirected (cleanPath (req_Path req)), s)
      else case map_of (http_Mux srv) (req_Path req) of
        None \<Rightarrow> Some (NotFoundPage, s)
      | Some RouteWs \<Rightarrow> map_option (\<lambda>(o', s'). (Websocket o', s')) (Handler_ServeHTTP NewHandler Upgrade req c s)
      | Some RouteMetrics \<Rightarrow> Some (MetricsPage, s)
      | Some RouteHealthz \<Rightarrow> Some (Probe healthz, s)
      | Some RouteReadyz \<Rightarrow> map_option (\<lambda>a. (Probe a, s)) (readyz ping r))"

section \<open>The life of the process\<close>

text \<open>How a server ends: an error of its own, \<open>nil\<close> after \<open>GracefulStop\<close>, \<open>ErrServerClosed\<close> after \<open>Shutdown\<close>.\<close>

datatype serve_end = ServeFailed string | ServeNil | ErrServerClosed

datatype serve_pc = Serving | Sending serve_end | ServeReported

datatype main_pc = MainWaits | MainStopsGrpc | MainStopsHttp | MainCloses | MainReturned

record 'db process =
  pr_server :: "'db server"
  pr_grpc :: serve_pc
  pr_http :: serve_pc
  pr_errCh :: "serve_end list"
  pr_signal :: bool
  pr_main :: main_pc
  pr_done :: "stop_action list"

definition errCh_cap :: nat where "errCh_cap = 2"

definition process_start :: "'db server \<Rightarrow> 'db process" where
  "process_start srv =
     \<lparr>pr_server = srv, pr_grpc = Serving, pr_http = Serving, pr_errCh = [], pr_signal = False, pr_main = MainWaits,
      pr_done = []\<rparr>"

inductive process_step :: "'db process \<Rightarrow> 'db process \<Rightarrow> bool" where
  ps_signal: "pr_main p \<noteq> MainReturned \<Longrightarrow> \<not> pr_signal p \<Longrightarrow> process_step p (p\<lparr>pr_signal := True\<rparr>)"
| ps_grpc_fails: "pr_main p \<noteq> MainReturned \<Longrightarrow> pr_grpc p = Serving \<Longrightarrow>
    process_step p (p\<lparr>pr_grpc := Sending (ServeFailed e)\<rparr>)"
| ps_http_fails: "pr_main p \<noteq> MainReturned \<Longrightarrow> pr_http p = Serving \<Longrightarrow>
    process_step p (p\<lparr>pr_http := Sending (ServeFailed e)\<rparr>)"
| ps_grpc_sends: "pr_main p \<noteq> MainReturned \<Longrightarrow> pr_grpc p = Sending e \<Longrightarrow> length (pr_errCh p) < errCh_cap \<Longrightarrow>
    process_step p (p\<lparr>pr_grpc := ServeReported, pr_errCh := pr_errCh p @ [e]\<rparr>)"
| ps_http_sends: "pr_main p \<noteq> MainReturned \<Longrightarrow> pr_http p = Sending e \<Longrightarrow> length (pr_errCh p) < errCh_cap \<Longrightarrow>
    process_step p (p\<lparr>pr_http := ServeReported, pr_errCh := pr_errCh p @ [e]\<rparr>)"
| ps_main_signal: "pr_main p = MainWaits \<Longrightarrow> pr_signal p \<Longrightarrow>
    process_step p (p\<lparr>pr_main := MainStopsGrpc, pr_done := [Log_Info ''shutdown signal received'']\<rparr>)"
| ps_main_error: "pr_main p = MainWaits \<Longrightarrow> pr_errCh p = e # rest \<Longrightarrow>
    process_step p (p\<lparr>pr_main := MainStopsGrpc, pr_errCh := rest,
      pr_done := (if e = ErrServerClosed then [] else [Log_Error ''server terminated''])\<rparr>)"
| ps_stop_grpc: "pr_main p = MainStopsGrpc \<Longrightarrow>
    process_step p (p\<lparr>pr_main := MainStopsHttp, pr_done := pr_done p @ [GracefulStop],
      pr_grpc := (if pr_grpc p = Serving then Sending ServeNil else pr_grpc p)\<rparr>)"
| ps_stop_http: "pr_main p = MainStopsHttp \<Longrightarrow>
    process_step p (p\<lparr>pr_main := MainCloses,
      pr_done := pr_done p @ [ShutdownHTTP (GracefulShutdownTimeout (srv_config (pr_server p))),
                              Log_Info ''server shutdown complete''],
      pr_http := (if pr_http p = Serving then Sending ErrServerClosed else pr_http p)\<rparr>)"
| ps_return: "pr_main p = MainCloses \<Longrightarrow>
    process_step p (p\<lparr>pr_main := MainReturned, pr_done := pr_done p @ [CloseRouter],
      pr_server := perform CloseRouter (pr_server p)\<rparr>)"

text \<open>Runs, with their number of steps.\<close>

inductive process_runs :: "'db process \<Rightarrow> nat \<Rightarrow> 'db process \<Rightarrow> bool" where
  pr_refl: "process_runs p 0 p"
| pr_more: "process_runs p n q \<Longrightarrow> process_step q r \<Longrightarrow> process_runs p (Suc n) r"

text \<open>What can still happen, and what holds throughout.\<close>

fun serve_left :: "serve_pc \<Rightarrow> nat" where
  "serve_left Serving = 2"
| "serve_left (Sending e) = 1"
| "serve_left ServeReported = 0"

fun main_left :: "main_pc \<Rightarrow> nat" where
  "main_left MainWaits = 4"
| "main_left MainStopsGrpc = 3"
| "main_left MainStopsHttp = 2"
| "main_left MainCloses = 1"
| "main_left MainReturned = 0"

definition process_left :: "'db process \<Rightarrow> nat" where
  "process_left p = (if pr_signal p then 0 else 1) + serve_left (pr_grpc p) + serve_left (pr_http p) + main_left (pr_main p)"

definition reported :: "serve_pc \<Rightarrow> nat" where
  "reported q = (if q = ServeReported then 1 else 0)"

text \<open>The actions up to each point of \<open>main\<close> are those of \<open>main_stop\<close> for a cause that occurred.\<close>

definition occurred :: "'db process \<Rightarrow> stop_cause \<Rightarrow> bool" where
  "occurred p cause \<longleftrightarrow>
     (case cause of
        StopSignal \<Rightarrow> pr_signal p
      | ServeEnded clean \<Rightarrow> \<not> clean \<and> (pr_grpc p = ServeReported \<or> pr_http p = ServeReported))"

fun actions_done :: "main_pc \<Rightarrow> nat" where
  "actions_done MainWaits = 0"
| "actions_done MainStopsGrpc = 1"
| "actions_done MainStopsHttp = 2"
| "actions_done MainCloses = 4"
| "actions_done MainReturned = 5"

definition on_course :: "Config \<Rightarrow> 'db process \<Rightarrow> bool" where
  "on_course cfg p \<longleftrightarrow>
     (if pr_main p = MainWaits then pr_done p = []
      else \<exists>cause. occurred p cause \<and> pr_done p = take (actions_done (pr_main p)) (main_stop cfg cause))"

definition process_inv :: "'db server \<Rightarrow> 'db process \<Rightarrow> bool" where
  "process_inv srv p \<longleftrightarrow> on_course (srv_config srv) p \<and>
     length (pr_errCh p) \<le> reported (pr_grpc p) + reported (pr_http p) \<and>
     (pr_main p = MainWaits \<longrightarrow> pr_grpc p \<noteq> Sending ServeNil \<and> ErrServerClosed \<notin> set (pr_errCh p) \<and>
        pr_http p \<noteq> Sending ErrServerClosed \<and> pr_grpc p \<noteq> Sending ErrServerClosed \<and>
        (pr_grpc p = ServeReported \<or> pr_http p = ServeReported \<longrightarrow> pr_errCh p \<noteq> [])) \<and>
     (pr_main p \<in> {MainStopsHttp, MainCloses, MainReturned} \<longrightarrow> pr_grpc p \<noteq> Serving) \<and>
     (pr_main p \<in> {MainCloses, MainReturned} \<longrightarrow> pr_http p \<noteq> Serving) \<and>
     pr_server p = (if pr_main p = MainReturned then perform CloseRouter srv else srv)"

section \<open>Lemmas on paths\<close>

lemma slashed_simps [simp]: "slashed [] = []" "slashed (seg # segs) = CHR ''/'' # seg @ slashed segs"
  "slashed (segs @ segs') = slashed segs @ slashed segs'"
  by (simp_all add: slashed_def)

lemma Split_seg: "c \<notin> set s \<Longrightarrow> Split c (s @ t) = (s @ hd (Split c t)) # tl (Split c t)"
  by (induction s) (auto split: list.split)

lemma Split_slashed: "\<forall>s \<in> set segs. CHR ''/'' \<notin> set s \<Longrightarrow> Split CHR ''/'' (slashed segs) = [] # segs"
  by (induction segs) (simp_all add: Split_seg)

lemma Split_no_sep: "s \<in> set (Split c t) \<Longrightarrow> c \<notin> set s"
  by (induction t arbitrary: s) (auto split: if_splits list.splits)

definition segment_ok :: "string \<Rightarrow> bool" where
  "segment_ok seg \<longleftrightarrow> seg \<noteq> [] \<and> seg \<noteq> ''.'' \<and> seg \<noteq> ''..'' \<and> CHR ''/'' \<notin> set seg"

lemma clean_segments_ok:
  "\<forall>s \<in> set segs. CHR ''/'' \<notin> set s \<Longrightarrow> \<forall>s \<in> set kept. segment_ok s \<Longrightarrow> s \<in> set (clean_segments kept segs) \<Longrightarrow> segment_ok s"
proof (induction kept segs rule: clean_segments.induct)
  case (2 kept seg rest)
  have tl: "\<forall>s \<in> set (tl kept). segment_ok s" using 2(3) by (cases kept) simp_all
  have "\<forall>s \<in> set (if seg = [] \<or> seg = ''.'' then kept else if seg = ''..'' then tl kept else seg # kept). segment_ok s"
    using 2(2,3) tl by (simp add: segment_ok_def)
  from 2(1) [OF _ this] 2(2,4) show ?case by simp
qed simp

lemma clean_segments_id:
  "\<forall>s \<in> set segs. segment_ok s \<Longrightarrow> clean_segments kept (segs @ rest) = clean_segments (rev segs @ kept) rest"
  by (induction segs arbitrary: kept) (simp_all add: segment_ok_def)

text \<open>The clean paths: good segments, and at most one empty segment at the end.\<close>

definition clean_form :: "string list \<Rightarrow> string list \<Rightarrow> bool" where
  "clean_form segs end' \<longleftrightarrow> (\<forall>s \<in> set segs. segment_ok s) \<and> end' \<in> {[], [[]]} \<and> segs @ end' \<noteq> []"

lemma cleanPath_form: "\<exists>segs end'. clean_form segs end' \<and> cleanPath p = slashed (segs @ end')"
proof -
  let ?q = "if p = [] \<or> hd p \<noteq> CHR ''/'' then CHR ''/'' # p else p"
  let ?segs = "clean_segments [] (Split CHR ''/'' ?q)"
  have ok: "\<forall>s \<in> set ?segs. segment_ok s" using clean_segments_ok [of "Split CHR ''/'' ?q" "[]"] Split_no_sep by fastforce
  show ?thesis
  proof (cases "?segs = []")
    case True
    then show ?thesis
      by (intro exI [of _ "[]"] exI [of _ "[[]]"]) (simp add: clean_form_def cleanPath_def path_Clean_def)
  next
    case False
    then have np: "path_Clean ?q = slashed ?segs" by (simp add: path_Clean_def)
    have "slashed ?segs \<noteq> ''/''"
      using False ok by (cases ?segs) (auto simp: segment_ok_def)
    then have "cleanPath p = slashed (?segs @ (if last ?q = CHR ''/'' then [[]] else []))"
      using np unfolding cleanPath_def Let_def by simp
    with ok False show ?thesis
      by (intro exI [of _ ?segs] exI [of _ "if last ?q = CHR ''/'' then [[]] else []"]) (simp add: clean_form_def)
  qed
qed

lemma cleanPath_slash:
  "p \<noteq> [] \<Longrightarrow> hd p = CHR ''/'' \<Longrightarrow>
   cleanPath p = (if last p = CHR ''/'' \<and> path_Clean p \<noteq> ''/'' then path_Clean p @ ''/'' else path_Clean p)"
  by (simp add: cleanPath_def Let_def)

lemma clean_form_clean:
  assumes "clean_form segs end'"
  shows "cleanPath (slashed (segs @ end')) = slashed (segs @ end')"
proof -
  let ?p = "slashed (segs @ end')"
  have ok: "\<forall>s \<in> set segs. segment_ok s" and e: "end' = [] \<or> end' = [[]]" using assms by (auto simp: clean_form_def)
  have hd: "?p \<noteq> [] \<and> hd ?p = CHR ''/''" using assms by (cases segs) (auto simp: clean_form_def)
  have "\<forall>s \<in> set segs. CHR ''/'' \<notin> set s" using ok by (simp add: segment_ok_def)
  moreover have "\<forall>s \<in> set end'. CHR ''/'' \<notin> set s" using e by (elim disjE) simp_all
  ultimately have "\<forall>s \<in> set (segs @ end'). CHR ''/'' \<notin> set s" by (simp add: ball_Un)
  then have "Split CHR ''/'' ?p = [] # segs @ end'" by (rule Split_slashed)
  then have "clean_segments [] (Split CHR ''/'' ?p) = segs"
    using clean_segments_id [OF ok, of "[]" end'] e by auto
  then have np: "path_Clean ?p = (if segs = [] then ''/'' else slashed segs)" unfolding path_Clean_def by simp
  have "slashed segs \<noteq> ''/''" using ok by (cases segs) (auto simp: segment_ok_def)
  moreover have "last (slashed segs) \<noteq> CHR ''/''" if "segs \<noteq> []"
  proof -
    from \<open>segs \<noteq> []\<close> obtain pre s where s: "segs = pre @ [s]" by (metis append_butlast_last_id)
    then have "segment_ok s" using ok by simp
    then have "s \<noteq> []" "CHR ''/'' \<notin> set s" by (simp_all add: segment_ok_def)
    then have "last s \<noteq> CHR ''/''" by (metis last_in_set)
    then show ?thesis using s \<open>s \<noteq> []\<close> by simp
  qed
  ultimately have np': "path_Clean ?p \<noteq> ''/''" "last (slashed segs) \<noteq> CHR ''/''" if "segs \<noteq> []"
    using that np by simp_all
  have "cleanPath ?p = (if last ?p = CHR ''/'' \<and> path_Clean ?p \<noteq> ''/'' then path_Clean ?p @ ''/'' else path_Clean ?p)"
    using hd cleanPath_slash by blast
  moreover have "segs \<noteq> [] \<or> end' = [[]]" using assms e by (auto simp: clean_form_def)
  ultimately show ?thesis using np np' e by (cases "segs = []") (elim disjE; simp)+
qed

lemma cleanPath_idem: "cleanPath (cleanPath p) = cleanPath p"
  using cleanPath_form [of p] clean_form_clean by auto

text \<open>Which paths are clean.\<close>

lemma cleanPath_fixed:
  "cleanPath p = p \<longleftrightarrow>
   (\<exists>segs. p = slashed segs \<and> segs \<noteq> [] \<and> (\<forall>s \<in> set segs. CHR ''/'' \<notin> set s \<and> s \<noteq> ''.'' \<and> s \<noteq> ''..'') \<and> [] \<notin> set (butlast segs))"
  (is "_ = (\<exists>segs. ?good segs)")
proof
  assume "cleanPath p = p"
  then obtain segs end' where f: "clean_form segs end'" "p = slashed (segs @ end')" using cleanPath_form [of p] by metis
  then have "end' = [] \<or> end' = [[]]" "\<forall>s \<in> set segs. segment_ok s" "segs @ end' \<noteq> []" by (auto simp: clean_form_def)
  moreover from this have "[] \<notin> set (butlast (segs @ end'))"
    by (elim disjE) (auto simp: segment_ok_def butlast_append dest: in_set_butlastD)
  ultimately have "?good (segs @ end')" using f(2) by (elim disjE) (auto simp: segment_ok_def)
  then show "\<exists>segs. ?good segs" by blast
next
  assume "\<exists>segs. ?good segs"
  then obtain segs where g: "?good segs" by blast
  then obtain pre s where s: "segs = pre @ [s]" by (metis append_butlast_last_id)
  have "clean_form (if s = [] then pre else pre @ [s]) (if s = [] then [[]] else [])"
    using g s by (auto simp: clean_form_def segment_ok_def)
  from clean_form_clean [OF this] g s show "cleanPath p = p" by (simp split: if_splits)
qed

section \<open>Lemmas\<close>

lemma process_left_step: "process_step p q \<Longrightarrow> process_left q < process_left p"
  by (induction rule: process_step.induct) (auto simp: process_left_def)

lemma occurred_step: "process_step p q \<Longrightarrow> occurred p cause \<Longrightarrow> occurred q cause"
  by (induction rule: process_step.induct) (auto simp: occurred_def split: stop_cause.splits)

lemma occurred_stop:
  assumes "occurred p cause"
  shows "main_stop cfg cause = (if cause = StopSignal then Log_Info ''shutdown signal received'' else Log_Error ''server terminated'')
    # [GracefulStop, ShutdownHTTP (GracefulShutdownTimeout cfg), Log_Info ''server shutdown complete'', CloseRouter]"
  using assms by (auto simp: occurred_def main_stop_def split: stop_cause.splits)

lemma on_course_step:
  assumes "process_step p q" and "process_inv srv p"
  shows "on_course (srv_config srv) q"
proof -
  have course: "on_course (srv_config srv) p" using assms(2) by (simp add: process_inv_def)
  note occ = occurred_step [OF assms(1)]
  have moved: "on_course (srv_config srv) q"
    if "pr_main p \<noteq> MainWaits" "pr_main q \<noteq> MainWaits"
      "\<And>cause. occurred p cause \<Longrightarrow> take (actions_done (pr_main p)) (main_stop (srv_config srv) cause) = pr_done p \<Longrightarrow>
        pr_done q = take (actions_done (pr_main q)) (main_stop (srv_config srv) cause)"
    using course that occ unfolding on_course_def by metis
  have kept: "on_course (srv_config srv) q" if "pr_main q = pr_main p" "pr_done q = pr_done p"
    using course that occ unfolding on_course_def by metis
  show ?thesis
    using assms(1)
  proof cases
    case (ps_main_error e rest)
    then have "e \<noteq> ErrServerClosed" "occurred q (ServeEnded False)"
      using assms(2) by (auto simp: process_inv_def occurred_def reported_def split: if_splits)
    with ps_main_error show ?thesis
      by (auto simp: on_course_def main_stop_def intro!: exI [of _ "ServeEnded False"])
  next
    case ps_main_signal
    then show ?thesis by (auto simp: on_course_def occurred_def main_stop_def intro!: exI [of _ StopSignal])
  next
    case ps_stop_grpc
    then show ?thesis by (intro moved) (auto simp: occurred_stop)
  next
    case ps_stop_http
    moreover have "srv_config (pr_server p) = srv_config srv" using assms(2) ps_stop_http by (simp add: process_inv_def)
    ultimately show ?thesis by (intro moved) (auto simp: occurred_stop)
  next
    case ps_return
    then show ?thesis by (intro moved) (auto simp: occurred_stop)
  qed (rule kept; simp)+
qed

lemma started_open: "main_start accepts C R listen env = Started srv \<Longrightarrow> \<not> closed (srv_router srv)"
  by (auto simp: main_start_def NewRedisRouter_def Let_def split: sum.splits option.splits prod.splits if_splits)

lemma no_env_starts: "\<exists>srv. main_start (\<lambda>_. True) direct_driver mem_redis (\<lambda>_. None) (\<lambda>_. []) = Started srv"
proof -
  obtain cfg where "Load (\<lambda>_. []) = Inr cfg" "sint (MaxInFlightBids cfg) = 100000"
    using no_env_addresses by blast
  then show ?thesis by (simp add: main_start_def router_of_config NewServer_def Let_def)
qed

lemma process_inv_start: "process_inv srv (process_start srv)"
  by (simp add: process_inv_def process_start_def on_course_def)

lemma process_inv_step:
  assumes "process_step p q" and "process_inv srv p"
  shows "process_inv srv q"
proof -
  note course = on_course_step [OF assms]
  from assms(1) show ?thesis
    by cases (use assms(2) course in \<open>auto simp: process_inv_def reported_def split: if_splits\<close>)
qed

lemma process_inv_runs: "process_runs p n q \<Longrightarrow> process_inv srv p \<Longrightarrow> process_inv srv q"
  by (induction rule: process_runs.induct) (auto intro: process_inv_step)

lemma process_runs_left: "process_runs p n q \<Longrightarrow> process_left q + n \<le> process_left p"
  by (induction rule: process_runs.induct) (auto dest: process_left_step)

lemma main_goes_on:
  assumes "pr_main p = MainWaits \<Longrightarrow> pr_signal p \<or> pr_errCh p \<noteq> []" and "pr_main p \<noteq> MainReturned"
  shows "\<exists>q. process_step p q \<and> main_left (pr_main q) < main_left (pr_main p)"
proof -
  from assms consider "pr_main p = MainWaits" "pr_signal p" | e rest where "pr_main p = MainWaits" "pr_errCh p = e # rest"
    | "pr_main p = MainStopsGrpc" | "pr_main p = MainStopsHttp" | "pr_main p = MainCloses"
    by (metis main_pc.exhaust neq_Nil_conv)
  then show "\<exists>q. process_step p q \<and> main_left (pr_main q) < main_left (pr_main p)"
  proof cases
    case 1
    from ps_main_signal [OF this] 1 show ?thesis by (intro exI conjI) (assumption, simp)
  next
    case 2
    from ps_main_error [OF this] 2 show ?thesis by (intro exI conjI) (assumption, simp)
  next
    case 3
    from ps_stop_grpc [OF this] 3 show ?thesis by (intro exI conjI) (assumption, simp)
  next
    case 4
    from ps_stop_http [OF this] 4 show ?thesis by (intro exI conjI) (assumption, simp)
  next
    case 5
    from ps_return [OF this] 5 show ?thesis by (intro exI conjI) (assumption, simp)
  qed
qed

section \<open>Properties\<close>

text \<open>
  (C31) The process ends as it should: from its start, every run has at most nine steps; a server that
  has returned can always report to \<open>errCh\<close>; as soon as a signal has arrived or an error is reported
  \<open>main\<close> can go on, and until it returns it can always go on after that. When it has returned, it has
  done exactly what \<open>main_stop\<close> says for a cause that occurred (a signal, or a server that failed), no server
  is serving, and every Redis client is closed; and if no signal came, the failure is in the log,
  whatever the configured level.
\<close>

theorem process_stops:
  assumes "main_start accepts C R listen env = Started srv" and "process_runs (process_start srv) n p"
  shows "n \<le> 9 \<and>
    (pr_main p \<noteq> MainReturned \<longrightarrow> (\<forall>e. pr_grpc p = Sending e \<or> pr_http p = Sending e \<longrightarrow> length (pr_errCh p) < errCh_cap)) \<and>
    ((pr_main p = MainWaits \<longrightarrow> pr_signal p \<or> pr_errCh p \<noteq> []) \<and> pr_main p \<noteq> MainReturned \<longrightarrow>
       (\<exists>q. process_step p q \<and> main_left (pr_main q) < main_left (pr_main p))) \<and>
    (pr_main p = MainReturned \<longrightarrow>
       (\<exists>cause. occurred p cause \<and> pr_done p = main_stop (srv_config srv) cause) \<and>
       pr_grpc p \<noteq> Serving \<and> pr_http p \<noteq> Serving \<and>
       (\<forall>c \<in> set (clients (srv_router (pr_server p))). client_closed c) \<and>
       (\<not> pr_signal p \<longrightarrow> Log_Error ''server terminated'' \<in> set (filter (logged (srv_config srv)) (pr_done p))))"
proof (intro conjI)
  have inv: "process_inv srv p" using process_inv_runs [OF assms(2) process_inv_start] .
  show "n \<le> 9" using process_runs_left [OF assms(2)] by (simp add: process_left_def process_start_def)
  show "pr_main p \<noteq> MainReturned \<longrightarrow> (\<forall>e. pr_grpc p = Sending e \<or> pr_http p = Sending e \<longrightarrow> length (pr_errCh p) < errCh_cap)"
    using inv by (auto simp: process_inv_def reported_def errCh_cap_def split: if_splits)
  show "(pr_main p = MainWaits \<longrightarrow> pr_signal p \<or> pr_errCh p \<noteq> []) \<and> pr_main p \<noteq> MainReturned \<longrightarrow>
       (\<exists>q. process_step p q \<and> main_left (pr_main q) < main_left (pr_main p))"
    using main_goes_on by blast
  show "pr_main p = MainReturned \<longrightarrow>
       (\<exists>cause. occurred p cause \<and> pr_done p = main_stop (srv_config srv) cause) \<and>
       pr_grpc p \<noteq> Serving \<and> pr_http p \<noteq> Serving \<and>
       (\<forall>c \<in> set (clients (srv_router (pr_server p))). client_closed c) \<and>
       (\<not> pr_signal p \<longrightarrow> Log_Error ''server terminated'' \<in> set (filter (logged (srv_config srv)) (pr_done p)))"
  proof
    assume ret: "pr_main p = MainReturned"
    then obtain cause where cause: "occurred p cause" "pr_done p = take 5 (main_stop (srv_config srv) cause)"
      using inv by (auto simp: process_inv_def on_course_def)
    then have stop: "pr_done p = main_stop (srv_config srv) cause" by (simp add: occurred_stop)
    moreover have "Log_Error ''server terminated'' \<in> set (pr_done p)" if "\<not> pr_signal p"
      unfolding stop using that cause(1) by (auto simp: occurred_def main_stop_def split: stop_cause.splits)
    moreover have "pr_grpc p \<noteq> Serving \<and> pr_http p \<noteq> Serving \<and>
        (\<forall>c \<in> set (clients (srv_router (pr_server p))). client_closed c)"
      using inv ret started_open [OF assms(1)] by (auto simp: process_inv_def Close_def)
    ultimately show "(\<exists>cause. occurred p cause \<and> pr_done p = main_stop (srv_config srv) cause) \<and>
        pr_grpc p \<noteq> Serving \<and> pr_http p \<noteq> Serving \<and>
        (\<forall>c \<in> set (clients (srv_router (pr_server p))). client_closed c) \<and>
        (\<not> pr_signal p \<longrightarrow> Log_Error ''server terminated'' \<in> set (filter (logged (srv_config srv)) (pr_done p)))"
      using cause(1) by (auto simp: logged_def LevelError_top)
  qed
qed

theorem process_stops_witness:
  "\<exists>srv p. main_start (\<lambda>_. True) direct_driver mem_redis (\<lambda>_. None) (\<lambda>_. []) = Started srv \<and>
    process_runs (process_start srv) 6 p \<and> pr_main p = MainReturned \<and>
    (\<exists>cause. occurred p cause \<and> pr_done p = main_stop (srv_config srv) cause)"
proof -
  obtain srv :: "mem_db server" where srv: "main_start (\<lambda>_. True) direct_driver mem_redis (\<lambda>_. None) (\<lambda>_. []) = Started srv"
    using no_env_starts by blast
  let ?p0 = "process_start srv"
  let ?p1 = "?p0\<lparr>pr_grpc := Sending (ServeFailed ''broken'')\<rparr>"
  let ?p2 = "?p1\<lparr>pr_grpc := ServeReported, pr_errCh := [ServeFailed ''broken'']\<rparr>"
  let ?p3 = "?p2\<lparr>pr_main := MainStopsGrpc, pr_errCh := [], pr_done := [Log_Error ''server terminated'']\<rparr>"
  let ?p4 = "?p3\<lparr>pr_main := MainStopsHttp, pr_done := pr_done ?p3 @ [GracefulStop]\<rparr>"
  let ?p5 = "?p4\<lparr>pr_main := MainCloses, pr_done := pr_done ?p4 @ [ShutdownHTTP (GracefulShutdownTimeout (srv_config srv)),
      Log_Info ''server shutdown complete''], pr_http := Sending ErrServerClosed\<rparr>"
  let ?p6 = "?p5\<lparr>pr_main := MainReturned, pr_done := pr_done ?p5 @ [CloseRouter], pr_server := perform CloseRouter srv\<rparr>"
  have steps: "process_step ?p0 ?p1" "process_step ?p1 ?p2" "process_step ?p2 ?p3" "process_step ?p3 ?p4" "process_step ?p4 ?p5"
    "process_step ?p5 ?p6"
    using ps_grpc_fails [of ?p0 "''broken''"] ps_grpc_sends [of ?p1 "ServeFailed ''broken''"]
      ps_main_error [of ?p2 "ServeFailed ''broken''" "[]"] ps_stop_grpc [of ?p3] ps_stop_http [of ?p4] ps_return [of ?p5]
    by (simp_all add: process_start_def errCh_cap_def)
  have "process_runs ?p0 (Suc (Suc (Suc (Suc (Suc (Suc 0)))))) ?p6"
    by (intro pr_more [OF _ steps(6)] pr_more [OF _ steps(5)] pr_more [OF _ steps(4)] pr_more [OF _ steps(3)]
        pr_more [OF _ steps(2)] pr_more [OF _ steps(1)] pr_refl)
  then have runs: "process_runs ?p0 6 ?p6" by (simp add: eval_nat_numeral)
  from process_stops [OF srv runs] srv runs show ?thesis
    by (intro exI [of _ srv] exI [of _ ?p6]) simp
qed

text \<open>The name that the probe asks for.\<close>

lemma health_shard:
  assumes "router_ok r"
  shows "ForAuction r ''health'' = Some (3470402323 mod length (clients r))"
proof -
  let ?n = "length (clients r)"
  have "ChecksumIEEE ''health'' = 3470402323" by (simp add: ChecksumIEEE_def crc_byte_def crc_shift_def funpow_8)
  moreover have "unat (of_nat ?n :: uint32) = ?n" "0 < ?n" using assms by (simp_all add: router_ok_def unat_of_nat)
  moreover from this have "(of_nat ?n :: uint32) \<noteq> 0" by auto
  ultimately show ?thesis by (simp add: ForAuction_def shard_def Let_def unat_mod)
qed

lemma main_paths_clean [simp]:
  "cleanPath ''/healthz'' = ''/healthz''" "cleanPath ''/readyz'' = ''/readyz''" "cleanPath ''/ws'' = ''/ws''"
  "cleanPath ''/metrics'' = ''/metrics''"
  by code_simp+

text \<open>
  (C32) The HTTP server answers by path, whatever the rest of the request. \<open>/healthz\<close> is always answered
  200 without asking anybody. \<open>/readyz\<close> asks one server, the one that holds the auction named \<open>health\<close>
  (the CRC-32 of the name is 3470402323), answers 200 or 503 by its answer alone, and never panics; no
  other path asks a server. \<open>/ws\<close> is the websocket handler, and only it touches the hub. A path is sent
  elsewhere exactly when it does not begin with a slash, or has an empty segment before the last one or
  a segment \<open>.\<close> or \<open>..\<close>; the client that follows is not sent on again. A path is not found exactly when it
  is clean and none of the four.
\<close>

theorem http_answers:
  fixes r :: RedisRouter and ping ping' :: "nat \<Rightarrow> go_error option" and Up :: "(http_request \<Rightarrow> bool) \<Rightarrow> http_request \<Rightarrow> bool"
    and cfg :: Config and req :: http_request and c :: client and s :: hub_sys
  assumes "router_ok r"
  defines "serve \<equiv> (\<lambda>ping req. http_serve ping Up (new_http_server cfg) r req c s)"
    and "health \<equiv> 3470402323 mod length (clients r)"
    and "clean \<equiv> (\<exists>segs. req_Path req = concat (map ((#) CHR ''/'') segs) \<and> segs \<noteq> [] \<and> [] \<notin> set (butlast segs) \<and>
      (\<forall>seg \<in> set segs. CHR ''/'' \<notin> set seg \<and> seg \<noteq> ''.'' \<and> seg \<noteq> ''..''))"
  shows "serve ping (req\<lparr>req_Path := ''/healthz''\<rparr>) = Some (Probe (200, Some ''application/json'', json_status ''ok''), s) \<and>
    health < length (clients r) \<and> ForAuction r ''health'' = Some health \<and>
    serve ping (req\<lparr>req_Path := ''/readyz''\<rparr>) =
      Some (Probe (if ping health = None then (200, None, json_status ''ready'') else (503, None, json_status ''redis_unavailable'')), s) \<and>
    (req_Path req \<noteq> ''/readyz'' \<longrightarrow> serve ping req = serve ping' req) \<and>
    serve ping (req\<lparr>req_Path := ''/ws''\<rparr>) =
      map_option (\<lambda>(o', s'). (Websocket o', s')) (Handler_ServeHTTP NewHandler Up (req\<lparr>req_Path := ''/ws''\<rparr>) c s) \<and>
    (\<forall>a t. serve ping req = Some (a, t) \<longrightarrow> req_Path req \<noteq> ''/ws'' \<longrightarrow> t = s) \<and>
    ((\<exists>q. serve ping req = Some (Redirected q, s)) \<longleftrightarrow> \<not> clean) \<and>
    (\<forall>q t. serve ping req = Some (Redirected q, t) \<longrightarrow>
       (\<forall>q' t'. serve ping (req\<lparr>req_Path := q\<rparr>) \<noteq> Some (Redirected q', t'))) \<and>
    (serve ping req = Some (NotFoundPage, s) \<longleftrightarrow> clean \<and> req_Path req \<notin> {''/ws'', ''/metrics'', ''/healthz'', ''/readyz''})"
proof -
  note serve = serve_def http_serve_def new_http_server_def main_mux_def
  have clean: "clean \<longleftrightarrow> cleanPath (req_Path req) = req_Path req"
    unfolding cleanPath_fixed slashed_def clean_def by meson
  have pos: "0 < length (clients r)" using assms(1) by (simp add: router_ok_def)
  have health: "ForAuction r ''health'' = Some health" using health_shard [OF assms(1)] by (simp add: health_def)
  have again: "serve ping (req\<lparr>req_Path := q\<rparr>) \<noteq> Some (Redirected q', t')" if "serve ping req = Some (Redirected q, t)" for q t q' t'
  proof -
    have "q = cleanPath (req_Path req)" using that by (auto simp: serve split: if_splits)
    then show ?thesis using cleanPath_idem by (auto simp: serve split: if_splits)
  qed
  show ?thesis
    using again by (intro conjI) (use pos health clean in \<open>auto simp: serve healthz_def readyz_def health_def split: if_splits option.splits\<close>)
qed

theorem http_answers_witness:
  "ForAuction (router demo_store) ''health'' = Some 1 \<and>
   http_serve ((\<lambda>_. None)(0 \<mapsto> DeadlineExceeded)) (\<lambda>_ _. True) (new_http_server demo_config) (router demo_store)
       \<lparr>req_Path = ''/readyz'', req_RawQuery = [], req_Origin = []\<rparr> 0 (hub_init 16) =
     Some (Probe (200, None, json_status ''ready''), hub_init 16) \<and>
   http_serve (\<lambda>_. None) (\<lambda>_ _. True) (new_http_server demo_config) (router demo_store)
       \<lparr>req_Path = ''/x/../readyz'', req_RawQuery = [], req_Origin = []\<rparr> 0 (hub_init 16) = Some (Redirected ''/readyz'', hub_init 16)"
proof -
  have "router_ok (router demo_store)" "length (clients (router demo_store)) = 2"
    by (simp_all add: router_ok_def demo_store_def NewRedisStore_def)
  moreover have "cleanPath ''/x/../readyz'' = ''/readyz''" by code_simp
  ultimately show ?thesis
    using http_answers [of "router demo_store", where ping = "(\<lambda>_. None)(0 \<mapsto> DeadlineExceeded)" and Up = "\<lambda>_ _. True"
      and cfg = demo_config and req = "\<lparr>req_Path = ''/x'', req_RawQuery = [], req_Origin = []\<rparr>" and c = 0 and s = "hub_init 16"]
    by (simp add: http_serve_def)
qed

end
