(* ===== verification/HubProps.thy ===== *)
theory HubProps
  imports Hub
begin

text \<open>
  Properties of the fan-out: what a subscriber is given, who is dropped, which auctions are known,
  and two executions the design permits: the hub blocking itself on its own channel, and a closed
  client that stays registered.
\<close>

section \<open>A subscriber along a run\<close>

definition settled :: "hub_sys \<Rightarrow> string \<Rightarrow> client \<Rightarrow> bool" where
  "settled s a c \<longleftrightarrow> c \<in> members (hub s) a \<and> (case run s of Selecting \<Rightarrow> True | Dropping b cs \<Rightarrow> c \<notin> set cs)"

definition given_to :: "hub_sys \<Rightarrow> client \<Rightarrow> string list" where
  "given_to s c = (case heap s c of None \<Rightarrow> [] | Some cl \<Rightarrow> given cl)"

text \<open>The label neither unregisters the client nor finds its queue full.\<close>

fun spares :: "string \<Rightarrow> client \<Rightarrow> hub_label \<Rightarrow> bool" where
  "spares a c (Left b d) = (b \<noteq> a \<or> d \<noteq> c)"
| "spares a c (Sent b p full) = (c \<notin> set full)"
| "spares a c _ = True"

lemma given_close:
  assumes "Client_close c cl h = Some (cl', h')"
  shows "given (cl'\<lparr>pump := PumpDone\<rparr>) = given cl" "given cl' = given cl"
  using Client_close_frame [OF assms] by (simp_all add: given_def)

lemma settled_broadcast:
  assumes inv: "hub_inv s" and "settled s a c" and "c \<notin> set full" and "run s = Selecting"
    and cs: "distinct cs" "set cs = members (hub s) b" and d: "deliver p cs (heap s) = (hp', full)"
  shows "(case hp' c of None \<Rightarrow> [] | Some cl \<Rightarrow> given cl) = given_to s c @ (if b = a then [p] else [])"
proof -
  have m: "c \<in> members (hub s) a" using assms(2) by (simp add: settled_def)
  then obtain cl where cl: "heap s c = Some cl" "closeFn cl = Some a"
    using hub_inv_member [OF inv] by (auto simp: of_auction_def)
  note cl = cl hub_inv_client [OF inv cl(1)]
  have own: "c \<in> members (hub s) b \<longleftrightarrow> b = a"
    using m hub_inv_member [OF inv, of c b] cl by (auto simp: of_auction_def)
  show ?thesis
  proof (cases "b = a")
    case True
    then have "c \<in> set cs" using own cs(2) by simp
    then have "try_send p cl \<noteq> None" using assms(3) cl(1) d cs(1) by (auto simp: deliver_spec)
    then obtain cl' where t: "try_send p cl = Some cl'" by blast
    then have "given cl' = given cl @ [p]" using try_send_ok [OF cl(3)] by blast
    moreover have "hp' c = Some cl'" using d cs(1) cl(1) t \<open>c \<in> set cs\<close> by (auto simp: deliver_spec)
    ultimately show ?thesis using cl(1) True by (simp add: given_to_def)
  next
    case False
    then have "c \<notin> set cs" using own cs(2) by simp
    then have "hp' c = heap s c" using d cs(1) by (auto simp: deliver_spec)
    then show ?thesis using cl(1) False by (simp add: given_to_def)
  qed
qed

lemma settled_step:
  assumes "hub_step l s t" "hub_inv s" "settled s a c" "spares a c l"
  shows "settled t a c \<and> given_to t c = given_to s c @ sent_to a [l]"
proof -
  have hc: "heap s c \<noteq> None"
    using hub_inv_member [OF assms(2)] assms(3) by (fastforce simp: of_auction_def settled_def)
  from assms hc show ?thesis
  proof (induction rule: hub_step.induct)
    case (serve s d b up out t)
    from serve(2) show ?case
      using serve(1,4,6) by (cases rule: ServeHTTP_cases) (auto simp: settled_def given_to_def split: run_pc.splits)
  next
    case (publish b m s h)
    then show ?case
      by (auto simp: settled_def given_to_def Broadcast_def split: run_pc.splits if_splits)
  next
    case (run_register s b d rest)
    then show ?case by (auto simp: settled_def given_to_def)
  next
    case (run_unregister s b d rest)
    then show ?case by (auto simp: settled_def given_to_def split: if_splits)
  next
    case (run_broadcast s b p rest cs hp' full)
    then have "(case hp' c of None \<Rightarrow> [] | Some cl \<Rightarrow> given cl) = given_to s c @ (if b = a then [p] else [])"
      by (intro settled_broadcast [of s a c full cs b p hp']) simp_all
    with run_broadcast(1,7,8) show ?case by (auto simp: settled_def given_to_def)
  next
    case (drop_delete s b d cs)
    then show ?case by (auto simp: settled_def given_to_def)
  next
    case (drop_close s b d cs cl cl' h)
    have m: "members h x = members (hub s) x" for x
      using Client_close_frame [OF drop_close(4)] members_cong [of h "hub s"] by simp
    from drop_close m given_close(2) [OF drop_close(4)] show ?case
      by (auto simp: settled_def given_to_def split: option.splits)
  next
    case (drop_done s b)
    then show ?case by (auto simp: settled_def given_to_def)
  next
    case (pump_moves s d cl cl')
    with pump_step_frame [OF pump_moves(2)] show ?case by (auto simp: settled_def given_to_def split: run_pc.splits)
  next
    case (pump_ends s d cl cl' h)
    have m: "members h x = members (hub s) x" for x
      using Client_close_frame [OF pump_ends(3)] members_cong [of h "hub s"] by simp
    from pump_ends m given_close(1) [OF pump_ends(3)] show ?case
      by (auto simp: settled_def given_to_def split: run_pc.splits)
  next
    case (reads s d cl ok cl' h)
    have m: "members h x = members (hub s) x" for x
      using readPump_frame [OF reads(4)] members_cong [of h "hub s"] by simp
    have "given cl' = given cl" using readPump_frame [OF reads(4)] by (simp add: given_def)
    with reads m show ?case
      by (auto simp: settled_def given_to_def split: run_pc.splits)
  qed
qed

lemma settled_runs:
  "hub_runs s tr t \<Longrightarrow> hub_inv s \<Longrightarrow> settled s a c \<Longrightarrow> \<forall>l \<in> set tr. spares a c l \<Longrightarrow>
   settled t a c \<and> given_to t c = given_to s c @ sent_to a tr"
proof (induction rule: hub_runs.induct)
  case (hub_more s tr t l u)
  then show ?case using settled_step [OF hub_more(2)] hub_inv_runs [OF hub_more(1)] by auto
qed simp

section \<open>Properties\<close>

text \<open>
  (C14) A subscriber that stays connected gets every message: along any interleaving in which the hub
  neither unregisters the client nor finds its queue full, what the client's pump has taken and what
  waits in its queue grows by exactly the payloads broadcast to its auction, in order, each once,
  and by nothing of other auctions.
\<close>

theorem subscriber_gets_every_message:
  assumes "hub_runs (hub_init depth) tr0 s" and "hub_runs s tr t"
    and "run s = Selecting" and "c \<in> members (hub s) a" and "\<forall>l \<in> set tr. spares a c l"
  shows "c \<in> members (hub t) a \<and> given_to t c = given_to s c @ sent_to a tr"
proof -
  have "hub_inv s" using hub_inv_runs [OF assms(1) hub_inv_init] .
  moreover have "settled s a c" using assms(3,4) by (simp add: settled_def)
  ultimately show ?thesis using settled_runs [OF assms(2)] assms(5) by (auto simp: settled_def)
qed

theorem subscriber_gets_every_message_witness:
  "\<exists>tr0 s tr t. hub_runs (hub_init 16) tr0 s \<and> hub_runs s tr t \<and> given_to s 0 = [] \<and>
    given_to t 0 = [Marshal \<lparr>msg_Type = ''bid_accepted'', msg_AuctionID = ''a'', msg_BidID = ''b1'', msg_UserID = ''ann'',
      msg_Amount = 150, msg_Version = 1, msg_Timestamp = 1000\<rparr>]"
proof -
  let ?m = "\<lparr>msg_Type = ''bid_accepted'', msg_AuctionID = ''a'', msg_BidID = ''b1'', msg_UserID = ''ann'',
      msg_Amount = 150, msg_Version = 1, msg_Timestamp = 1000\<rparr>"
  let ?c = "subscriber ''a'' 16" and ?p = "Marshal ?m"
  let ?s1 = "\<lparr>hub = (NewHub 16)\<lparr>register := [(''a'', 0)]\<rparr>, heap = [0 \<mapsto> ?c], run = Selecting\<rparr>"
  let ?h2 = "do_register ''a'' 0 (NewHub 16)"
  let ?s2 = "\<lparr>hub = ?h2, heap = [0 \<mapsto> ?c], run = Selecting\<rparr>"
  let ?s3 = "\<lparr>hub = ?h2\<lparr>broadcast := [(''a'', ?p)]\<rparr>, heap = [0 \<mapsto> ?c], run = Selecting\<rparr>"
  let ?s4 = "\<lparr>hub = ?h2, heap = [0 \<mapsto> ?c\<lparr>send := [?p]\<rparr>], run = Selecting\<rparr>"
  have "hub_step Other (hub_init 16) ?s1"
    by (rule hub_step.serve [of _ 0 "''a''" True Subscribed])
       (simp_all add: hub_init_def ServeHTTP_def Register_def NewHub_def register_cap_def)
  moreover have "hub_step (Joined ''a'' 0) ?s1 ?s2"
    using hub_step.run_register [of ?s1 "''a''" 0 "[]"] by (simp add: do_register_def NewHub_def members_def)
  ultimately have run: "hub_runs (hub_init 16) (([] @ [Other]) @ [Joined ''a'' 0]) ?s2"
    by (rule hub_more [OF hub_more [OF hub_refl]])
  have "hub_step (Queued ''a'' ?p) ?s2 ?s3"
    using hub_step.publish [of "''a''" ?m ?s2] by (simp add: Broadcast_def do_register_def NewHub_def broadcast_cap_def)
  moreover have "hub_step (Sent ''a'' ?p []) ?s3 ?s4"
    using hub_step.run_broadcast [of ?s3 "''a''" ?p "[]" "[0]" "[0 \<mapsto> ?c\<lparr>send := [?p]\<rparr>]" "[]"]
    by (simp add: do_register_def NewHub_def members_def try_send_def subscriber_def)
  ultimately have more: "hub_runs ?s2 (([] @ [Queued ''a'' ?p]) @ [Sent ''a'' ?p []]) ?s4"
    by (rule hub_more [OF hub_more [OF hub_refl]])
  have "0 \<in> members (hub ?s4) ''a'' \<and> given_to ?s4 0 = given_to ?s2 0 @ sent_to ''a'' (([] @ [Queued ''a'' ?p]) @ [Sent ''a'' ?p []])"
    by (rule subscriber_gets_every_message [OF run more]) simp_all
  moreover have "given_to ?s2 0 = []" by (simp add: given_to_def given_def subscriber_def)
  ultimately have "given_to ?s4 0 = [?p]" by simp
  with run more \<open>given_to ?s2 0 = []\<close> show ?thesis by blast
qed

text \<open>
  (C15) In every reachable state the hub's queues stay within their capacities and every client's
  queue within its own. Whenever the hub is in its \<open>select\<close>, the known auctions are exactly those with
  a registered client, each client is registered only for the auction it asked for, and a broadcast
  drops only clients whose own queue is full.
\<close>

theorem hub_registry_consistent:
  assumes "hub_runs (hub_init depth) tr s"
  shows "length (register (hub s)) \<le> 1024 \<and> length (unregister (hub s)) \<le> 1024 \<and> length (broadcast (hub s)) \<le> 4096 \<and>
    (\<forall>c cl. heap s c = Some cl \<longrightarrow> length (send cl) \<le> send_cap cl) \<and>
    (run s = Selecting \<longrightarrow> KnownAuctions (hub s) = {a. \<exists>c. c \<in> members (hub s) a}) \<and>
    (\<forall>a c. c \<in> members (hub s) a \<longrightarrow> (\<exists>cl. heap s c = Some cl \<and> closeFn cl = Some a)) \<and>
    (\<forall>a p full t. hub_step (Sent a p full) s t \<longrightarrow>
       (\<forall>c \<in> set full. \<exists>cl. heap s c = Some cl \<and> length (send cl) = send_cap cl))"
proof -
  have inv: "hub_inv s" using hub_inv_runs [OF assms hub_inv_init] .
  have q: "\<forall>c cl. heap s c = Some cl \<longrightarrow> length (send cl) \<le> send_cap cl"
    using inv by (auto simp: hub_inv_def queues_ok_def client_ok_def)
  have "KnownAuctions (hub s) = {a. \<exists>c. c \<in> members (hub s) a}" if "run s = Selecting"
    using inv that by (force simp: hub_inv_def sets_ok_def KnownAuctions_def members_def dom_def split: option.splits)
  moreover have "\<exists>cl. heap s c = Some cl \<and> length (send cl) = send_cap cl"
    if step: "hub_step (Sent a p full) s t" and full: "c \<in> set full" for a p full t c
    using step
  proof (cases rule: hub_step.cases)
    case (run_broadcast rest cs hp')
    then obtain cl where "heap s c = Some cl" "try_send p cl = None" using full by (auto simp: deliver_spec)
    with q show ?thesis by (auto dest: try_send_full intro: antisym)
  qed
  ultimately show ?thesis
    using inv q by (auto simp: hub_inv_def queues_ok_def owners_ok_def of_auction_def register_cap_def unregister_cap_def
        broadcast_cap_def)
qed

section \<open>The hub blocking itself\<close>

definition stuck :: "hub_sys \<Rightarrow> bool" where
  "stuck s \<longleftrightarrow> (\<exists>a c cs cl b. run s = Dropping a (c # cs) \<and> c \<notin> members (hub s) a \<and> heap s c = Some cl \<and> closeFn cl = Some b) \<and>
     length (unregister (hub s)) = unregister_cap"

lemma stuck_close: "length (unregister h) = unregister_cap \<Longrightarrow> closeFn cl = Some b \<Longrightarrow> Client_close c cl h = None"
  by (simp add: Client_close_def Unregister_def)

lemma stuck_close_hub:
  "length (unregister h) = unregister_cap \<Longrightarrow> Client_close c cl h = Some (cl', h') \<Longrightarrow> h' = h \<and> closeFn cl' = closeFn cl"
  by (auto simp: Client_close_def Unregister_def close_conn_def split: option.splits)

lemma stuck_read_hub:
  "length (unregister h) = unregister_cap \<Longrightarrow> readPump ok c cl h = Some (cl', h') \<Longrightarrow> h' = h \<and> closeFn cl' = closeFn cl"
  by (cases ok) (auto simp: readPump_def dest: stuck_close_hub)

lemma stuck_step:
  assumes "hub_step l s t" "stuck s"
  shows "stuck t \<and> run t = run s \<and> hub_clients (hub t) = hub_clients (hub s) \<and> unregister (hub t) = unregister (hub s)"
proof -
  obtain a c cs cl b where st: "run s = Dropping a (c # cs)" "c \<notin> members (hub s) a" "heap s c = Some cl" "closeFn cl = Some b"
    "length (unregister (hub s)) = unregister_cap"
    using assms(2) by (auto simp: stuck_def)
  from assms(1) st show ?thesis
  proof (induction rule: hub_step.induct)
    case (serve s d e up out t)
    from serve(2) show ?case
      using serve(1,3-7) by (cases rule: ServeHTTP_cases) (auto simp: stuck_def)
  next
    case (publish e m s h)
    then show ?case by (auto simp: stuck_def Broadcast_def split: if_splits)
  next
    case (drop_delete s e d ds)
    then show ?case by auto
  next
    case (drop_close s e d ds cl2 cl' h)
    then show ?case using stuck_close [of "hub s" cl b c] by auto
  next
    case (pump_moves s d cl2 cl')
    with pump_step_frame [OF pump_moves(2)] show ?case by (auto simp: stuck_def)
  next
    case (pump_ends s d cl2 cl' h)
    with stuck_close_hub [OF pump_ends(8,3)] show ?case by (auto simp: stuck_def)
  next
    case (reads s d cl2 ok cl' h)
    with stuck_read_hub [OF reads(9,4)] show ?case by (auto simp: stuck_def)
  qed (auto simp: stuck_def)
qed

lemma stuck_runs:
  "hub_runs s tr t \<Longrightarrow> stuck s \<Longrightarrow>
   stuck t \<and> run t = run s \<and> hub_clients (hub t) = hub_clients (hub s) \<and> unregister (hub t) = unregister (hub s)"
  by (induction rule: hub_runs.induct) (auto dest: stuck_step)

text \<open>The way there: \<open>n\<close> clients subscribe, a first message fills their queues of length one, a second one finds all full.\<close>

definition crowd :: "nat \<Rightarrow> string list \<Rightarrow> client \<rightharpoonup> Client" where
  "crowd n q = (\<lambda>c. if c < n then Some ((subscriber ''a'' 1)\<lparr>send := q\<rparr>) else None)"

definition crowd_hub :: "nat \<Rightarrow> Hub" where
  "crowd_hub n = (NewHub 1)\<lparr>hub_clients := (if n = 0 then Map.empty else [''a'' \<mapsto> {..<n}])\<rparr>"

definition hub_reach :: "hub_sys \<Rightarrow> hub_sys \<Rightarrow> bool" where
  "hub_reach s t \<longleftrightarrow> (\<exists>tr. hub_runs s tr t)"

lemma hub_reach_refl: "hub_reach s s"
  by (auto simp: hub_reach_def intro: hub_refl)

lemma hub_reach_step: "hub_reach s t \<Longrightarrow> hub_step l t u \<Longrightarrow> hub_reach s u"
  by (auto simp: hub_reach_def intro: hub_more)

lemma constant_image:
  assumes "P x" and "\<And>y. P y \<Longrightarrow> f y = f x"
  shows "{f y | y. P y} = {f x}"
proof (intro equalityI subsetI)
  fix z
  assume "z \<in> {f y | y. P y}"
  then obtain y where "z = f y" "P y" by blast
  with assms(2) [OF this(2)] show "z \<in> {f x}" by simp
next
  fix z
  assume "z \<in> {f x}"
  with assms(1) show "z \<in> {f y | y. P y}" by blast
qed

lemma stuck_reach:
  assumes "stuck s"
  shows "{(run t, hub_clients (hub t), unregister (hub t)) | t. hub_reach s t} =
    {(run s, hub_clients (hub s), unregister (hub s))}"
proof (rule constant_image)
  show "hub_reach s s" by (rule hub_reach_refl)
next
  fix t
  assume "hub_reach s t"
  then obtain tr where "hub_runs s tr t" by (auto simp: hub_reach_def)
  from stuck_runs [OF this assms]
  show "(run t, hub_clients (hub t), unregister (hub t)) = (run s, hub_clients (hub s), unregister (hub s))" by simp
qed

lemma crowd_joins: "hub_reach (hub_init 1) \<lparr>hub = crowd_hub n, heap = crowd n [], run = Selecting\<rparr>"
proof (induction n)
  case 0
  then show ?case using hub_reach_refl [of "hub_init 1"] by (simp add: hub_init_def crowd_hub_def crowd_def NewHub_def)
next
  case (Suc n)
  let ?s = "\<lparr>hub = crowd_hub n, heap = crowd n [], run = Selecting\<rparr>"
  let ?t = "\<lparr>hub = (crowd_hub n)\<lparr>register := [(''a'', n)]\<rparr>, heap = crowd (Suc n) [], run = Selecting\<rparr>"
  have "crowd (Suc n) [] = (crowd n [])(n \<mapsto> subscriber ''a'' 1)"
    by (auto simp: crowd_def fun_eq_iff subscriber_def)
  then have "ServeHTTP ''a'' True n ?s = Some (Subscribed, ?t)"
    by (simp add: ServeHTTP_def Register_def crowd_hub_def NewHub_def register_cap_def)
  then have s1: "hub_step Other ?s ?t" by (rule hub_step.serve [rotated]) (simp add: crowd_def)
  have s2: "hub_step (Joined ''a'' n) ?t (?t\<lparr>hub := do_register ''a'' n ((hub ?t)\<lparr>register := []\<rparr>)\<rparr>)"
    by (rule hub_step.run_register) simp_all
  moreover have "do_register ''a'' n ((hub ?t)\<lparr>register := []\<rparr>) = crowd_hub (Suc n)"
    by (auto simp: do_register_def crowd_hub_def NewHub_def members_def lessThan_Suc)
  with hub_reach_step [OF hub_reach_step [OF Suc s1] s2] show ?case by simp
qed

theorem hub_registry_consistent_witness:
  "KnownAuctions (crowd_hub 3) = {a. \<exists>c. c \<in> members (crowd_hub 3) a} \<and>
   (\<exists>cl. crowd 3 [] 2 = Some cl \<and> closeFn cl = Some ''a'')"
proof -
  obtain tr where run: "hub_runs (hub_init 1) tr \<lparr>hub = crowd_hub 3, heap = crowd 3 [], run = Selecting\<rparr>"
    using crowd_joins [of 3] by (auto simp: hub_reach_def)
  have "2 \<in> members (crowd_hub 3) ''a''" by (simp add: crowd_hub_def members_def)
  with hub_registry_consistent [OF run] show ?thesis by simp
qed

lemma crowd_deliver_first: "deliver p [0..<n] (crowd n []) = (crowd n [p], [])"
  by (auto simp: deliver_spec crowd_def try_send_def subscriber_def fun_eq_iff)

lemma crowd_deliver_second: "deliver p [0..<n] (crowd n [q]) = (crowd n [q], [0..<n])"
  by (auto simp: deliver_spec crowd_def try_send_def subscriber_def fun_eq_iff)

lemma publish_reach:
  assumes "hub_reach s \<lparr>hub = crowd_hub (Suc n), heap = crowd (Suc n) q, run = Selecting\<rparr>"
    and "deliver (Marshal m) [0..<Suc n] (crowd (Suc n) q) = (hp', full)"
  shows "hub_reach s \<lparr>hub = (crowd_hub (Suc n))\<lparr>dropped := length full\<rparr>, heap = hp',
    run = (if full = [] then Selecting else Dropping ''a'' full)\<rparr>"
proof -
  let ?s = "\<lparr>hub = crowd_hub (Suc n), heap = crowd (Suc n) q, run = Selecting\<rparr>"
  let ?h = "(crowd_hub (Suc n))\<lparr>broadcast := [(''a'', Marshal m)]\<rparr>"
  have s1: "hub_step (Queued ''a'' (Marshal m)) ?s (?s\<lparr>hub := ?h\<rparr>)"
    by (rule hub_step.publish [of "''a''" m]) (simp add: Broadcast_def crowd_hub_def NewHub_def broadcast_cap_def)
  have s2: "hub_step (Sent ''a'' (Marshal m) full) (?s\<lparr>hub := ?h\<rparr>)
      ((?s\<lparr>hub := ?h\<rparr>)\<lparr>hub := ?h\<lparr>broadcast := [], dropped := dropped ?h + length full\<rparr>, heap := hp',
        run := (if full = [] then Selecting else Dropping ''a'' full)\<rparr>)"
    using assms(2) hub_step.run_broadcast [of "?s\<lparr>hub := ?h\<rparr>" "''a''" "Marshal m" "[]" "[0..<Suc n]" hp' full]
    by (simp add: members_def crowd_hub_def atLeast0LessThan del: upt_Suc)
  moreover have "?h\<lparr>broadcast := [], dropped := dropped ?h + length full\<rparr> = (crowd_hub (Suc n))\<lparr>dropped := length full\<rparr>"
    by (simp add: crowd_hub_def NewHub_def)
  with hub_reach_step [OF hub_reach_step [OF assms(1) s1] s2] show ?thesis by simp
qed

lemma drops_reach:
  assumes "hub_reach s0 s" and "run s = Dropping ''a'' [0..<n]" and "unregister (hub s) = []"
    and "\<forall>c < n. \<exists>cl. heap s c = Some cl \<and> closeFn cl = Some ''a''" and "{0..<n} \<subseteq> members (hub s) ''a''"
    and "k \<le> unregister_cap" and "k \<le> n"
  shows "\<exists>t. hub_reach s0 t \<and> run t = Dropping ''a'' [k..<n] \<and> length (unregister (hub t)) = k \<and>
    (\<forall>c < n. \<exists>cl. heap t c = Some cl \<and> closeFn cl = Some ''a'') \<and> {k..<n} \<subseteq> members (hub t) ''a''"
  using assms(6,7)
proof (induction k)
  case 0
  then show ?case using assms(1-5) by (intro exI [of _ s]) simp
next
  case (Suc k)
  then obtain t where t: "hub_reach s0 t" "run t = Dropping ''a'' [k..<n]" "length (unregister (hub t)) = k"
    "\<forall>c < n. \<exists>cl. heap t c = Some cl \<and> closeFn cl = Some ''a''" "{k..<n} \<subseteq> members (hub t) ''a''"
    by auto
  obtain cl where cl: "heap t k = Some cl" "closeFn cl = Some ''a''" using t(4) [rule_format, of k] Suc.prems(2) by auto
  have r: "run t = Dropping ''a'' (k # [Suc k..<n])" and k: "k \<in> members (hub t) ''a''"
    using t(2,5) Suc.prems(2) by (auto simp: upt_conv_Cons)
  let ?u = "t\<lparr>hub := remove_member ''a'' k (hub t)\<rparr>"
  let ?h = "(hub ?u)\<lparr>unregister := unregister (hub ?u) @ [(''a'', k)]\<rparr>"
  let ?v = "?u\<lparr>hub := ?h, heap := (heap ?u)(k \<mapsto> close_conn cl), run := Dropping ''a'' [Suc k..<n]\<rparr>"
  have "Client_close k cl (hub ?u) = Some (close_conn cl, ?h)"
    using cl(2) t(3) Suc.prems(1) by (simp add: Client_close_def Unregister_def)
  then have "hub_step Other ?u ?v" using hub_step.drop_close [of ?u "''a''" k "[Suc k..<n]" cl "close_conn cl" ?h] r cl(1) by simp
  with hub_reach_step [OF hub_reach_step [OF t(1) hub_step.drop_delete [OF r k]]] have "hub_reach s0 ?v" .
  moreover have "\<forall>c < n. \<exists>x. heap ?v c = Some x \<and> closeFn x = Some ''a''"
    using t(4) cl by (simp add: close_conn_def)
  moreover have "{Suc k..<n} \<subseteq> members (hub ?v) ''a''" using t(5) by auto
  ultimately show ?case using t(3) by (intro exI [of _ ?v]) simp
qed

text \<open>
  (C37) The hub can block itself for good. With 1025 subscribers of one auction whose queues are full,
  a broadcast makes the hub close them one after the other, and each close sends to the hub's own
  \<open>unregister\<close> channel of 1024 places, which only the hub empties: a reachable state has the hub waiting
  there with its lock held, and from it no step of any goroutine ever lets it continue, so that no
  client is registered, removed or sent anything again.
\<close>

theorem hub_can_deadlock:
  "\<exists>s. hub_reach (hub_init 1) s \<and> stuck s \<and> run s \<noteq> Selecting \<and>
     {(run t, hub_clients (hub t), unregister (hub t)) | t. hub_reach s t} =
       {(run s, hub_clients (hub s), unregister (hub s))}"
proof -
  let ?m = "\<lparr>msg_Type = ''bid_accepted'', msg_AuctionID = ''a'', msg_BidID = [], msg_UserID = [], msg_Amount = 1, msg_Version = 1,
      msg_Timestamp = 1\<rparr>"
  let ?p = "Marshal ?m" and ?N = "Suc unregister_cap"
  have "hub_reach (hub_init 1) \<lparr>hub = (crowd_hub ?N)\<lparr>dropped := length ([] :: nat list)\<rparr>, heap = crowd ?N [?p],
      run = (if ([] :: nat list) = [] then Selecting else Dropping ''a'' [])\<rparr>"
    by (rule publish_reach [OF crowd_joins crowd_deliver_first])
  moreover have "(crowd_hub ?N)\<lparr>dropped := length ([] :: nat list)\<rparr> = crowd_hub ?N"
    by (simp add: crowd_hub_def NewHub_def)
  ultimately have one: "hub_reach (hub_init 1) \<lparr>hub = crowd_hub ?N, heap = crowd ?N [?p], run = Selecting\<rparr>" by simp
  let ?s = "\<lparr>hub = (crowd_hub ?N)\<lparr>dropped := length [0..<?N]\<rparr>, heap = crowd ?N [?p],
      run = (if [0..<?N] = [] then Selecting else Dropping ''a'' [0..<?N])\<rparr>"
  have two: "hub_reach (hub_init 1) ?s" by (rule publish_reach [OF one crowd_deliver_second])
  have s: "run ?s = Dropping ''a'' [0..<?N]" "unregister (hub ?s) = []"
    "\<forall>c < ?N. \<exists>cl. heap ?s c = Some cl \<and> closeFn cl = Some ''a''" "{0..<?N} \<subseteq> members (hub ?s) ''a''"
    by (simp_all add: crowd_hub_def NewHub_def crowd_def subscriber_def members_def atLeast0LessThan)
  obtain u where u: "hub_reach (hub_init 1) u" "run u = Dropping ''a'' [unregister_cap..<?N]"
    "length (unregister (hub u)) = unregister_cap" "\<forall>c < ?N. \<exists>cl. heap u c = Some cl \<and> closeFn cl = Some ''a''"
    "{unregister_cap..<?N} \<subseteq> members (hub u) ''a''"
    using drops_reach [OF two s, of unregister_cap] by auto
  obtain cl where "heap u unregister_cap = Some cl" "closeFn cl = Some ''a''" using u(4) by blast
  moreover have r: "run u = Dropping ''a'' [unregister_cap]" using u(2) by (simp add: upt_conv_Cons)
  moreover define t where "t = u\<lparr>hub := remove_member ''a'' unregister_cap (hub u)\<rparr>"
  ultimately have stuck: "stuck t" using u(3) by (auto simp: stuck_def)
  have t: "hub_reach (hub_init 1) t" "run t \<noteq> Selecting"
    unfolding t_def using hub_reach_step [OF u(1) hub_step.drop_delete [OF r]] u(5) r by auto
  from stuck have "{(run u, hub_clients (hub u), unregister (hub u)) | u. hub_reach t u} =
      {(run t, hub_clients (hub t), unregister (hub t))}" by (rule stuck_reach)
  then show ?thesis using t stuck by (intro exI [of _ t]) simp
qed

text \<open>
  (C38) A client that disconnects right away can stay registered: registrations and removals travel on
  different channels and the hub picks either, so that it may process both removals of a closed client
  before its registration. In a reachable state nothing is queued any more, both pumps have ended and
  the connection is closed, yet the client is registered and its auction counts as known.
\<close>

theorem closed_client_can_stay_registered:
  "\<exists>tr s cl. hub_runs (hub_init 16) tr s \<and> run s = Selecting \<and> register (hub s) = [] \<and> unregister (hub s) = [] \<and>
     heap s 0 = Some cl \<and> conn_open cl = Some False \<and> \<not> reading cl \<and> pump cl = PumpDone \<and>
     0 \<in> members (hub s) ''a'' \<and> ''a'' \<in> KnownAuctions (hub s)"
proof -
  let ?s0 = "hub_init 16"
  let ?c0 = "subscriber ''a'' 16"
  let ?c1 = "close_conn ?c0\<lparr>reading := False\<rparr>" and ?c2 = "close_conn (close_conn ?c0\<lparr>reading := False\<rparr>)\<lparr>pump := PumpDone\<rparr>"
  let ?c3 = "?c1\<lparr>pump := PumpClosing\<rparr>"
  let ?h1 = "(NewHub 16)\<lparr>register := [(''a'', 0)]\<rparr>"
  let ?s1 = "\<lparr>hub = ?h1, heap = [0 \<mapsto> ?c0], run = Selecting\<rparr>"
  let ?s2 = "\<lparr>hub = ?h1\<lparr>unregister := [(''a'', 0)]\<rparr>, heap = [0 \<mapsto> ?c1], run = Selecting\<rparr>"
  let ?s23 = "\<lparr>hub = ?h1\<lparr>unregister := [(''a'', 0)]\<rparr>, heap = [0 \<mapsto> ?c3], run = Selecting\<rparr>"
  let ?s3 = "\<lparr>hub = ?h1\<lparr>unregister := [(''a'', 0), (''a'', 0)]\<rparr>, heap = [0 \<mapsto> ?c2], run = Selecting\<rparr>"
  let ?s4 = "\<lparr>hub = ?h1\<lparr>unregister := [(''a'', 0)]\<rparr>, heap = [0 \<mapsto> ?c2], run = Selecting\<rparr>"
  let ?s5 = "\<lparr>hub = ?h1, heap = [0 \<mapsto> ?c2], run = Selecting\<rparr>"
  let ?s6 = "\<lparr>hub = do_register ''a'' 0 (NewHub 16), heap = [0 \<mapsto> ?c2], run = Selecting\<rparr>"
  note c = Client_close_def Unregister_def unregister_cap_def NewHub_def subscriber_def close_conn_def
  have r1: "hub_step Other ?s0 ?s1"
    by (rule hub_step.serve [of _ 0 "''a''" True Subscribed])
       (simp_all add: hub_init_def ServeHTTP_def Register_def NewHub_def register_cap_def)
  have r2: "hub_step Other ?s1 ?s2"
    using hub_step.reads [of ?s1 0 ?c0 False ?c1 "?h1\<lparr>unregister := [(''a'', 0)]\<rparr>"] by (simp add: readPump_def c)
  have r3: "hub_step Other ?s2 ?s23"
    using hub_step.pump_moves [of ?s2 0 ?c1 ?c3] pump_step.pump_ping_error [of ?c1] by (simp add: c)
  have r3': "hub_step Other ?s23 ?s3"
    using hub_step.pump_ends [of ?s23 0 ?c3 "close_conn ?c3" "?h1\<lparr>unregister := [(''a'', 0), (''a'', 0)]\<rparr>"] by (simp add: c)
  have r4: "hub_step (Left ''a'' 0) ?s3 ?s4"
    using hub_step.run_unregister [of ?s3 "''a''" 0 "[(''a'', 0)]"] by (simp add: do_unregister_def NewHub_def)
  have r5: "hub_step (Left ''a'' 0) ?s4 ?s5"
    using hub_step.run_unregister [of ?s4 "''a''" 0 "[]"] by (simp add: do_unregister_def NewHub_def)
  have r6: "hub_step (Joined ''a'' 0) ?s5 ?s6"
    using hub_step.run_register [of ?s5 "''a''" 0 "[]"] by (simp add: do_register_def NewHub_def members_def)
  have "hub_reach ?s0 ?s6"
    by (rule hub_reach_step [OF hub_reach_step [OF hub_reach_step [OF hub_reach_step [OF hub_reach_step [OF hub_reach_step
          [OF hub_reach_step [OF hub_reach_refl r1] r2] r3] r3'] r4] r5] r6])
  then obtain tr where "hub_runs ?s0 tr ?s6" by (auto simp: hub_reach_def)
  then show ?thesis
    by (intro exI [of _ tr] exI [of _ ?s6] exI [of _ ?c2])
       (simp add: do_register_def NewHub_def members_def KnownAuctions_def close_conn_def subscriber_def)
qed

end
