(* ===== verification/LiveFeed.thy ===== *)
theory LiveFeed
  imports Dispatcher HubProps
begin

text \<open>
  Bids and dispatcher ticks interleaved in any order on one store: the engine as \<open>cmd/server/main.go\<close>
  runs it, with the bids of the handlers and the polling loop as two sources of events. The lemmas
  relate the messages the dispatcher hands to the hub to the log of an auction.
\<close>

section \<open>Definitions\<close>

datatype live_event = Bid bid_clock PlaceBidRequest | Tick time "string list"

fun live :: "'db go_redis \<Rightarrow> 'db redis_cmds \<Rightarrow> live_event list \<Rightarrow> RedisStore \<Rightarrow> 'db list \<Rightarrow> EventDispatcher \<Rightarrow>
    (RedisStore \<times> 'db list \<times> EventDispatcher \<times> (string \<times> Message) list) option" where
  "live C R [] s dbs d = Some (s, dbs, d, [])"
| "live C R (Bid clk req # evs) s dbs d =
     (case RedisStore_PlaceBid C R clk s req dbs of
        None \<Rightarrow> None
      | Some (s', dbs', _) \<Rightarrow> live C R evs s' dbs' d)"
| "live C R (Tick now known # evs) s dbs d =
     (case dispatch_tick (\<lambda>offs count. RedisStore_ReadEvents C R s offs count dbs) now known d of
        None \<Rightarrow> None
      | Some (d', ms, _) \<Rightarrow>
          map_option (\<lambda>(s', dbs', d'', ms'). (s', dbs', d'', ms @ ms')) (live C R evs s dbs d'))"

fun is_tick :: "live_event \<Rightarrow> bool" where
  "is_tick (Tick _ _) = True"
| "is_tick (Bid _ _) = False"

text \<open>The number of ticks after the last bid.\<close>

definition trailing :: "live_event list \<Rightarrow> nat" where
  "trailing evs = length (takeWhile is_tick (rev evs))"

definition bid_count :: "live_event list \<Rightarrow> nat" where
  "bid_count evs = length (filter (\<lambda>e. \<not> is_tick e) evs)"

text \<open>The bids are plain, and the auction \<open>a\<close> is known to the hub at every tick.\<close>

fun live_ok :: "int \<Rightarrow> string \<Rightarrow> live_event \<Rightarrow> bool" where
  "live_ok ttl a (Bid clk req) = plain_bid ttl (sint (UnixMilli (at_run clk))) req"
| "live_ok ttl a (Tick now known) = (distinct known \<and> a \<in> set known)"

text \<open>
  The messages \<open>ms\<close> for \<open>a\<close> are those of the entries \<open>i\<close> to \<open>m\<close> of its log, and \<open>m\<close> is as far as \<open>t\<close> ticks
  with the read limit \<open>k\<close> get.
\<close>

definition feeds :: "string \<Rightarrow> nat \<Rightarrow> nat \<Rightarrow> nat \<Rightarrow> (string \<times> Message) list \<Rightarrow> nat \<Rightarrow> AuctionEvent list \<Rightarrow> bool" where
  "feeds a k t i ms m log \<longleftrightarrow> i \<le> m \<and> m \<le> length log \<and> min (i + t * k) (length log) \<le> m \<and>
     messages_for a ms = map (\<lambda>e. (a, bid_message e)) (drop i (take m log))"

section \<open>Lemmas\<close>

lemma feeds_tick:
  assumes "messages_for a ms1 = map (\<lambda>e. (a, bid_message e)) (take k (drop i log))" and "i \<le> length log"
    and "feeds a k t (min (i + k) (length log)) ms m (log @ later)"
    and "t' = t \<or> t' = Suc t \<and> later = []"
  shows "feeds a k t' i (ms1 @ ms) m (log @ later)"
proof -
  let ?j = "min (i + k) (length log)" and ?log = "log @ later"
  have f: "?j \<le> m" "m \<le> length ?log" "min (?j + t * k) (length ?log) \<le> m"
    "messages_for a ms = map (\<lambda>e. (a, bid_message e)) (drop ?j (take m ?log))"
    using assms(3) unfolding feeds_def by blast+
  have "take k (drop i log) @ drop ?j (take m ?log) = drop i (take ?j ?log) @ drop ?j (take m ?log)"
    using assms(2) by (auto simp: take_drop min_def add.commute)
  also have "\<dots> = drop i (take m ?log)" using f(1) assms(2) by (intro drop_take_join) auto
  finally have "messages_for a (ms1 @ ms) = map (\<lambda>e. (a, bid_message e)) (drop i (take m ?log))"
    using assms(1) f(4) by (simp flip: map_append)
  moreover have "min (i + t' * k) (length ?log) \<le> m"
    using f(1,3) assms(2,4) by (auto simp: min_def split: if_splits)
  moreover have "i \<le> m" using f(1) assms(2) by simp
  ultimately show ?thesis using f(2) unfolding feeds_def by blast
qed

lemma trailing_Cons:
  "trailing (e # es) = (if is_tick e \<and> (\<forall>x \<in> set es. is_tick x) then Suc (length es) else trailing es)"
  by (auto simp: trailing_def takeWhile_append takeWhile_eq_all_conv [THEN iffD2])

lemma trailing_ticks: "\<forall>x \<in> set es. is_tick x \<Longrightarrow> trailing es = length es"
  by (simp add: trailing_def takeWhile_eq_all_conv [THEN iffD2])

lemma place_spec_log:
  "\<exists>later. a_log (fst (place_spec ttl now req eid st)) = a_log st @ later \<and> length later \<le> 1"
  by (auto simp: place_spec_def remember_def Let_def split: option.splits)

lemma a_log_at: "a_log (auction_at hash stream s dbs a) = map event_of (av_events (store_view hash stream s dbs a))"
  by (simp add: auction_at_def abs_auction_def)

lemma at_pos_log:
  "at_pos off es n \<longleftrightarrow>
     (n = 0 \<and> (off = None \<or> off = Some ''0-0'')) \<or>
     (0 < n \<and> n \<le> length es \<and> off = Some (evID (map event_of es ! (n - 1))) \<and> evID (map event_of es ! (n - 1)) \<noteq> [])"
  by (auto simp: at_pos_def)

lemma at_pos_log_extends:
  assumes "at_pos off es n" and "map event_of es' = map event_of es @ later"
  shows "at_pos off es' n"
proof -
  have "length es \<le> length es'" using assms(2) by (metis length_append length_map le_add1)
  moreover have "map event_of es' ! (n - 1) = map event_of es ! (n - 1)" if "0 < n" "n \<le> length es"
    using that unfolding assms(2) by (subst nth_append) simp
  ultimately show ?thesis using assms(1) unfolding at_pos_log by auto
qed

context redis_backend
begin

lemma live_bid:
  assumes "store_ready (Suc n) s dbs" "labelled (store_view hash stream s dbs)"
    and "plain_bid (sint (Milliseconds (idemTTL s))) (sint (UnixMilli (at_run clk))) req"
    and "carried (sint (Milliseconds (idemTTL s))) a (\<lambda>_. J)" "J (auction_in s dbs a)"
  obtains s' dbs' res later where "RedisStore_PlaceBid C R clk s req dbs = Some (s', dbs', res)"
    "store_ready n s' dbs'" "labelled (store_view hash stream s' dbs')" "idemTTL s' = idemTTL s"
    "a_log (auction_in s' dbs' a) = a_log (auction_in s dbs a) @ later" "length later \<le> 1" "J (auction_in s' dbs' a)"
proof -
  let ?b = "AuctionID req" and ?ttl = "sint (Milliseconds (idemTTL s))" and ?now = "sint (UnixMilli (at_run clk))"
  obtain s' dbs' eid where p:
    "RedisStore_PlaceBid C R clk s req dbs = Some (s', dbs', snd (place_spec ?ttl ?now req eid (auction_in s dbs ?b)))"
    "auction_in s' dbs' ?b = fst (place_spec ?ttl ?now req eid (auction_in s dbs ?b))"
    "\<forall>b. b \<noteq> ?b \<longrightarrow> auction_in s' dbs' b = auction_in s dbs b"
    "store_ready n s' dbs'" "idemTTL s' = idemTTL s" "eid \<noteq> []"
    by (rule ready_step [OF assms(1,3)])
  have "\<forall>e \<in> set (a_log (auction_in s' dbs' b)). evAuctionID e = b" for b
    using assms(2) p(2,3) place_spec_labels [of "auction_in s dbs ?b" req]
    unfolding labelled_iff by (cases "b = ?b") simp_all
  then have "labelled (store_view hash stream s' dbs')" by (simp add: labelled_iff)
  moreover obtain later where "a_log (auction_in s' dbs' a) = a_log (auction_in s dbs a) @ later" "length later \<le> 1"
    using p(2,3) place_spec_log [of ?ttl ?now req eid "auction_in s dbs ?b"] by (cases "a = ?b") auto
  moreover have "J (auction_in s' dbs' a)"
    using carriedD [OF assms(4), where clk = clk and req = req and eid = eid, OF assms(5)] p(2,3)
    by (cases "a = ?b") auto
  ultimately show ?thesis using that p(1,4,5) by blast
qed

lemma live_tick:
  assumes "store_ready n s dbs" "labelled (store_view hash stream s dbs)" "distinct known" "a \<in> set known"
    and "0 < sint (streamCount d)" "at_pos (offsets d a) (av_events (store_view hash stream s dbs a)) i"
  obtains d1 ms1 lag where
    "dispatch_tick (\<lambda>offs count. RedisStore_ReadEvents C R s offs count dbs) now known d = Some (d1, ms1, lag)"
    "streamCount d1 = streamCount d"
    "messages_for a ms1 =
       map (\<lambda>e. (a, bid_message e)) (take (nat (sint (streamCount d))) (drop i (a_log (auction_in s dbs a))))"
    "at_pos (offsets d1 a) (av_events (store_view hash stream s dbs a))
       (min (i + nat (sint (streamCount d))) (length (a_log (auction_in s dbs a))))"
proof -
  have "store_ok valid is_hash is_stream s dbs" using assms(1) by (simp add: ready_def)
  from tick_advances [OF this assms(2-6), of now] that show ?thesis by (auto simp: Let_def a_log_at take_map drop_map)
qed

lemma live_feed:
  assumes "store_ready (length evs + n) s dbs" "labelled (store_view hash stream s dbs)"
    and "\<forall>e \<in> set evs. live_ok (sint (Milliseconds (idemTTL s))) a e"
    and "carried (sint (Milliseconds (idemTTL s))) a (\<lambda>_. J)" "J (auction_in s dbs a)"
    and "0 < sint (streamCount d)" "at_pos (offsets d a) (av_events (store_view hash stream s dbs a)) i"
    and "i \<le> length (a_log (auction_in s dbs a))"
  shows "\<exists>s' dbs' d' ms m later. live C R evs s dbs d = Some (s', dbs', d', ms) \<and> store_ready n s' dbs' \<and>
    a_log (auction_in s' dbs' a) = a_log (auction_in s dbs a) @ later \<and> J (auction_in s' dbs' a) \<and>
    length later \<le> bid_count evs \<and>
    feeds a (nat (sint (streamCount d))) (trailing evs) i ms m (a_log (auction_in s' dbs' a))"
  using assms
proof (induction evs arbitrary: s dbs d i)
  case Nil
  then show ?case
    by (intro exI [of _ s] exI [of _ dbs] exI [of _ d] exI [of _ "[]"] exI [of _ i] exI [of _ "[]"])
       (simp add: messages_for_def trailing_def feeds_def bid_count_def)
next
  case (Cons e evs)
  let ?k = "nat (sint (streamCount d))" and ?log = "a_log (auction_in s dbs a)"
  have rest: "\<forall>e \<in> set evs. live_ok (sint (Milliseconds (idemTTL s))) a e" using Cons.prems(3) by simp
  have rdy: "store_ready (Suc (length evs + n)) s dbs" using Cons.prems(1) by simp
  show ?case
  proof (cases e)
    case (Bid clk req)
    have plain: "plain_bid (sint (Milliseconds (idemTTL s))) (sint (UnixMilli (at_run clk))) req"
      using Cons.prems(3) Bid by simp
    obtain s1 dbs1 res later1 where b: "RedisStore_PlaceBid C R clk s req dbs = Some (s1, dbs1, res)"
      "store_ready (length evs + n) s1 dbs1" "labelled (store_view hash stream s1 dbs1)" "idemTTL s1 = idemTTL s"
      "a_log (auction_in s1 dbs1 a) = ?log @ later1" "length later1 \<le> 1" "J (auction_in s1 dbs1 a)"
      by (rule live_bid [OF rdy Cons.prems(2) plain Cons.prems(4,5)])
    have pos: "at_pos (offsets d a) (av_events (store_view hash stream s1 dbs1 a)) i"
      using at_pos_log_extends [OF Cons.prems(7)] b(5) by (auto simp: a_log_at)
    have le: "i \<le> length (a_log (auction_in s1 dbs1 a))" using Cons.prems(8) b(5) by simp
    obtain s' dbs' d' ms m later where r: "live C R evs s1 dbs1 d = Some (s', dbs', d', ms)" "store_ready n s' dbs'"
      "a_log (auction_in s' dbs' a) = a_log (auction_in s1 dbs1 a) @ later" "J (auction_in s' dbs' a)" "length later \<le> bid_count evs"
      "feeds a ?k (trailing evs) i ms m (a_log (auction_in s' dbs' a))"
      using Cons.IH [OF b(2,3) rest [folded b(4)] Cons.prems(4) [folded b(4)] b(7) Cons.prems(6) pos le]
      by (elim exE conjE) (rule that)
    have t: "trailing (e # evs) = trailing evs" "length (later1 @ later) \<le> bid_count (e # evs)"
      using Bid b(6) r(5) by (simp_all add: trailing_Cons bid_count_def)
    have l: "live C R (e # evs) s dbs d = Some (s', dbs', d', ms)" using b(1) r(1) Bid by simp
    have g: "a_log (auction_in s' dbs' a) = ?log @ (later1 @ later)" using r(3) b(5) by simp
    show ?thesis
      by (intro exI [of _ s'] exI [of _ dbs'] exI [of _ d'] exI [of _ ms] exI [of _ m] exI [of _ "later1 @ later"] conjI
          l r(2) g r(4) t(2) r(6) [folded t(1)])
  next
    case (Tick now known)
    have known: "distinct known" "a \<in> set known" using Cons.prems(3) Tick by simp_all
    obtain d1 ms1 lag where t: "dispatch_tick (\<lambda>offs count. RedisStore_ReadEvents C R s offs count dbs) now known d = Some (d1, ms1, lag)"
      "streamCount d1 = streamCount d" "messages_for a ms1 = map (\<lambda>e. (a, bid_message e)) (take ?k (drop i ?log))"
      "at_pos (offsets d1 a) (av_events (store_view hash stream s dbs a)) (min (i + ?k) (length ?log))"
      by (rule live_tick [OF rdy Cons.prems(2) known Cons.prems(6,7)])
    have rdy': "store_ready (length evs + n) s dbs" using rdy by (auto simp: ready_def intro: good_state_less)
    have count: "0 < sint (streamCount d1)" using Cons.prems(6) t(2) by simp
    obtain s' dbs' d' ms m later where r: "live C R evs s dbs d1 = Some (s', dbs', d', ms)" "store_ready n s' dbs'"
      "a_log (auction_in s' dbs' a) = ?log @ later" "J (auction_in s' dbs' a)" "length later \<le> bid_count evs"
      "feeds a ?k (trailing evs) (min (i + ?k) (length ?log)) ms m (a_log (auction_in s' dbs' a))"
      using Cons.IH [OF rdy' Cons.prems(2) rest Cons.prems(4,5) count t(4) min.cobounded2, unfolded t(2)]
      by (elim exE conjE) (rule that)
    have "trailing (e # evs) = trailing evs \<or> trailing (e # evs) = Suc (trailing evs) \<and> later = []"
      using Tick r(5) by (auto simp: trailing_Cons trailing_ticks bid_count_def)
    note fed = feeds_tick [OF t(3) Cons.prems(8) r(6) [unfolded r(3)] this, folded r(3)]
    have l: "live C R (e # evs) s dbs d = Some (s', dbs', d', ms1 @ ms)" using t(1) r(1) Tick by simp
    show ?thesis
      by (intro exI [of _ s'] exI [of _ dbs'] exI [of _ d'] exI [of _ "ms1 @ ms"] exI [of _ m] exI [of _ later] conjI
          l r(2,3,4) fed) (use r(5) Tick in \<open>simp add: bid_count_def\<close>)
  qed
qed

end

end
