(* ===== verification/HubLive.thy ===== *)
theory HubLive
  imports HubProps
begin

text \<open>
  When the hub does not block itself: every client sends itself for removal at most three times (its
  two pumps and the hub when it drops it), so that few enough clients never fill the \<open>unregister\<close>
  channel.
\<close>

section \<open>Removals a client can still cause\<close>

definition queued_removals :: "hub_sys \<Rightarrow> client \<Rightarrow> nat" where
  "queued_removals s c = length (filter (\<lambda>e. snd e = c) (unregister (hub s)))"

definition queued_joins :: "hub_sys \<Rightarrow> client \<Rightarrow> nat" where
  "queued_joins s c = length (filter (\<lambda>e. snd e = c) (register (hub s)))"

definition is_member :: "hub_sys \<Rightarrow> client \<Rightarrow> bool" where
  "is_member s c \<longleftrightarrow> (\<exists>a. c \<in> members (hub s) a)"

text \<open>The client the hub is removing: it may be out of its set and not closed yet.\<close>

definition being_dropped :: "hub_sys \<Rightarrow> client \<Rightarrow> bool" where
  "being_dropped s c \<longleftrightarrow> (\<exists>a cs. run s = Dropping a (c # cs))"

definition pumps :: "hub_sys \<Rightarrow> client \<Rightarrow> nat" where
  "pumps s c =
     (case heap s c of None \<Rightarrow> 0 | Some cl \<Rightarrow> (if reading cl then 1 else 0) + (if pump cl = PumpDone then 0 else 1))"

definition removals :: "hub_sys \<Rightarrow> client \<Rightarrow> nat" where
  "removals s c = queued_removals s c + queued_joins s c + (if is_member s c \<or> being_dropped s c then 1 else 0) + pumps s c"

text \<open>The clients that are connected, registered, being dropped, or named in one of the two channels.\<close>

definition present :: "hub_sys \<Rightarrow> client set" where
  "present s = {c. removals s c \<noteq> 0}"

definition removals_ok :: "hub_sys \<Rightarrow> bool" where
  "removals_ok s \<longleftrightarrow> finite (dom (heap s)) \<and> (\<forall>(a, c) \<in> set (unregister (hub s)). heap s c \<noteq> None) \<and>
     (\<forall>c. removals s c \<le> 3)"

lemmas removal_defs = removals_def queued_removals_def queued_joins_def is_member_def being_dropped_def pumps_def

section \<open>Lemmas\<close>

lemma pump_step_pumps: "pump_step cl cl' \<Longrightarrow> pump cl \<noteq> PumpDone \<and> pump cl' \<noteq> PumpDone \<and> reading cl' = reading cl"
  by (induction rule: pump_step.induct) auto

lemma try_send_pumps: "try_send p cl = Some cl' \<Longrightarrow> (pump cl' = PumpDone) = (pump cl = PumpDone) \<and> reading cl' = reading cl"
  by (auto simp: try_send_def split: if_splits)

lemma Client_close_queue:
  "Client_close c cl h = Some (cl', h') \<Longrightarrow>
   length (filter (\<lambda>e. snd e = d) (unregister h')) \<le> length (filter (\<lambda>e. snd e = d) (unregister h)) + (if d = c then 1 else 0) \<and>
   reading cl' = reading cl \<and> pump cl' = pump cl"
  by (auto simp: Client_close_def Unregister_def close_conn_def split: option.splits if_splits)

lemma readPump_queue:
  "readPump ok c cl h = Some (cl', h') \<Longrightarrow> reading cl \<Longrightarrow>
   length (filter (\<lambda>e. snd e = d) (unregister h')) + (if d = c \<and> reading cl' then 1 else 0) \<le>
   length (filter (\<lambda>e. snd e = d) (unregister h)) + (if d = c then 1 else 0)"
  by (cases ok) (auto simp: readPump_def dest!: Client_close_queue [of _ _ _ _ _ d] split: if_splits)

lemma deliver_pumps:
  assumes "deliver p cs hp = (hp', full)" "distinct cs"
  shows "(case hp' d of None \<Rightarrow> 0 | Some cl \<Rightarrow> (if reading cl then 1 else 0) + (if pump cl = PumpDone then 0 else 1)) =
    (case hp d of None \<Rightarrow> 0 | Some cl \<Rightarrow> (if reading cl then 1 else (0 :: nat)) + (if pump cl = PumpDone then 0 else 1))"
proof -
  have d: "hp' d = (if d \<in> set cs then map_option (\<lambda>cl. case try_send p cl of Some cl' \<Rightarrow> cl' | None \<Rightarrow> cl) (hp d) else hp d)"
    using assms by (auto simp: deliver_spec)
  show ?thesis
  proof (cases "hp d")
    case (Some cl)
    then show ?thesis using try_send_pumps [of p cl] by (cases "try_send p cl") (auto simp: d)
  qed (simp add: d)
qed

lemma members_unique:
  assumes "hub_inv s" "c \<in> members (hub s) a" "c \<in> members (hub s) b"
  shows "a = b"
proof -
  have "of_auction s a c" "of_auction s b c" using assms by (auto simp: hub_inv_def owners_ok_def)
  then show ?thesis by (auto simp: of_auction_def)
qed

text \<open>Every step leaves the removals of a client at most as they were, but for a new client.\<close>

lemma removals_step:
  assumes "hub_step l s t" "hub_inv s"
  shows "removals t d \<le> removals s d \<or> heap s d = None \<and> removals t d \<le> removals s d + 3"
  using assms
proof (induction rule: hub_step.induct)
  case (serve s c a up out t)
  from serve(2) show ?case
    using serve(1) by (cases rule: ServeHTTP_cases) (auto simp: removal_defs subscriber_def)
next
  case (publish a m s h)
  then show ?case by (auto simp: removal_defs Broadcast_def split: if_splits)
next
  case (run_register s a c rest)
  have "register (do_register a c ((hub s)\<lparr>register := rest\<rparr>)) = rest"
    "unregister (do_register a c ((hub s)\<lparr>register := rest\<rparr>)) = unregister (hub s)"
    by (simp_all add: do_register_def)
  with run_register(2) show ?case by (auto simp: removal_defs split: option.split)
next
  case (run_unregister s a c rest)
  have "register (do_unregister a c ((hub s)\<lparr>unregister := rest\<rparr>)) = register (hub s)"
    "unregister (do_unregister a c ((hub s)\<lparr>unregister := rest\<rparr>)) = rest"
    by (simp_all add: do_unregister_def split: option.split)
  with run_unregister(2) show ?case by (auto simp: removal_defs split: option.split)
next
  case (run_broadcast s a p rest cs hp' full)
  have "full = filter (\<lambda>c. \<exists>cl. heap s c = Some cl \<and> try_send p cl = None) cs"
    using run_broadcast(5) unfolding deliver_spec [OF run_broadcast(3)] by simp
  then have "set full \<subseteq> members (hub s) a" using run_broadcast(4) by auto
  then have "is_member s d" if "full = d # ds" for ds using that by (auto simp: is_member_def)
  with deliver_pumps [OF run_broadcast(5,3), of d] show ?case
    by (auto simp: removals_def queued_removals_def queued_joins_def pumps_def is_member_def being_dropped_def split: if_splits)
next
  case (drop_delete s a c cs)
  then show ?case by (auto simp: removal_defs)
next
  case (drop_close s a c cs cl cl' h)
  note q = Client_close_queue [OF drop_close(4), of d] and fr = Client_close_frame [OF drop_close(4)]
  have m: "members h b = members (hub s) b" for b using fr members_cong by blast
  have p: "distinct (c # cs)" "set cs \<subseteq> members (hub s) a"
    using drop_close(1,5) by (simp_all add: hub_inv_def pending_ok_def)
  show ?case
  proof (cases "d = c")
    case True
    have "\<not> is_member s c"
    proof
      assume "is_member s c"
      then obtain b where "c \<in> members (hub s) b" by (auto simp: is_member_def)
      then have "of_auction s b c" "of_auction s a c"
        using hub_inv_member [OF drop_close(5)] hub_inv_dropping [OF drop_close(5,1)] by simp_all
      with \<open>c \<in> members (hub s) b\<close> drop_close(2) show False by (auto simp: of_auction_def)
    qed
    moreover have "\<not> (\<exists>b bs. Dropping a cs = Dropping b (c # bs))" using p(1) by auto
    ultimately show ?thesis using True q fr drop_close(1,3) m by (simp add: removal_defs)
  next
    case False
    have "is_member s d" if "cs = d # ds" for ds using that p(2) by (auto simp: is_member_def)
    with False show ?thesis using q fr drop_close(1,3) m by (auto simp: removal_defs)
  qed
next
  case (drop_done s a)
  then show ?case by (simp add: removal_defs)
next
  case (pump_moves s c cl cl')
  with pump_step_pumps [OF pump_moves(2)] show ?case by (auto simp: removal_defs)
next
  case (pump_ends s c cl cl' h)
  have m: "members h b = members (hub s) b" for b using Client_close_frame [OF pump_ends(3)] members_cong by blast
  show ?case
    using pump_ends(1,2) m Client_close_queue [OF pump_ends(3), of d] Client_close_frame [OF pump_ends(3)]
    by (auto simp: removal_defs)
next
  case (reads s c cl ok cl' h)
  have m: "members h b = members (hub s) b" for b using readPump_frame [OF reads(4)] members_cong by blast
  show ?case
    using reads(1,2) m readPump_queue [OF reads(4,2), of d] readPump_frame [OF reads(4)]
    by (auto simp: removal_defs split: if_splits)
qed

lemma heap_keeps: "hub_step l s t \<Longrightarrow> heap s d \<noteq> None \<Longrightarrow> heap t d \<noteq> None"
proof (induction rule: hub_step.induct)
  case (serve s c a up out t)
  from serve(2) show ?case using serve(1,3) by (cases rule: ServeHTTP_cases) auto
next
  case (run_broadcast s a p rest cs hp' full)
  then show ?case by (auto simp: deliver_spec)
qed auto

lemma heap_finite: "hub_step l s t \<Longrightarrow> finite (dom (heap s)) \<Longrightarrow> finite (dom (heap t))"
proof (induction rule: hub_step.induct)
  case (serve s c a up out t)
  from serve(2) show ?case using serve(3) by (cases rule: ServeHTTP_cases) (simp_all add: dom_fun_upd del: fun_upd_apply)
next
  case (run_broadcast s a p rest cs hp' full)
  then have "dom hp' = dom (heap s)" by (auto simp: deliver_spec dom_def split: if_splits)
  with run_broadcast(6) show ?case by simp
qed (simp_all add: dom_fun_upd del: fun_upd_apply)

text \<open>A client the heap does not hold causes no removal, and one it gets at a step is held.\<close>

lemma removals_held:
  assumes "hub_inv s" "\<forall>(a, c) \<in> set (unregister (hub s)). heap s c \<noteq> None" "heap s d = None"
  shows "removals s d = 0"
  using assms by (fastforce simp: hub_inv_def owners_ok_def of_auction_def removal_defs filter_empty_conv)

lemma unregister_held:
  assumes "hub_step l s t" "\<forall>(a, c) \<in> set (unregister (hub s)). heap s c \<noteq> None"
  shows "\<forall>(a, c) \<in> set (unregister (hub t)). heap t c \<noteq> None"
proof -
  have "\<forall>(a, c) \<in> set (unregister (hub t)). (a, c) \<in> set (unregister (hub s)) \<or> heap s c \<noteq> None"
    using assms(1)
  proof (induction rule: hub_step.induct)
    case (serve s c a up out t)
    from serve(2) show ?case by (cases rule: ServeHTTP_cases) auto
  next
    case (run_unregister s a c rest)
    then show ?case by (auto simp: do_unregister_def split: option.splits)
  qed (auto simp: Broadcast_def do_register_def readPump_def Client_close_def Unregister_def split: if_splits option.splits)
  with assms(2) heap_keeps [OF assms(1)] show ?thesis by fast
qed

lemma removals_ok_step:
  assumes "hub_step l s t" "hub_inv s" "removals_ok s"
  shows "removals_ok t"
proof -
  have ok: "finite (dom (heap s))" "\<forall>(a, c) \<in> set (unregister (hub s)). heap s c \<noteq> None" "\<And>c. removals s c \<le> 3"
    using assms(3) by (simp_all add: removals_ok_def)
  have "removals t d \<le> 3" for d
    using removals_step [OF assms(1,2), of d] removals_held [OF assms(2) ok(2), of d] ok(3) [of d] by linarith
  with heap_finite [OF assms(1) ok(1)] unregister_held [OF assms(1) ok(2)] show ?thesis by (simp add: removals_ok_def)
qed

lemma removals_ok_runs: "hub_runs s tr t \<Longrightarrow> hub_inv s \<Longrightarrow> removals_ok s \<Longrightarrow> removals_ok t"
proof (induction rule: hub_runs.induct)
  case (hub_more s tr t l u)
  then show ?case using removals_ok_step hub_inv_runs by blast
qed simp

lemma removals_ok_init: "removals_ok (hub_init depth)"
  by (simp add: removals_ok_def hub_init_def NewHub_def removal_defs members_def)

lemma length_by_key:
  assumes "finite K" "snd ` set xs \<subseteq> K"
  shows "length xs = (\<Sum>k \<in> K. length (filter (\<lambda>e. snd e = k) xs))"
  using assms(2)
proof (induction xs)
  case (Cons x xs)
  have "(\<Sum>k \<in> K. length (filter (\<lambda>e. snd e = k) (x # xs))) =
      (\<Sum>k \<in> K. length (filter (\<lambda>e. snd e = k) xs) + (if snd x = k then 1 else 0))"
    by (intro sum.cong) auto
  also have "\<dots> = Suc (length xs)" using Cons assms(1) by (simp add: sum.distrib)
  finally show ?case by simp
qed simp

text \<open>Three places of the channel per client that is present suffice.\<close>

lemma unregister_bound:
  assumes "hub_inv s" "removals_ok s"
  shows "finite (present s)" "length (unregister (hub s)) \<le> 3 * card (present s)"
proof -
  have ok: "finite (dom (heap s))" "\<forall>(a, c) \<in> set (unregister (hub s)). heap s c \<noteq> None" "\<And>c. removals s c \<le> 3"
    using assms(2) by (simp_all add: removals_ok_def)
  have "present s \<subseteq> dom (heap s)" using removals_held [OF assms(1) ok(2)] by (fastforce simp: present_def)
  then show fin: "finite (present s)" using ok(1) by (rule finite_subset)
  have "snd ` set (unregister (hub s)) \<subseteq> present s"
    by (force simp: present_def removals_def queued_removals_def filter_empty_conv)
  then have "length (unregister (hub s)) = (\<Sum>c \<in> present s. queued_removals s c)"
    unfolding queued_removals_def by (rule length_by_key [OF fin])
  also have "\<dots> \<le> (\<Sum>c \<in> present s. 3)"
  proof (rule sum_mono)
    fix c
    show "queued_removals s c \<le> 3" using ok(3) [of c] unfolding removals_def by linarith
  qed
  finally show "length (unregister (hub s)) \<le> 3 * card (present s)" by simp
qed

lemma hub_reach_trans: "hub_reach s t \<Longrightarrow> hub_reach t u \<Longrightarrow> hub_reach s u"
proof -
  have "hub_runs t tr u \<Longrightarrow> hub_reach s t \<Longrightarrow> hub_reach s u" for tr
    by (induction rule: hub_runs.induct) (auto intro: hub_reach_step)
  then show "hub_reach s t \<Longrightarrow> hub_reach t u \<Longrightarrow> hub_reach s u" by (auto simp: hub_reach_def)
qed

lemma close_succeeds: "length (unregister h) < unregister_cap \<Longrightarrow> \<exists>cl' h'. Client_close c cl h = Some (cl', h')"
  by (auto simp: Client_close_def Unregister_def split: option.split)

text \<open>A step that brings no new client leaves nobody present who was not.\<close>

lemma present_step:
  assumes "hub_step l s t" "hub_inv s" "removals_ok s" "\<forall>d. heap t d \<noteq> None \<longrightarrow> heap s d \<noteq> None"
  shows "present t \<subseteq> present s"
proof
  fix d
  assume d: "d \<in> present t"
  have t: "hub_inv t" "\<forall>(a, c) \<in> set (unregister (hub t)). heap t c \<noteq> None"
    using hub_inv_step [OF assms(1,2)] removals_ok_step [OF assms(1-3)] by (simp_all add: removals_ok_def)
  have "heap t d \<noteq> None"
  proof
    assume "heap t d = None"
    from removals_held [OF t this] d show False by (simp only: present_def mem_Collect_eq)
  qed
  then have "heap s d \<noteq> None" using assms(4) by blast
  with d removals_step [OF assms(1,2), of d] show "d \<in> present s" by (auto simp: present_def)
qed

lemma close_one:
  assumes "hub_inv s" "removals_ok s" "card (present s) \<le> 341" "run s = Dropping a (c # cs)" "c \<notin> members (hub s) a"
  obtains t where "hub_step Other s t" "run t = Dropping a cs" "present t \<subseteq> present s"
proof -
  obtain cl where cl: "heap s c = Some cl" using hub_inv_dropping [OF assms(1,4), of c] by (auto simp: of_auction_def)
  have "length (unregister (hub s)) < unregister_cap"
    using unregister_bound(2) [OF assms(1,2)] assms(3) by (simp add: unregister_cap_def)
  then obtain cl' h where "Client_close c cl (hub s) = Some (cl', h)" using close_succeeds by blast
  note step = hub_step.drop_close [OF assms(4,5) cl this]
  from present_step [OF step assms(1,2)] cl step that show ?thesis by simp
qed

lemma drop_one:
  assumes "hub_reach (hub_init depth) s" "card (present s) \<le> 341" "run s = Dropping a (c # cs)"
  obtains t where "hub_reach s t" "run t = Dropping a cs" "present t \<subseteq> present s"
proof -
  obtain tr where tr: "hub_runs (hub_init depth) tr s" using assms(1) by (auto simp: hub_reach_def)
  have inv: "hub_inv s" "removals_ok s"
    using hub_inv_runs [OF tr hub_inv_init] removals_ok_runs [OF tr hub_inv_init removals_ok_init] .
  show ?thesis
  proof (cases "c \<in> members (hub s) a")
    case False
    obtain t where t: "hub_step Other s t" "run t = Dropping a cs" "present t \<subseteq> present s"
      by (rule close_one [OF inv assms(2,3) False])
    from that [OF hub_reach_step [OF hub_reach_refl t(1)] t(2,3)] show ?thesis .
  next
    case True
    note step = hub_step.drop_delete [OF assms(3) True]
    let ?u = "s\<lparr>hub := remove_member a c (hub s)\<rparr>"
    have sub: "present ?u \<subseteq> present s" by (rule present_step [OF step inv]) simp
    have "card (present ?u) \<le> 341" using le_trans [OF card_mono [OF unregister_bound(1) [OF inv] sub] assms(2)] .
    moreover have "run ?u = Dropping a (c # cs)" "c \<notin> members (hub ?u) a" using assms(3) by simp_all
    ultimately obtain t where t: "hub_step Other ?u t" "run t = Dropping a cs" "present t \<subseteq> present ?u"
      by (rule close_one [OF hub_inv_step [OF step inv(1)] removals_ok_step [OF step inv]])
    from t(3) sub have "present t \<subseteq> present s" by (rule subset_trans)
    from that [OF hub_reach_step [OF hub_reach_step [OF hub_reach_refl step] t(1)] t(2) this] show ?thesis .
  qed
qed

lemma drop_all:
  assumes "hub_reach (hub_init depth) s" "card (present s) \<le> 341" "run s = Dropping a cs"
  shows "\<exists>t. hub_reach s t \<and> run t = Selecting \<and> present t \<subseteq> present s"
  using assms
proof (induction cs arbitrary: s)
  case Nil
  let ?t = "s\<lparr>hub := remove_empty a (hub s), run := Selecting\<rparr>"
  have "present ?t = present s" using Nil(3) by (simp add: present_def removal_defs)
  moreover have "hub_reach s ?t" using hub_reach_step [OF hub_reach_refl hub_step.drop_done [OF Nil(3)]] .
  ultimately show ?case by (intro exI [of _ ?t]) simp
next
  case (Cons c cs)
  obtain t where t: "hub_reach s t" "run t = Dropping a cs" "present t \<subseteq> present s" by (rule drop_one [OF Cons.prems])
  have fin: "finite (present s)"
  proof -
    obtain tr where tr: "hub_runs (hub_init depth) tr s" using Cons.prems(1) by (auto simp: hub_reach_def)
    show ?thesis
      using unregister_bound(1) [OF hub_inv_runs [OF tr hub_inv_init] removals_ok_runs [OF tr hub_inv_init removals_ok_init]] .
  qed
  have "card (present t) \<le> 341" using card_mono [OF fin t(3)] Cons.prems(2) by linarith
  then obtain u where u: "hub_reach t u" "run u = Selecting" "present u \<subseteq> present t"
    using Cons.IH [OF hub_reach_trans [OF Cons.prems(1) t(1)] _ t(2)] by blast
  have "hub_reach s u" using hub_reach_trans [OF t(1) u(1)] .
  with u(2,3) t(3) show ?case by blast
qed

section \<open>Property\<close>

text \<open>
  (C29) With few clients the hub always comes back: as long as at most 341 clients are connected,
  registered, being dropped or named in its channels, the \<open>unregister\<close> channel has room for every removal, and from every
  reachable state the hub by itself gets back to its \<open>select\<close>, dropping the clients it found full.
\<close>

theorem hub_returns_to_select:
  assumes "hub_reach (hub_init depth) s" and "card (present s) \<le> 341"
  shows "length (unregister (hub s)) < 1024 \<and> (\<exists>t. hub_reach s t \<and> run t = Selecting \<and> present t \<subseteq> present s)"
proof -
  obtain tr where tr: "hub_runs (hub_init depth) tr s" using assms(1) by (auto simp: hub_reach_def)
  have "length (unregister (hub s)) \<le> 3 * card (present s)"
    using unregister_bound(2) [OF hub_inv_runs [OF tr hub_inv_init] removals_ok_runs [OF tr hub_inv_init removals_ok_init]] .
  moreover have "\<exists>t. hub_reach s t \<and> run t = Selecting \<and> present t \<subseteq> present s"
  proof (cases "run s")
    case Selecting
    then show ?thesis using hub_reach_refl by blast
  next
    case (Dropping a cs)
    then show ?thesis by (rule drop_all [OF assms])
  qed
  ultimately show ?thesis using assms(2) by auto
qed

theorem hub_returns_to_select_witness:
  "\<exists>s t. run s = Dropping ''a'' [0, 1] \<and> hub_reach (hub_init 1) s \<and> hub_reach s t \<and> run t = Selecting"
proof -
  let ?m = "\<lparr>msg_Type = ''bid_accepted'', msg_AuctionID = ''a'', msg_BidID = [], msg_UserID = [], msg_Amount = 1, msg_Version = 1,
      msg_Timestamp = 1\<rparr>"
  have one: "hub_reach (hub_init 1) \<lparr>hub = crowd_hub 2, heap = crowd 2 [Marshal ?m], run = Selecting\<rparr>"
    using publish_reach [of "hub_init 1" 1 "[]" ?m, OF _ crowd_deliver_first] crowd_joins [of 2]
    by (simp add: numeral_2_eq_2 crowd_hub_def NewHub_def)
  let ?s = "\<lparr>hub = (crowd_hub 2)\<lparr>dropped := 2\<rparr>, heap = crowd 2 [Marshal ?m], run = Dropping ''a'' [0, 1]\<rparr>"
  have two: "hub_reach (hub_init 1) ?s"
    using publish_reach [of "hub_init 1" 1 "[Marshal ?m]" ?m, OF _ crowd_deliver_second] one
    by (simp add: numeral_2_eq_2)
  have "present ?s \<subseteq> {0, 1}"
    by (auto simp: present_def removal_defs crowd_def crowd_hub_def NewHub_def members_def split: if_splits)
  then have "card (present ?s) \<le> card {0 :: nat, 1}" by (intro card_mono) simp_all
  then have "card (present ?s) \<le> 341" by simp
  from hub_returns_to_select [OF two this] obtain t where "hub_reach ?s t" "run t = Selecting" by blast
  moreover have "run ?s = Dropping ''a'' [0, 1]" by simp
  ultimately show ?thesis using two by blast
qed

end
