(* ===== verification/Loadtest.thy ===== *)
theory Loadtest
  imports Grpc "HOL-Library.Multiset"
begin

text \<open>
  \<open>bench/loadtest/main.go\<close>: a pool of workers that places bids over gRPC. Jobs go through a channel
  of twice as many places as there are workers; \<open>load_step\<close> interleaves the goroutine that submits
  them and the workers. What the server answers to a call is left open. \<open>lt_calls\<close> records the calls
  in the order of their answers and is not part of the program.
\<close>

section \<open>Definitions\<close>

record load_flags =
  grpc_addr :: string
  auction_id :: string
  requests :: int64
  concurrency :: int64
  rpc_timeout_ms :: int64

definition default_flags :: load_flags where
  "default_flags = \<lparr>grpc_addr = ''127.0.0.1:8081'', auction_id = ''load-auction'', requests = 1000000,
                    concurrency = 512, rpc_timeout_ms = 500\<rparr>"

definition load_auction :: "load_flags \<Rightarrow> pb_CreateAuctionRequest" where
  "load_auction f = \<lparr>pb_NewAuctionId = auction_id f, pb_OpeningPriceCents = 100, pb_DurationSec = 3600\<rparr>"

definition load_bid :: "load_flags \<Rightarrow> nat \<Rightarrow> nat \<Rightarrow> pb_PlaceBidRequest" where
  "load_bid f w n =
     \<lparr>pb_AuctionId = auction_id f, pb_BidId = ''load-'' @ FormatInt (of_nat w) @ ''-'' @ FormatInt (of_nat n),
      pb_UserId = ''u-'' @ FormatInt (of_nat w), pb_AmountCents = 100 + of_nat n\<rparr>"

text \<open>A worker waits for a job, is in a call, has an error to note, or has returned.\<close>

datatype worker_pc = WorkerIdle | WorkerBusy nat | WorkerFailed string string | WorkerDone

record load_sys =
  submitted :: nat
  jobs :: "nat list"
  jobs_closed :: bool
  workers :: "worker_pc list"
  okCount :: int64
  errCount :: int64
  errorByCode :: "string \<rightharpoonup> int64"
  errorByMessage :: "string \<rightharpoonup> int64"
  lt_calls :: "(nat \<times> nat \<times> bool) list"

definition load_jobs :: "load_flags \<Rightarrow> nat" where
  "load_jobs f = nat (sint (requests f))"

definition load_cap :: "load_flags \<Rightarrow> int" where
  "load_cap f = sint (concurrency f * 2)"

text \<open>Making the channel panics when its capacity is negative.\<close>

definition load_init :: "load_flags \<Rightarrow> load_sys option" where
  "load_init f =
     (if load_cap f < 0 then None
      else Some \<lparr>submitted = 0, jobs = [], jobs_closed = False, workers = replicate (nat (sint (concurrency f))) WorkerIdle,
                 okCount = 0, errCount = 0, errorByCode = Map.empty, errorByMessage = Map.empty, lt_calls = []\<rparr>)"

definition bump :: "string \<Rightarrow> (string \<rightharpoonup> int64) \<Rightarrow> (string \<rightharpoonup> int64)" where
  "bump k m = m(k \<mapsto> (case m k of None \<Rightarrow> 0 | Some v \<Rightarrow> v) + 1)"

inductive load_step :: "load_flags \<Rightarrow> load_sys \<Rightarrow> load_sys \<Rightarrow> bool" for f where
  lt_submit: "submitted s < load_jobs f \<Longrightarrow> int (length (jobs s)) < load_cap f \<Longrightarrow>
    load_step f s (s\<lparr>submitted := Suc (submitted s), jobs := jobs s @ [submitted s]\<rparr>)"
| lt_close: "submitted s = load_jobs f \<Longrightarrow> \<not> jobs_closed s \<Longrightarrow> load_step f s (s\<lparr>jobs_closed := True\<rparr>)"
| lt_take: "w < length (workers s) \<Longrightarrow> workers s ! w = WorkerIdle \<Longrightarrow> jobs s = n # rest \<Longrightarrow>
    load_step f s (s\<lparr>jobs := rest, workers := (workers s)[w := WorkerBusy n]\<rparr>)"
| lt_ok: "w < length (workers s) \<Longrightarrow> workers s ! w = WorkerBusy n \<Longrightarrow>
    load_step f s (s\<lparr>workers := (workers s)[w := WorkerIdle], okCount := okCount s + 1,
                     lt_calls := lt_calls s @ [(w, n, True)]\<rparr>)"
| lt_error: "w < length (workers s) \<Longrightarrow> workers s ! w = WorkerBusy n \<Longrightarrow>
    load_step f s (s\<lparr>workers := (workers s)[w := WorkerFailed errorCode errorMessage], errCount := errCount s + 1,
                     lt_calls := lt_calls s @ [(w, n, False)]\<rparr>)"
| lt_note: "w < length (workers s) \<Longrightarrow> workers s ! w = WorkerFailed errorCode errorMessage \<Longrightarrow>
    load_step f s (s\<lparr>workers := (workers s)[w := WorkerIdle], errorByCode := bump errorCode (errorByCode s),
                     errorByMessage := bump errorMessage (errorByMessage s)\<rparr>)"
| lt_leave: "w < length (workers s) \<Longrightarrow> workers s ! w = WorkerIdle \<Longrightarrow> jobs s = [] \<Longrightarrow> jobs_closed s \<Longrightarrow>
    load_step f s (s\<lparr>workers := (workers s)[w := WorkerDone]\<rparr>)"

text \<open>Runs with their number of steps; \<open>wg.Wait\<close> returns once the jobs are closed and all workers have returned.\<close>

inductive load_runs :: "load_flags \<Rightarrow> load_sys \<Rightarrow> nat \<Rightarrow> load_sys \<Rightarrow> bool" for f where
  lt_refl: "load_runs f s 0 s"
| lt_more: "load_runs f s k t \<Longrightarrow> load_step f t u \<Longrightarrow> load_runs f s (Suc k) u"

definition load_finished :: "load_sys \<Rightarrow> bool" where
  "load_finished s \<longleftrightarrow> jobs_closed s \<and> set (workers s) \<subseteq> {WorkerDone}"

text \<open>
  The error breakdown: the entries of a map in some order, sorted by falling count (\<open>sort.Slice\<close> leaves
  the order of equal counts open), of which at most five messages are printed.
\<close>

definition breakdown :: "(string \<rightharpoonup> int64) \<Rightarrow> (string \<times> int64) list \<Rightarrow> bool" where
  "breakdown m kvs \<longleftrightarrow> distinct (map fst kvs) \<and> set (map fst kvs) = dom m \<and> (\<forall>(k, v) \<in> set kvs. m k = Some v) \<and>
     sorted_wrt (\<lambda>x y. sint (snd y) \<le> sint (snd x)) kvs"

definition shown_messages :: "(string \<times> int64) list \<Rightarrow> (string \<times> int64) list" where
  "shown_messages kvs = take (min 5 (length kvs)) kvs"

section \<open>Invariant\<close>

fun busy_job :: "worker_pc \<Rightarrow> nat list" where
  "busy_job (WorkerBusy n) = [n]"
| "busy_job _ = []"

fun has_failed :: "worker_pc \<Rightarrow> bool" where
  "has_failed (WorkerFailed _ _) = True"
| "has_failed _ = False"

text \<open>Every job submitted is queued, in a call, or answered, and the counters count the answers.\<close>

definition jobs_in :: "load_sys \<Rightarrow> nat multiset" where
  "jobs_in s = mset (jobs s) + mset (concat (map busy_job (workers s))) + mset (map (\<lambda>c. fst (snd c)) (lt_calls s))"

definition noted :: "(string \<rightharpoonup> int64) \<Rightarrow> int64" where
  "noted m = (\<Sum>k \<in> dom m. the (m k))"

definition failed_workers :: "load_sys \<Rightarrow> nat" where
  "failed_workers s = length (filter has_failed (workers s))"

definition load_inv :: "load_flags \<Rightarrow> load_sys \<Rightarrow> bool" where
  "load_inv f s \<longleftrightarrow> submitted s \<le> load_jobs f \<and> jobs_in s = mset [0..<submitted s] \<and>
     okCount s = of_nat (length (filter (\<lambda>c. snd (snd c)) (lt_calls s))) \<and>
     errCount s = of_nat (length (filter (\<lambda>c. \<not> snd (snd c)) (lt_calls s))) \<and>
     finite (dom (errorByCode s)) \<and> finite (dom (errorByMessage s)) \<and>
     noted (errorByCode s) + of_nat (failed_workers s) = errCount s \<and>
     noted (errorByMessage s) + of_nat (failed_workers s) = errCount s \<and>
     (jobs_closed s \<longrightarrow> submitted s = load_jobs f) \<and>
     (WorkerDone \<in> set (workers s) \<longrightarrow> jobs_closed s \<and> jobs s = [])"

text \<open>How many steps are left at most.\<close>

fun worker_left :: "worker_pc \<Rightarrow> nat" where
  "worker_left WorkerIdle = 1"
| "worker_left (WorkerBusy _) = 3"
| "worker_left (WorkerFailed _ _) = 2"
| "worker_left WorkerDone = 0"

definition steps_left :: "load_flags \<Rightarrow> load_sys \<Rightarrow> nat" where
  "steps_left f s = 5 * (load_jobs f - submitted s) + 4 * length (jobs s) + sum_list (map worker_left (workers s)) +
     (if jobs_closed s then 0 else 1)"

section \<open>Lemmas\<close>

lemma list_update_split: "w < length xs \<Longrightarrow> \<exists>us vs. xs = us @ xs ! w # vs \<and> (\<forall>y. xs[w := y] = us @ y # vs)"
  by (intro exI [of _ "take w xs"] exI [of _ "drop (Suc w) xs"]) (simp add: id_take_nth_drop upd_conv_take_nth_drop)

lemma noted_bump: "finite (dom m) \<Longrightarrow> noted (bump k m) = noted m + 1"
proof (cases "m k")
  case None
  assume "finite (dom m)"
  moreover have "(\<Sum>j \<in> dom m. the ((m(k \<mapsto> 1)) j)) = (\<Sum>j \<in> dom m. the (m j))"
    using None by (intro sum.cong) auto
  ultimately show ?thesis using None by (simp add: noted_def bump_def domIff)
next
  case (Some v)
  assume fin: "finite (dom m)"
  have k: "k \<in> dom m" using Some by blast
  have "(\<Sum>j \<in> dom m - {k}. the ((m(k \<mapsto> v + 1)) j)) = (\<Sum>j \<in> dom m - {k}. the (m j))"
    by (intro sum.cong) auto
  with Some sum.remove [OF fin k, of "\<lambda>j. the (m j)"] sum.remove [OF fin k, of "\<lambda>j. the ((m(k \<mapsto> v + 1)) j)"] show ?thesis
    by (simp add: noted_def bump_def insert_absorb [OF k] algebra_simps)
qed

lemma finite_bump: "finite (dom m) \<Longrightarrow> finite (dom (bump k m))"
  by (simp add: bump_def)

lemma load_inv_step:
  assumes "load_step f s t" "load_inv f s"
  shows "load_inv f t"
  using assms
proof (induction rule: load_step.induct)
  case (lt_take w s n rest)
  obtain us vs where "workers s = us @ workers s ! w # vs" "\<forall>y. (workers s)[w := y] = us @ y # vs"
    using list_update_split [OF lt_take(1)] by blast
  with lt_take show ?case by (auto simp: load_inv_def jobs_in_def failed_workers_def)
next
  case (lt_ok w s n)
  obtain us vs where "workers s = us @ workers s ! w # vs" "\<forall>y. (workers s)[w := y] = us @ y # vs"
    using list_update_split [OF lt_ok(1)] by blast
  with lt_ok show ?case by (auto simp: load_inv_def jobs_in_def failed_workers_def)
next
  case (lt_error w s n c msg)
  obtain us vs where "workers s = us @ workers s ! w # vs" "\<forall>y. (workers s)[w := y] = us @ y # vs"
    using list_update_split [OF lt_error(1)] by blast
  with lt_error show ?case by (auto simp: load_inv_def jobs_in_def failed_workers_def algebra_simps)
next
  case (lt_note w s c msg)
  obtain us vs where "workers s = us @ workers s ! w # vs" "\<forall>y. (workers s)[w := y] = us @ y # vs"
    using list_update_split [OF lt_note(1)] by blast
  with lt_note show ?case
    by (auto simp: load_inv_def jobs_in_def failed_workers_def noted_bump finite_bump algebra_simps)
next
  case (lt_leave w s)
  obtain us vs where "workers s = us @ workers s ! w # vs" "\<forall>y. (workers s)[w := y] = us @ y # vs"
    using list_update_split [OF lt_leave(1)] by blast
  with lt_leave show ?case by (auto simp: load_inv_def jobs_in_def failed_workers_def)
qed (auto simp: load_inv_def jobs_in_def failed_workers_def)

lemma steps_left_step:
  assumes "load_step f s t"
  shows "steps_left f t < steps_left f s"
  using assms
proof (induction rule: load_step.induct)
  case (lt_submit s)
  then show ?case by (simp add: steps_left_def)
next
  case (lt_close s)
  then show ?case by (simp add: steps_left_def)
qed (use list_update_split in \<open>fastforce simp: steps_left_def\<close>)+

lemma load_inv_init: "load_init f = Some s \<Longrightarrow> load_inv f s"
  by (auto simp: load_init_def load_inv_def jobs_in_def noted_def failed_workers_def filter_replicate concat_replicate_trivial
      map_replicate split: if_splits)

lemma load_inv_runs: "load_runs f s k t \<Longrightarrow> load_inv f s \<Longrightarrow> load_inv f t"
  by (induction rule: load_runs.induct) (auto intro: load_inv_step)

lemma steps_left_runs: "load_runs f s k t \<Longrightarrow> k + steps_left f t \<le> steps_left f s"
  by (induction rule: load_runs.induct) (auto dest: steps_left_step)

lemma workers_step: "load_step f s t \<Longrightarrow> length (workers t) = length (workers s)"
  by (induction rule: load_step.induct) simp_all

lemma workers_runs: "load_runs f s k t \<Longrightarrow> length (workers t) = length (workers s)"
  by (induction rule: load_runs.induct) (auto dest: workers_step)

lemma load_progress:
  assumes "load_inv f s" "workers s \<noteq> []" "0 < load_cap f" "\<not> load_finished s"
  shows "\<exists>t. load_step f s t"
proof (cases "\<exists>w < length (workers s). \<exists>n c e. workers s ! w = WorkerBusy n \<or> workers s ! w = WorkerFailed c e")
  case True
  then show ?thesis by (metis lt_ok lt_note)
next
  case False
  then have quiet: "workers s ! w = WorkerIdle \<or> workers s ! w = WorkerDone" if "w < length (workers s)" for w
    using that worker_pc.exhaust by metis
  show ?thesis
  proof (cases "\<exists>w < length (workers s). workers s ! w = WorkerIdle")
    case True
    then obtain w where w: "w < length (workers s)" "workers s ! w = WorkerIdle" by blast
    show ?thesis
    proof (cases "jobs s")
      case (Cons n rest)
      with w show ?thesis by (metis lt_take)
    next
      case Nil
      have "submitted s \<le> load_jobs f" using assms(1) by (simp add: load_inv_def)
      then consider "submitted s < load_jobs f" | "submitted s = load_jobs f" "\<not> jobs_closed s" | "jobs_closed s" by linarith
      then show ?thesis
      proof cases
        case 1
        with Nil assms(3) load_step.lt_submit [of s f] show ?thesis by auto
      next
        case 2
        then show ?thesis by (metis lt_close)
      next
        case 3
        with Nil w show ?thesis by (metis lt_leave)
      qed
    qed
  next
    case False
    with quiet have all: "set (workers s) \<subseteq> {WorkerDone}" by (auto simp: in_set_conv_nth)
    with assms(2) have "WorkerDone \<in> set (workers s)" by (cases "workers s") auto
    with assms(1) have "jobs_closed s" by (simp add: load_inv_def)
    with all assms(4) show ?thesis by (simp add: load_finished_def)
  qed
qed

lemma load_cap_pos:
  assumes "0 < sint (concurrency f)" "0 \<le> load_cap f"
  shows "0 < load_cap f"
proof -
  let ?c = "sint (concurrency f)"
  have w: "concurrency f * 2 = word_of_int (?c * 2)" "concurrency f * 2 = word_of_int (?c * 2 - 2 ^ 64)" by simp_all
  show ?thesis
  proof (cases "?c < 2 ^ 62")
    case True
    with assms(1) have "sint (word_of_int (?c * 2) :: int64) = ?c * 2" by (intro sint_int64) simp_all
    then have "load_cap f = ?c * 2" unfolding load_cap_def w(1) .
    with assms(1) show ?thesis by simp
  next
    case False
    with int64_range [of "concurrency f"] have "sint (word_of_int (?c * 2 - 2 ^ 64) :: int64) = ?c * 2 - 2 ^ 64"
      by (intro sint_int64) simp_all
    then have "load_cap f = ?c * 2 - 2 ^ 64" unfolding load_cap_def w(2) .
    with int64_range [of "concurrency f"] assms(2) show ?thesis by simp
  qed
qed

lemma no_workers_stuck:
  assumes "concurrency f = 0" "0 < sint (requests f)" "load_init f = Some s"
  shows "\<not> load_finished s \<and> \<not> load_step f s t"
  using assms by (auto simp: load_init_def load_finished_def load_cap_def load_jobs_def elim!: load_step.cases)

lemma breakdown_total: "finite (dom m) \<Longrightarrow> breakdown m kvs \<Longrightarrow> sum_list (map snd kvs) = noted m"
proof -
  assume b: "breakdown m kvs"
  then have "map snd kvs = map (\<lambda>k. the (m k)) (map fst kvs)" by (auto simp: breakdown_def)
  then have "sum_list (map snd kvs) = sum (\<lambda>k. the (m k)) (set (map fst kvs))"
    using b by (simp only: sum_list_distinct_conv_sum_set breakdown_def)
  with b show ?thesis by (simp add: breakdown_def noted_def)
qed

section \<open>A load test against a store\<close>

lemma top_bidder_is:
  assumes "top_price p bids \<noteq> p"
  obtains b where "b \<in> set bids" "bid_amount b = top_price p bids" "top_bidder p w bids = UserID (snd b)"
proof -
  let ?tops = "filter (\<lambda>b. bid_amount b = top_price p bids) bids"
  have "top_price p bids \<in> insert p (bid_amount ` set bids)" unfolding top_price_def by (rule Max_in) simp_all
  with assms have "?tops \<noteq> []" by (auto simp: filter_empty_conv)
  then have "hd ?tops \<in> set ?tops" by (rule hd_in_set)
  with assms that [of "hd ?tops"] show ?thesis by (simp add: top_bidder_def)
qed

text \<open>The request of a call as it reaches the service.\<close>

definition load_request :: "load_flags \<Rightarrow> nat \<times> nat \<times> bool \<Rightarrow> PlaceBidRequest" where
  "load_request f c = bid_of_pb (Some (load_bid f (fst c) (fst (snd c))))"

lemma sint_nat64: "n < 2 ^ 63 \<Longrightarrow> sint (of_nat n :: int64) = int n"
  using sint_int64 [of "int n"] by simp

lemma load_request_simps [simp]:
  "AuctionID (load_request f c) = auction_id f" "UserID (load_request f c) = ''u-'' @ FormatInt (of_nat (fst c))"
  "BidID (load_request f c) = ''load-'' @ FormatInt (of_nat (fst c)) @ ''-'' @ FormatInt (of_nat (fst (snd c)))"
  by (simp_all add: load_request_def bid_of_pb_def load_bid_def pb_getters)

lemma load_request_amount:
  assumes "fst (snd c) < 10 ^ 13"
  shows "sint (AmountCents (load_request f c)) = 100 + int (fst (snd c))"
proof -
  have "(100 + of_nat (fst (snd c)) :: int64) = word_of_int (100 + int (fst (snd c)))" by simp
  moreover have "sint (word_of_int (100 + int (fst (snd c))) :: int64) = 100 + int (fst (snd c))"
    using assms by (intro sint_int64) simp_all
  ultimately show ?thesis by (simp add: load_request_def bid_of_pb_def load_bid_def pb_getters)
qed

lemma FormatInt_no_dash: "n < 2 ^ 63 \<Longrightarrow> CHR ''-'' \<notin> set (FormatInt (of_nat n))"
  using show_nat_digits [of n] by (auto simp: FormatInt_def sint_nat64 show_int_def dest: is_digit_neq(1))

lemma before_first: "x \<notin> set us \<Longrightarrow> takeWhile (\<lambda>y. y \<noteq> x) (us @ x # ws) = us"
  by (induction us) auto

lemma after_last:
  assumes "x \<notin> set us" "x \<notin> set vs" "as @ x # us = bs @ x # vs"
  shows "us = vs"
proof -
  have "rev us @ x # rev as = rev vs @ x # rev bs" using arg_cong [OF assms(3), of rev] by simp
  then have "takeWhile (\<lambda>y. y \<noteq> x) (rev us @ x # rev as) = takeWhile (\<lambda>y. y \<noteq> x) (rev vs @ x # rev bs)" by (rule arg_cong)
  with assms(1,2) show ?thesis by (simp add: before_first)
qed

lemma load_request_inj:
  assumes "BidID (load_request f c) = BidID (load_request f d)" "fst (snd c) < 2 ^ 63" "fst (snd d) < 2 ^ 63"
  shows "fst (snd c) = fst (snd d)"
proof -
  have "(''load-'' @ FormatInt (of_nat (fst c))) @ CHR ''-'' # FormatInt (of_nat (fst (snd c))) =
      (''load-'' @ FormatInt (of_nat (fst d))) @ CHR ''-'' # FormatInt (of_nat (fst (snd d)))"
    using assms(1) by simp
  then have "FormatInt (of_nat (fst (snd c))) = FormatInt (of_nat (fst (snd d)))"
    by (rule after_last [OF FormatInt_no_dash [OF assms(2)] FormatInt_no_dash [OF assms(3)]])
  then have "ParseInt (FormatInt (of_nat (fst (snd c)))) = ParseInt (FormatInt (of_nat (fst (snd d))))" by (rule arg_cong)
  then have "(of_nat (fst (snd c)) :: int64) = of_nat (fst (snd d))" by (simp only: ParseInt_FormatInt prod.inject)
  then have "sint (of_nat (fst (snd c)) :: int64) = sint (of_nat (fst (snd d)) :: int64)" by (rule arg_cong)
  then show ?thesis by (simp only: sint_nat64 [OF assms(2)] sint_nat64 [OF assms(3)] of_nat_eq_iff)
qed

lemma all_calls:
  assumes "mset (map (\<lambda>c. fst (snd c)) calls) = mset [0..<N]" and "N < 10 ^ 13"
  shows "c \<in> set calls \<Longrightarrow> fst (snd c) < 10 ^ 13"
    and "(\<lambda>c. sint (AmountCents (load_request f c))) ` set calls = (\<lambda>n. 100 + int n) ` {0..<N}"
    and "distinct (map BidID (map (load_request f) calls))"
proof -
  let ?h = "\<lambda>c. fst (snd c)"
  have jobs: "?h ` set calls = {0..<N}" using arg_cong [OF assms(1), of set_mset] by simp
  show small: "?h c < 10 ^ 13" if "c \<in> set calls" for c
  proof -
    have "?h c \<in> ?h ` set calls" using that by (rule imageI)
    with assms(2) show ?thesis unfolding jobs by (simp only: atLeastLessThan_iff) linarith
  qed
  have "(\<lambda>c. sint (AmountCents (load_request f c))) ` set calls = (\<lambda>c. 100 + int (?h c)) ` set calls"
    by (rule image_cong [OF refl]) (rule load_request_amount [OF small])
  then show "(\<lambda>c. sint (AmountCents (load_request f c))) ` set calls = (\<lambda>n. 100 + int n) ` {0..<N}"
    unfolding jobs [symmetric] by (simp only: image_image)
  have "distinct (map ?h calls)" using assms(1) mset_eq_imp_distinct_iff by (metis distinct_upt)
  then have d: "distinct calls" "inj_on ?h (set calls)" by (simp_all add: distinct_map)
  have "inj_on (\<lambda>c. BidID (load_request f c)) (set calls)"
  proof (rule inj_onI)
    fix c c'
    assume c: "c \<in> set calls" "c' \<in> set calls" "BidID (load_request f c) = BidID (load_request f c')"
    have "?h c < 2 ^ 63" "?h c' < 2 ^ 63" using small [OF c(1)] small [OF c(2)] by simp_all
    from load_request_inj [OF c(3) this] show "c = c'" by (rule inj_onD [OF d(2) _ c(1,2)])
  qed
  with d(1) show "distinct (map BidID (map (load_request f) calls))" by (simp only: map_map distinct_map comp_def simp_thms)
qed

lemma bid_of_call:
  assumes "set (map snd bids) = load_request f ` set calls" and "\<And>c. c \<in> set calls \<Longrightarrow> fst (snd c) < 10 ^ 13" and "b \<in> set bids"
  shows "\<exists>c \<in> set calls. snd b = load_request f c \<and> bid_amount b = 100 + int (fst (snd c))"
proof -
  have "snd b \<in> set (map snd bids)" using assms(3) by simp
  then obtain c where "c \<in> set calls" "snd b = load_request f c" unfolding assms(1) by blast
  with load_request_amount [OF assms(2)] show ?thesis by (auto simp: bid_amount_def)
qed

lemma load_plain:
  assumes "set (map snd bids) = load_request f ` set calls" and "\<And>c. c \<in> set calls \<Longrightarrow> fst (snd c) < 10 ^ 13"
    and "\<bar>sint (Milliseconds (idemTTL s))\<bar> < 2 ^ 53" and "\<forall>b \<in> set bids. exact14 (sint (UnixMilli (at_run (fst b))))"
  shows "plain_run s bids"
  unfolding plain_run_def
proof (clarify)
  fix clk r
  assume b: "(clk, r) \<in> set bids"
  obtain c where c: "c \<in> set calls" "r = load_request f c" "bid_amount (clk, r) = 100 + int (fst (snd c))"
    using bid_of_call [OF assms(1,2) b] by auto
  with assms(2) [OF c(1)] have "exact14 (sint (AmountCents r))" by (simp add: exact14_def bid_amount_def)
  with b c(2) assms(3,4) show "plain_bid (sint (Milliseconds (idemTTL s))) (sint (UnixMilli (at_run clk))) r"
    by (auto simp: plain_bid_def)
qed

lemma finished_quiet:
  assumes "load_init f = Some s0" and "load_runs f s0 k s" and "load_finished s" and "0 < sint (concurrency f)"
  shows "load_inv f s" "failed_workers s = 0" "mset (map (\<lambda>c. fst (snd c)) (lt_calls s)) = mset [0..<load_jobs f]"
proof -
  show inv: "load_inv f s" using load_inv_runs [OF assms(2) load_inv_init [OF assms(1)]] .
  have ne: "workers s \<noteq> []" using workers_runs [OF assms(2)] assms(1,4) by (auto simp: load_init_def split: if_splits)
  have all_done: "set (workers s) = {WorkerDone}" using assms(3) ne by (cases "workers s") (auto simp: load_finished_def)
  then show "failed_workers s = 0" by (auto simp: failed_workers_def)
  have quiet: "concat (map busy_job (workers s)) = []" using all_done by auto
  have "jobs s = []" "submitted s = load_jobs f" using inv all_done by (auto simp: load_inv_def)
  with inv quiet show "mset (map (\<lambda>c. fst (snd c)) (lt_calls s)) = mset [0..<load_jobs f]"
    by (simp add: load_inv_def jobs_in_def)
qed

text \<open>A small load test to evaluate on: two requests, one worker.\<close>

definition demo_flags :: load_flags where
  "demo_flags = default_flags\<lparr>auction_id := ''a1'', requests := 2, concurrency := 1\<rparr>"

definition demo_load :: "nat \<Rightarrow> nat list \<Rightarrow> bool \<Rightarrow> worker_pc \<Rightarrow> (nat \<times> nat \<times> bool) list \<Rightarrow> load_sys" where
  "demo_load sub js cl w calls =
     \<lparr>submitted = sub, jobs = js, jobs_closed = cl, workers = [w], okCount = of_nat (length calls), errCount = 0,
      errorByCode = Map.empty, errorByMessage = Map.empty, lt_calls = calls\<rparr>"

lemma demo_load_init: "load_init demo_flags = Some (demo_load 0 [] False WorkerIdle [])"
  by (simp add: load_init_def load_cap_def demo_flags_def default_flags_def demo_load_def)

lemma demo_load_run:
  "load_runs demo_flags (demo_load 0 [] False WorkerIdle []) 8 (demo_load 2 [] True WorkerDone [(0, 0, True), (0, 1, True)])"
proof -
  let ?c0 = "[(0, 0, True)] :: (nat \<times> nat \<times> bool) list" and ?c1 = "[(0, 0, True), (0, 1, True)] :: (nat \<times> nat \<times> bool) list"
  note d = demo_load_def demo_flags_def default_flags_def load_jobs_def load_cap_def
  have r1: "load_step demo_flags (demo_load 0 [] False WorkerIdle []) (demo_load 1 [0] False WorkerIdle [])"
    using lt_submit [of "demo_load 0 [] False WorkerIdle []" demo_flags] by (simp add: d)
  have r2: "load_step demo_flags (demo_load 1 [0] False WorkerIdle []) (demo_load 2 [0, 1] False WorkerIdle [])"
    using lt_submit [of "demo_load 1 [0] False WorkerIdle []" demo_flags] by (simp add: d numeral_2_eq_2)
  have r3: "load_step demo_flags (demo_load 2 [0, 1] False WorkerIdle []) (demo_load 2 [1] False (WorkerBusy 0) [])"
    using lt_take [of 0 "demo_load 2 [0, 1] False WorkerIdle []" 0 "[1]" demo_flags] by (simp add: d)
  have r4: "load_step demo_flags (demo_load 2 [1] False (WorkerBusy 0) []) (demo_load 2 [1] False WorkerIdle ?c0)"
    using lt_ok [of 0 "demo_load 2 [1] False (WorkerBusy 0) []" 0 demo_flags] by (simp add: d)
  have r5: "load_step demo_flags (demo_load 2 [1] False WorkerIdle ?c0) (demo_load 2 [] False (WorkerBusy 1) ?c0)"
    using lt_take [of 0 "demo_load 2 [1] False WorkerIdle ?c0" 1 "[]" demo_flags] by (simp add: d)
  have r6: "load_step demo_flags (demo_load 2 [] False (WorkerBusy 1) ?c0) (demo_load 2 [] False WorkerIdle ?c1)"
    using lt_ok [of 0 "demo_load 2 [] False (WorkerBusy 1) ?c0" 1 demo_flags] by (simp add: d)
  have r7: "load_step demo_flags (demo_load 2 [] False WorkerIdle ?c1) (demo_load 2 [] True WorkerIdle ?c1)"
    using lt_close [of "demo_load 2 [] False WorkerIdle ?c1" demo_flags] by (simp add: d)
  have r8: "load_step demo_flags (demo_load 2 [] True WorkerIdle ?c1) (demo_load 2 [] True WorkerDone ?c1)"
    using lt_leave [of 0 "demo_load 2 [] True WorkerIdle ?c1" demo_flags] by (simp add: d)
  note runs = lt_more [OF lt_more [OF lt_more [OF lt_more [OF lt_more [OF lt_more [OF lt_more [OF lt_more
    [OF lt_refl r1] r2] r3] r4] r5] r6] r7] r8]
  then show ?thesis by (simp add: numeral_eq_Suc)
qed

lemma demo_load_facts:
  "load_finished (demo_load 2 [] True WorkerDone calls)" "0 < sint (concurrency demo_flags)" "load_jobs demo_flags = 2"
  by (simp_all add: load_finished_def demo_load_def demo_flags_def default_flags_def load_jobs_def)

section \<open>Properties\<close>

text \<open>
  (C33) The load test ends: with at least one worker, however the goroutines are interleaved and whatever
  the server answers, a run takes at most five steps per request plus one per worker and one for
  closing the channel, and as long as it is not finished some goroutine can go on.
\<close>

theorem load_test_terminates:
  assumes "0 < sint (concurrency f)" and "load_init f = Some s0" and "load_runs f s0 k s"
  shows "k \<le> 5 * load_jobs f + nat (sint (concurrency f)) + 1 \<and> (load_finished s \<or> (\<exists>t. load_step f s t))"
proof -
  have cap: "0 < load_cap f"
    using load_cap_pos [OF assms(1)] assms(2) by (auto simp: load_init_def split: if_splits)
  have s0: "workers s0 = replicate (nat (sint (concurrency f))) WorkerIdle" "submitted s0 = 0" "jobs s0 = []" "\<not> jobs_closed s0"
    using assms(2) by (auto simp: load_init_def split: if_splits)
  have "steps_left f s0 = 5 * load_jobs f + nat (sint (concurrency f)) + 1"
    by (simp add: steps_left_def s0 sum_list_replicate)
  moreover have "workers s \<noteq> []" using workers_runs [OF assms(3)] s0(1) assms(1) by auto
  ultimately show ?thesis
    using steps_left_runs [OF assms(3)] load_progress [OF load_inv_runs [OF assms(3) load_inv_init [OF assms(2)]] _ cap]
    by auto
qed

theorem load_test_terminates_witness: "(8 :: nat) \<le> 5 * load_jobs demo_flags + nat (sint (concurrency demo_flags)) + 1"
  using load_test_terminates [OF demo_load_facts(2) demo_load_init demo_load_run] by blast

text \<open>
  (C34) When the load test is finished its figures are right: every job from 0 on was sent exactly once,
  the counts of successes and errors are the numbers of calls answered so and add up to the number of
  requests, both breakdowns add up to the error count in whatever order the maps are walked, and no
  message left out of the five printed ones was more frequent than a printed one.
\<close>

theorem load_test_accounts:
  assumes "load_init f = Some s0" and "load_runs f s0 k s" and "load_finished s" and "0 < sint (concurrency f)"
  shows "mset (map (\<lambda>c. fst (snd c)) (lt_calls s)) = mset [0..<load_jobs f] \<and>
    okCount s = of_nat (length (filter (\<lambda>c. snd (snd c)) (lt_calls s))) \<and>
    okCount s + errCount s = of_nat (load_jobs f) \<and>
    (\<forall>kvs. breakdown (errorByCode s) kvs \<longrightarrow> sum_list (map snd kvs) = errCount s) \<and>
    (\<forall>kvs. breakdown (errorByMessage s) kvs \<longrightarrow> sum_list (map snd kvs) = errCount s \<and>
       (\<forall>x \<in> set (shown_messages kvs). \<forall>y \<in> set (drop 5 kvs). sint (snd y) \<le> sint (snd x)))"
proof -
  note inv = finished_quiet(1) [OF assms] and quiet = finished_quiet(2) [OF assms]
  have calls: "mset (map (\<lambda>c. fst (snd c)) (lt_calls s)) = mset [0..<load_jobs f]" by (rule finished_quiet(3) [OF assms])
  then have len: "length (lt_calls s) = load_jobs f" by (metis length_map length_upt diff_zero size_mset)
  have "length (filter (\<lambda>c. snd (snd c)) (lt_calls s)) + length (filter (\<lambda>c. \<not> snd (snd c)) (lt_calls s)) = load_jobs f"
    using sum_length_filter_compl [of "\<lambda>c. snd (snd c)" "lt_calls s"] len by simp
  then have sum: "okCount s + errCount s = of_nat (load_jobs f)"
    using inv by (simp add: load_inv_def flip: of_nat_add)
  have top: "sint (snd y) \<le> sint (snd x)"
    if "breakdown m kvs" "x \<in> set (shown_messages kvs)" "y \<in> set (drop 5 kvs)" for m kvs x y
    using that sorted_wrt_append [of "\<lambda>x y. sint (snd y) \<le> sint (snd x)" "take 5 kvs" "drop 5 kvs"]
    by (auto simp: breakdown_def shown_messages_def min_def split: if_splits)
  from inv quiet calls sum top show ?thesis by (auto simp: load_inv_def breakdown_total)
qed

theorem load_test_accounts_witness:
  "okCount (demo_load 2 [] True WorkerDone [(0, 0, True), (0, 1, True)]) +
   errCount (demo_load 2 [] True WorkerDone [(0, 0, True), (0, 1, True)]) = of_nat (load_jobs demo_flags)"
  using load_test_accounts [OF demo_load_init demo_load_run demo_load_facts(1,2)] by blast

text \<open>
  (C35) A load test leaves the auction where it should: when the bids of a finished load test (at least
  one worker, less than ten trillion requests) reach a new auction, each once and in time but in any
  order and by whichever workers, they are all processed. From two requests on, the final price is 99
  cents plus the number of requests, and the winner is the worker that got the last job. With a single
  request nobody wins, because its bid of 100 does not beat the opening price of 100, and with none the
  price is 100 as well.
\<close>

theorem load_test_final_price:
  fixes f e s dbs bids t
  defines "req \<equiv> \<lparr>NewAuctionID = auction_id f, OpeningPriceCents = 100, EndAt = e\<rparr>"
  assumes "redis_backend R valid hash stream ttl is_hash is_stream before tick C"
    and "ready valid hash stream is_hash is_stream (length bids) s dbs"
    and "a_results (auction_at hash stream s dbs (auction_id f)) = Map.empty"
    and "load_init f = Some s0" and "load_runs f s0 k t" and "load_finished t" and "0 < sint (concurrency f)"
    and "load_jobs f < 10 ^ 13" and "\<bar>sint (Milliseconds (idemTTL s))\<bar> < 2 ^ 53"
    and "mset (map snd bids) = mset (map (load_request f) (lt_calls t))"
    and "\<forall>b \<in> set bids. exact14 (sint (UnixMilli (at_run (fst b)))) \<and>
      sint (UnixMilli (at_run (fst b))) < sint (UnixMilli e)" and "exact14 (sint (UnixMilli e))"
  shows "\<exists>dbs1 s' dbs' rs r. RedisStore_CreateAuction C R s req dbs = Some (dbs1, None) \<and>
    place_all C R bids s dbs1 = Some (s', dbs', rs) \<and> a_rec (auction_at hash stream s' dbs' (auction_id f)) = Some r \<and>
    a_price r = max 100 (99 + int (load_jobs f)) \<and>
    (if load_jobs f \<le> 1 then a_winner r = []
     else \<exists>w ok. (w, load_jobs f - 1, ok) \<in> set (lt_calls t) \<and> a_winner r = ''u-'' @ FormatInt (of_nat w))"
proof -
  let ?N = "load_jobs f" and ?calls = "lt_calls t"
  have calls: "mset (map (\<lambda>c. fst (snd c)) ?calls) = mset [0..<?N]" by (rule finished_quiet(3) [OF assms(5-8)])
  note small = all_calls(1) [OF calls assms(9)]
  have reqs: "set (map snd bids) = load_request f ` set ?calls" using arg_cong [OF assms(11), of set_mset] by simp
  have len: "length bids = ?N" using arg_cong [OF assms(11), of size] arg_cong [OF calls, of size] by simp
  have own: "bids_on (auction_id f) bids = bids" using reqs unfolding bids_on_def by (intro filter_True) force
  have call: "\<exists>c \<in> set ?calls. snd b = load_request f c \<and> bid_amount b = 100 + int (fst (snd c))" if "b \<in> set bids" for b
    by (rule bid_of_call [OF reqs small that])
  have "bid_amount ` set bids = (\<lambda>r. sint (AmountCents r)) ` set (map snd bids)" by (auto simp: bid_amount_def)
  then have amounts: "bid_amount ` set bids = (\<lambda>n. 100 + int n) ` {0..<?N}"
    by (simp only: reqs image_image all_calls(2) [OF calls assms(9)])
  have top: "top_price 100 bids = max 100 (99 + int ?N)"
  proof (cases "?N = 0")
    case False
    then show ?thesis
      unfolding top_price_def amounts by (intro Max_eqI) (auto simp: max_def intro!: image_eqI [of _ _ "?N - 1"])
  qed (simp add: top_price_def amounts)
  have "mset (map BidID (map snd bids)) = mset (map BidID (map (load_request f) ?calls))"
    unfolding mset_map [of BidID] assms(11) ..
  then have dist: "distinct (map (BidID \<circ> snd) bids)"
    using all_calls(3) [OF calls assms(9)] mset_eq_imp_distinct_iff by (metis map_map)
  have plain: "plain_run s bids"
    by (rule load_plain [OF reqs]) (use small assms(10,12) in blast)+
  have fresh: "fresh_bids (sint (UnixMilli (EndAt req))) (a_results (auction_at hash stream s dbs (NewAuctionID req)))
      (bids_on (NewAuctionID req) bids)"
    using dist assms(4,12) by (simp add: fresh_bids_def req_def own)
  have winner: "if ?N \<le> 1 then top_bidder 100 [] bids = []
    else \<exists>w ok. (w, ?N - 1, ok) \<in> set ?calls \<and> top_bidder 100 [] bids = ''u-'' @ FormatInt (of_nat w)"
  proof (cases "?N \<le> 1")
    case True
    then show ?thesis using top by (simp add: top_bidder_def)
  next
    case False
    obtain b where b: "b \<in> set bids" "bid_amount b = top_price 100 bids" "top_bidder 100 [] bids = UserID (snd b)"
      by (rule top_bidder_is [of 100 bids "[]"]) (use top False in simp)
    obtain c where c: "c \<in> set ?calls" "snd b = load_request f c" "bid_amount b = 100 + int (fst (snd c))"
      using call [OF b(1)] by blast
    have "fst (snd c) = ?N - 1" using c(3) b(2) top False by linarith
    then have "(fst c, ?N - 1, snd (snd c)) \<in> set ?calls" using c(1) by (metis prod.collapse)
    then have "\<exists>w ok. (w, ?N - 1, ok) \<in> set ?calls \<and> top_bidder 100 [] bids = ''u-'' @ FormatInt (of_nat w)"
      using b(3) c(2) by (intro exI [of _ "fst c"] exI [of _ "snd (snd c)"]) simp
    with False show ?thesis by simp
  qed
  have "\<exists>dbs1 s' dbs' rs r. RedisStore_CreateAuction C R s req dbs = Some (dbs1, None) \<and>
      place_all C R bids s dbs1 = Some (s', dbs', rs) \<and> a_rec (auction_at hash stream s' dbs' (auction_id f)) = Some r \<and>
      a_price r = max 100 (99 + int ?N) \<and> a_winner r = top_bidder 100 [] bids"
    using redis_backend.highest_bid_run [OF assms(2,3) _ _ _ plain fresh] len assms(9,13) own top
    by (simp add: req_def exact14_def)
  with winner show ?thesis by metis
qed

theorem load_test_final_price_witness:
  "\<exists>dbs1 s' dbs' rs r. RedisStore_CreateAuction direct_driver mem_redis demo_store
      \<lparr>NewAuctionID = ''a1'', OpeningPriceCents = 100, EndAt = 5000 * 10 ^ 6\<rparr> demo_dbs = Some (dbs1, None) \<and>
    place_all direct_driver mem_redis
      [(demo_clock 1000, load_request demo_flags (0, 1, True)), (demo_clock 1001, load_request demo_flags (0, 0, True))]
      demo_store dbs1 = Some (s', dbs', rs) \<and>
    a_rec (auction_at mem_hash mem_stream s' dbs' ''a1'') = Some r \<and> a_price r = 101"
proof -
  let ?calls = "[(0, 0, True), (0, 1, True)]"
  let ?bids = "[(demo_clock 1000, load_request demo_flags (0, 1, True)), (demo_clock 1001, load_request demo_flags (0, 0, True))]"
  have a: "auction_id demo_flags = ''a1''" by (simp add: demo_flags_def)
  have rdy: "mem_ready (length ?bids) demo_store demo_dbs" by (rule demo_ready) simp
  have res: "a_results (auction_at mem_hash mem_stream demo_store demo_dbs (auction_id demo_flags)) = Map.empty"
    by (simp add: auction_at_def abs_auction_def demo_view fun_eq_iff)
  have sent: "mset (map snd ?bids) = mset (map (load_request demo_flags) (lt_calls (demo_load 2 [] True WorkerDone ?calls)))"
    by (simp add: demo_load_def)
  have time: "\<forall>b \<in> set ?bids. exact14 (sint (UnixMilli (at_run (fst b)))) \<and>
      sint (UnixMilli (at_run (fst b))) < sint (UnixMilli (5000 * 10 ^ 6))"
    "exact14 (sint (UnixMilli (5000 * 10 ^ 6)))"
    by (simp_all add: exact14_def UnixMilli_def demo_clock_def)
  have n: "0 < sint (concurrency demo_flags)" "load_jobs demo_flags < 10 ^ 13"
    "\<bar>sint (Milliseconds (idemTTL demo_store))\<bar> < 2 ^ 53"
    using demo_load_facts(2,3) by simp_all
  from load_test_final_price [OF memb.redis_backend_axioms rdy res demo_load_init demo_load_run demo_load_facts(1) n sent time]
  show ?thesis unfolding a demo_load_facts(3) by (simp del: place_all.simps) blast
qed

end
