(* ===== verification/LoadFlags.thy ===== *)
theory LoadFlags
  imports Loadtest
begin

text \<open>
  The command line of \<open>bench/loadtest/main.go\<close>: what package \<open>flag\<close> makes of the arguments, with the
  integers read by \<open>strconv.ParseInt\<close> in base 0, how the program starts or exits, and what it prints at
  the end. The connection and the call that creates the auction are parameters.
\<close>

section \<open>Integers in base 0\<close>

definition lower :: "char \<Rightarrow> char" where
  "lower c = (if 65 \<le> (of_char c :: nat) \<and> (of_char c :: nat) \<le> 90 then char_of ((of_char c :: nat) + 32) else c)"

definition digit_of :: "char \<Rightarrow> nat option" where
  "digit_of c =
     (if is_digit c then Some (digit_val c)
      else let b = (of_char (lower c) :: nat) in if 97 \<le> b \<and> b \<le> 122 then Some (b - 87) else None)"

text \<open>The loop of \<open>ParseUint\<close>, which passes over underscores; the first offence decides about the error.\<close>

fun parse_digits :: "nat \<Rightarrow> nat \<Rightarrow> string \<Rightarrow> num_error + nat" where
  "parse_digits base n [] = Inr n"
| "parse_digits base n (c # cs) =
     (if c = CHR ''_'' then parse_digits base n cs
      else case digit_of c of
             None \<Rightarrow> Inl ErrSyntax
           | Some d \<Rightarrow>
               if base \<le> d then Inl ErrSyntax
               else if max_uint64 < n * base + d then Inl ErrRange
               else parse_digits base (n * base + d) cs)"

text \<open>The base that the prefix of a literal names, and what is left to read; a plain 0 means octal.\<close>

definition base_prefix :: "string \<Rightarrow> nat option" where
  "base_prefix s =
     (case s of a # b # cs \<Rightarrow>
        if a \<noteq> CHR ''0'' then None
        else if lower b = CHR ''b'' then Some 2
        else if lower b = CHR ''o'' then Some 8
        else if lower b = CHR ''x'' then Some 16 else None
      | _ \<Rightarrow> None)"

definition literal :: "string \<Rightarrow> nat \<times> string" where
  "literal s =
     (case base_prefix s of
        Some base \<Rightarrow> if 3 \<le> length s then (base, drop 2 s) else (8, tl s)
      | None \<Rightarrow> if s \<noteq> [] \<and> hd s = CHR ''0'' then (8, tl s) else (10, s))"

text \<open>\<open>underscoreOK\<close>: underscores only between digits, the prefix counting as one.\<close>

fun underscore_loop :: "bool \<Rightarrow> char \<Rightarrow> string \<Rightarrow> bool" where
  "underscore_loop hex saw [] \<longleftrightarrow> saw \<noteq> CHR ''_''"
| "underscore_loop hex saw (c # cs) \<longleftrightarrow>
     (if is_digit c \<or> hex \<and> 97 \<le> (of_char (lower c) :: nat) \<and> (of_char (lower c) :: nat) \<le> 102
      then underscore_loop hex CHR ''0'' cs
      else if c = CHR ''_'' then saw = CHR ''0'' \<and> underscore_loop hex CHR ''_'' cs
      else saw \<noteq> CHR ''_'' \<and> underscore_loop hex CHR ''!'' cs)"

definition underscoreOK :: "string \<Rightarrow> bool" where
  "underscoreOK s =
     (case base_prefix s of
        Some base \<Rightarrow> underscore_loop (base = 16) CHR ''0'' (drop 2 s)
      | None \<Rightarrow> underscore_loop False CHR ''^'' s)"

definition ParseUint0 :: "string \<Rightarrow> num_error + nat" where
  "ParseUint0 s =
     (if s = [] then Inl ErrSyntax
      else case parse_digits (fst (literal s)) 0 (snd (literal s)) of
             Inl e \<Rightarrow> Inl e
           | Inr n \<Rightarrow> if CHR ''_'' \<in> set (snd (literal s)) \<and> \<not> underscoreOK s then Inl ErrSyntax else Inr n)"

definition signed0 :: "bool \<Rightarrow> string \<Rightarrow> num_error + int64" where
  "signed0 neg s =
     (case ParseUint0 s of
        Inl e \<Rightarrow> Inl e
      | Inr n \<Rightarrow>
          if \<not> neg \<and> 2 ^ 63 \<le> n \<or> neg \<and> 2 ^ 63 < n then Inl ErrRange
          else Inr (if neg then - of_nat n else of_nat n))"

definition ParseInt0 :: "string \<Rightarrow> num_error + int64" where
  "ParseInt0 s =
     (case s of
        [] \<Rightarrow> Inl ErrSyntax
      | c # cs \<Rightarrow>
          if c = CHR ''+'' then signed0 False cs
          else if c = CHR ''-'' then signed0 True cs
          else signed0 False s)"

section \<open>Flags\<close>

datatype flag_error =
    BadFlagSyntax string | NotDefined string | NeedsArgument string | InvalidValue string string num_error | ErrHelp

text \<open>\<open>flag.Value.Set\<close> of the five flags; no result for a name that is not defined.\<close>

definition set_int :: "string \<Rightarrow> string \<Rightarrow> (int64 \<Rightarrow> load_flags) \<Rightarrow> flag_error + load_flags" where
  "set_int name v put = (case ParseInt0 v of Inl e \<Rightarrow> Inl (InvalidValue v name e) | Inr n \<Rightarrow> Inr (put n))"

definition set_flag :: "string \<Rightarrow> (string \<Rightarrow> load_flags \<Rightarrow> flag_error + load_flags) option" where
  "set_flag name =
     (if name = ''grpc_addr'' then Some (\<lambda>v f. Inr (f\<lparr>grpc_addr := v\<rparr>))
      else if name = ''auction_id'' then Some (\<lambda>v f. Inr (f\<lparr>auction_id := v\<rparr>))
      else if name = ''requests'' then Some (\<lambda>v f. set_int name v (\<lambda>n. f\<lparr>requests := n\<rparr>))
      else if name = ''concurrency'' then Some (\<lambda>v f. set_int name v (\<lambda>n. f\<lparr>concurrency := n\<rparr>))
      else if name = ''rpc_timeout_ms'' then Some (\<lambda>v f. set_int name v (\<lambda>n. f\<lparr>rpc_timeout_ms := n\<rparr>))
      else None)"

text \<open>\<open>Dashes\<close> is the argument without its one or two dashes; no result where the flags end.\<close>

definition not_a_flag :: "string \<Rightarrow> bool" where
  "not_a_flag s \<longleftrightarrow> length s < 2 \<or> hd s \<noteq> CHR ''-''"

definition flag_text :: "string \<Rightarrow> string" where
  "flag_text s = (if s ! 1 = CHR ''-'' then drop 2 s else drop 1 s)"

text \<open>The name up to the first equals sign after its first character, and the value behind it if there is one.\<close>

definition name_value :: "string \<Rightarrow> string \<times> string option" where
  "name_value s =
     (let rest = dropWhile (\<lambda>c. c \<noteq> CHR ''='') (tl s)
      in (hd s # takeWhile (\<lambda>c. c \<noteq> CHR ''='') (tl s), if rest = [] then None else Some (tl rest)))"

text \<open>\<open>FlagSet.Parse\<close>: the flags and the arguments left over.\<close>

fun parse_flags :: "string list \<Rightarrow> load_flags \<Rightarrow> flag_error + load_flags \<times> string list" where
  "parse_flags [] f = Inr (f, [])"
| "parse_flags (s # args) f =
     (if not_a_flag s then Inr (f, s # args)
      else if s = ''--'' then Inr (f, args)
      else let text = flag_text s in
        if text = [] \<or> hd text = CHR ''-'' \<or> hd text = CHR ''='' then Inl (BadFlagSyntax s)
        else let (name, value) = name_value text in
          case set_flag name of
            None \<Rightarrow> if name = ''help'' \<or> name = ''h'' then Inl ErrHelp else Inl (NotDefined name)
          | Some put \<Rightarrow>
              (case value of
                 Some v \<Rightarrow> (case put v f of Inl e \<Rightarrow> Inl e | Inr g \<Rightarrow> parse_flags args g)
               | None \<Rightarrow>
                   (case args of
                      [] \<Rightarrow> Inl (NeedsArgument name)
                    | v # left \<Rightarrow> (case put v f of Inl e \<Rightarrow> Inl e | Inr g \<Rightarrow> parse_flags left g))))"

section \<open>Start and report\<close>

text \<open>
  How \<open>main\<close> gets as far as the workers: a bad command line ends with status 2, a request for help with
  status 0, a failing \<open>grpc.NewClient\<close> with \<open>log.Fatalf\<close>, and a channel of negative capacity with a panic.
  The warning is what \<open>CreateAuction\<close> answered if it failed, which does not stop the test.
\<close>

datatype load_outcome =
  FlagsBad flag_error int | DialFatal string | MakeChanPanic "string option" | Running "string option" load_flags load_sys

definition flag_status :: "flag_error \<Rightarrow> int" where
  "flag_status e = (if e = ErrHelp then 0 else 2)"

definition load_start ::
  "(string \<Rightarrow> string option) \<Rightarrow> (string \<Rightarrow> pb_CreateAuctionRequest \<Rightarrow> string option) \<Rightarrow> string list \<Rightarrow> load_outcome" where
  "load_start dial create args =
     (case parse_flags args default_flags of
        Inl e \<Rightarrow> FlagsBad e (flag_status e)
      | Inr (f, _) \<Rightarrow>
          (case dial (grpc_addr f) of
             Some err \<Rightarrow> DialFatal err
           | None \<Rightarrow>
               let warning = create (grpc_addr f) (load_auction f)
               in case load_init f of None \<Rightarrow> MakeChanPanic warning | Some s \<Rightarrow> Running warning f s))"

text \<open>The lines logged at the end, for the orders in which the two sorted breakdowns came out; the elapsed time is left out.\<close>

datatype load_line = Finished int64 int64 | CodeLine string int64 | MessageLine string int64

definition load_report :: "load_sys \<Rightarrow> (string \<times> int64) list \<Rightarrow> (string \<times> int64) list \<Rightarrow> load_line list" where
  "load_report s codes messages =
     Finished (okCount s) (errCount s) #
     (if 0 < sint (errCount s)
      then map (\<lambda>(c, n). CodeLine c n) codes @ map (\<lambda>(m, n). MessageLine m n) (shown_messages messages) else [])"

section \<open>Lemmas\<close>

lemma digit_of_digit: "is_digit c \<Longrightarrow> digit_of c = Some (digit_val c)"
  by (simp add: digit_of_def)

lemma digit_not_underscore: "is_digit c \<Longrightarrow> c \<noteq> CHR ''_''"
  by (auto simp: is_digit_def)

lemma parse_digits_decimal:
  assumes "\<forall>c \<in> set s. is_digit c" and "digits_val n s \<le> max_uint64"
  shows "parse_digits 10 n s = Inr (digits_val n s)"
  using assms
proof (induction s arbitrary: n)
  case (Cons c cs)
  have c: "is_digit c" "digit_val c < 10" using Cons.prems(1) digit_val_le [of c] by auto
  have "n * 10 + digit_val c \<le> max_uint64"
    using digits_val_mono [of "n * 10 + digit_val c" cs] Cons.prems(2) by simp
  with c Cons show ?case by (simp add: digit_of_digit digit_not_underscore)
qed simp

lemma digit_char_zero: "digit_char 0 = CHR ''0''"
  by code_simp

lemma show_nat_leading: "0 < n \<Longrightarrow> hd (show_nat n) \<noteq> CHR ''0''"
proof (induction n rule: show_nat.induct)
  case (1 n)
  have "digit_char n \<noteq> CHR ''0''" if "n < 10"
    using digit_val_char [OF that] 1(2) by (auto simp: digit_val_def)
  with 1 show ?case by (cases "n < 10") (simp_all add: show_nat.simps [of n])
qed

lemma ParseUint0_show_nat:
  assumes "n \<le> max_uint64"
  shows "ParseUint0 (show_nat n) = Inr n"
proof (cases "n = 0")
  case True
  then show ?thesis by (simp add: ParseUint0_def show_nat.simps literal_def base_prefix_def digit_char_zero)
next
  case False
  obtain c cs where s: "show_nat n = c # cs" by (cases "show_nat n") auto
  with False show_nat_leading [of n] have c: "c \<noteq> CHR ''0''" by simp
  have lit: "literal (show_nat n) = (10, show_nat n)"
    unfolding s by (cases cs) (simp_all add: literal_def base_prefix_def c)
  have "CHR ''_'' \<notin> set (show_nat n)" using show_nat_digits [of n] digit_not_underscore by blast
  with assms parse_digits_decimal [of "show_nat n" 0] show_nat_digits [of n] show ?thesis
    by (simp add: ParseUint0_def lit)
qed

text \<open>Decimal output is read back in base 0 as well.\<close>

lemma ParseInt0_FormatInt [simp]: "ParseInt0 (FormatInt w) = Inr w"
proof (cases "sint w < 0")
  case True
  with int64_range [of w] have b: "nat (- sint w) \<le> 2 ^ 63" by simp
  have "- of_nat (nat (- sint w)) = w" using True by simp
  with b ParseUint0_show_nat [of "nat (- sint w)"] True show ?thesis
    by (simp add: FormatInt_def show_int_def ParseInt0_def signed0_def max_uint64_def)
next
  case False
  with int64_range [of w] have b: "nat (sint w) < 2 ^ 63" by simp
  obtain c cs where s: "show_nat (nat (sint w)) = c # cs" by (cases "show_nat (nat (sint w))") auto
  then have "is_digit c" using show_nat_Cons by blast
  moreover have "of_nat (nat (sint w)) = w" using False by simp
  moreover have "ParseUint0 (c # cs) = Inr (nat (sint w))"
    using b ParseUint0_show_nat [of "nat (sint w)"] by (simp add: s max_uint64_def)
  ultimately show ?thesis using False b by (simp add: FormatInt_def show_int_def s ParseInt0_def signed0_def)
qed

text \<open>A setting, and the ways to write it: with one dash or two, the value joined by an equals sign or as the next argument.\<close>

datatype setting = SetAddr string | SetAuction string | SetRequests int64 | SetConcurrency int64 | SetTimeout int64

fun setting_name :: "setting \<Rightarrow> string" where
  "setting_name (SetAddr _) = ''grpc_addr''"
| "setting_name (SetAuction _) = ''auction_id''"
| "setting_name (SetRequests _) = ''requests''"
| "setting_name (SetConcurrency _) = ''concurrency''"
| "setting_name (SetTimeout _) = ''rpc_timeout_ms''"

fun setting_text :: "setting \<Rightarrow> string" where
  "setting_text (SetAddr v) = v"
| "setting_text (SetAuction v) = v"
| "setting_text (SetRequests n) = FormatInt n"
| "setting_text (SetConcurrency n) = FormatInt n"
| "setting_text (SetTimeout n) = FormatInt n"

fun apply_setting :: "setting \<Rightarrow> load_flags \<Rightarrow> load_flags" where
  "apply_setting (SetAddr v) f = f\<lparr>grpc_addr := v\<rparr>"
| "apply_setting (SetAuction v) f = f\<lparr>auction_id := v\<rparr>"
| "apply_setting (SetRequests n) f = f\<lparr>requests := n\<rparr>"
| "apply_setting (SetConcurrency n) f = f\<lparr>concurrency := n\<rparr>"
| "apply_setting (SetTimeout n) f = f\<lparr>rpc_timeout_ms := n\<rparr>"

fun spell :: "(bool \<times> bool) \<times> setting \<Rightarrow> string list" where
  "spell ((two, joined), x) =
     (let dashes = (if two then ''--'' else ''-'') in
      if joined then [dashes @ setting_name x @ ''='' @ setting_text x] else [dashes @ setting_name x, setting_text x])"

definition settings_of :: "load_flags \<Rightarrow> setting list" where
  "settings_of g =
     [SetAddr (grpc_addr g), SetAuction (auction_id g), SetRequests (requests g), SetConcurrency (concurrency g),
      SetTimeout (rpc_timeout_ms g)]"

lemma set_flag_setting:
  "\<exists>put. set_flag (setting_name x) = Some put \<and> (\<forall>f. put (setting_text x) f = Inr (apply_setting x f))"
  by (cases x) (simp_all add: set_flag_def set_int_def)

lemma setting_name_plain:
  "\<exists>c cs. setting_name x = c # cs \<and> c \<noteq> CHR ''-'' \<and> c \<noteq> CHR ''='' \<and> (\<forall>d \<in> set cs. d \<noteq> CHR ''='')"
  by (cases x) simp_all

lemma parse_flags_spell: "parse_flags (spell (st, x) @ args) f = parse_flags args (apply_setting x f)"
proof -
  obtain two joined where st: "st = (two, joined)" by force
  obtain put where put: "set_flag (setting_name x) = Some put" "\<And>f. put (setting_text x) f = Inr (apply_setting x f)"
    using set_flag_setting by blast
  obtain c cs where n: "setting_name x = c # cs" "c \<noteq> CHR ''-''" "c \<noteq> CHR ''=''" "\<forall>d \<in> set cs. d \<noteq> CHR ''=''"
    using setting_name_plain by blast
  have nv: "name_value (c # cs) = (c # cs, None)" "name_value (c # cs @ CHR ''='' # v) = (c # cs, Some v)" for v
    using n(4) by (auto simp: name_value_def Let_def takeWhile_append dropWhile_append takeWhile_eq_all_conv [THEN iffD2])
  show ?thesis
    using put n by (cases two; cases joined) (simp_all add: st not_a_flag_def flag_text_def nv)
qed

lemma parse_flags_spelled:
  "parse_flags (concat (map spell xs) @ args) f = parse_flags args (fold (apply_setting \<circ> snd) xs f)"
proof (induction xs arbitrary: f)
  case (Cons y ys)
  obtain st x where "y = (st, x)" by (rule prod.exhaust)
  with Cons parse_flags_spell [of st x "concat (map spell ys) @ args"] show ?case by (simp del: spell.simps parse_flags.simps)
qed simp

lemma settings_of_apply: "fold apply_setting (settings_of g) f = g"
  by (cases g; cases f) (simp add: settings_of_def)

section \<open>Properties\<close>

text \<open>
  (C36) The command line says what the load test does: settings written with one dash or two, with the
  value joined by an equals sign or as an argument of its own, in any order and number, are read back, a
  later one overriding an earlier one, up to a terminating pair of dashes. Written out in full, any flags
  are read back whatever was set before, and the test starts with them after at most a warning from
  \<open>CreateAuction\<close>.
\<close>

theorem flags_roundtrip:
  assumes "dial (grpc_addr g) = None" and "load_init g = Some s0"
  shows "parse_flags (concat (map spell xs)) f = Inr (fold (apply_setting \<circ> snd) xs f, []) \<and>
    parse_flags (concat (map spell xs) @ ''--'' # args) f = Inr (fold (apply_setting \<circ> snd) xs f, args) \<and>
    parse_flags (concat (map (\<lambda>x. spell (style x, x)) (settings_of g))) f = Inr (g, []) \<and>
    load_start dial create (concat (map (\<lambda>x. spell (style x, x)) (settings_of g))) =
      Running (create (grpc_addr g) (load_auction g)) g s0"
proof -
  have all: "parse_flags (concat (map (\<lambda>x. spell (style x, x)) (settings_of g))) f = Inr (g, [])" for f
    using parse_flags_spelled [of "map (\<lambda>x. (style x, x)) (settings_of g)" "[]" f] settings_of_apply [of g f]
    by (simp add: comp_def fold_map del: spell.simps)
  have "load_start dial create (concat (map (\<lambda>x. spell (style x, x)) (settings_of g))) =
      Running (create (grpc_addr g) (load_auction g)) g s0"
    by (simp add: load_start_def all assms del: spell.simps)
  with all parse_flags_spelled [of xs "[]" f] parse_flags_spelled [of xs "''--'' # args" f] show ?thesis
    by (simp add: not_a_flag_def del: spell.simps)
qed

theorem flags_roundtrip_witness:
  "load_start (\<lambda>_. None) (\<lambda>_ _. Some ''exists'')
     [''-grpc_addr=127.0.0.1:8081'', ''-auction_id=a1'', ''-requests=2'', ''-concurrency=1'', ''-rpc_timeout_ms=500''] =
   Running (Some ''exists'') demo_flags (demo_load 0 [] False WorkerIdle [])"
proof -
  have args: "concat (map (\<lambda>x. spell ((False, True), x)) (settings_of demo_flags)) =
    [''-grpc_addr=127.0.0.1:8081'', ''-auction_id=a1'', ''-requests=2'', ''-concurrency=1'', ''-rpc_timeout_ms=500'']"
    by code_simp
  show ?thesis
    using flags_roundtrip [where dial = "\<lambda>_. None" and create = "\<lambda>_ _. Some ''exists''" and style = "\<lambda>_. (False, True)",
        OF _ demo_load_init] unfolding args by blast
qed

end
