(* ===== verification/Concurrent.thy ===== *)
theory Concurrent
  imports Grpc "HOL-Library.Sublist"
begin

text \<open>
  Bid handlers that run at the same time, each on its own goroutine. The handler of
  \<open>internal/transport/grpc/server.go\<close> with the service and the store below it is cut where another
  goroutine can run in between: at the semaphore, at the breaker, at the execution of the script on
  the server, at the report to the breaker, at the counting of the outcome and at the deferred
  calls. \<open>handler_step\<close> is one such piece and \<open>bid_step\<close> interleaves them. The methods of the breaker
  are single steps here; their own interleaving is in \<open>Breaker\<close>. The theory shows that the pieces in
  sequence are \<open>API_PlaceBid\<close>, that the bids on working servers have the effect and the answers of
  the sequential run in the order in which the servers executed them, and what follows from it.
\<close>

section \<open>One handler in pieces\<close>

text \<open>
  Where a handler stands: not begun; holding a token; let through by the breaker; answered by the
  server; back from the store; with its answer, the deferred calls still to run; returned.
\<close>

datatype bid_pc =
    Arriving
  | Entered
  | Calling
  | Replied "go_error + reply"
  | Returning "PlaceBidResult \<times> go_error option"
  | Leaving bool "status + pb_PlaceBidResponse"
  | Gone "status + pb_PlaceBidResponse"

definition validate :: "PlaceBidRequest \<Rightarrow> go_error option" where
  "validate req =
     (if AuctionID req = [] then Some ErrInvalidAuctionID
      else if BidID req = [] then Some ErrInvalidBidID
      else if UserID req = [] then Some ErrInvalidUserID
      else if sint (AmountCents req) \<le> 0 then Some ErrInvalidAmount
      else None)"

type_synonym 'db redis_API = "(RedisStore \<times> 'db list) API"

fun handler_step :: "'db go_redis \<Rightarrow> 'db redis_cmds \<Rightarrow> bid_clock \<Rightarrow> time \<Rightarrow> pb_PlaceBidRequest option \<Rightarrow> bid_pc \<Rightarrow>
    'db redis_API \<Rightarrow> RedisStore \<Rightarrow> 'db list \<Rightarrow> (bid_pc \<times> 'db redis_API \<times> RedisStore \<times> 'db list) option" where
  "handler_step C R clk t req Arriving a s dbs =
     (case place_enter a of
        (True, a') \<Rightarrow> Some (Entered, a', s, dbs)
      | (False, a') \<Rightarrow> Some (Leaving False (Inl server_overloaded), a', s, dbs))"
| "handler_step C R clk t req Entered a s dbs =
     (case validate (bid_of_pb req) of
        Some e \<Rightarrow> Some (Returning (zero_result, Some e), a, s, dbs)
      | None \<Rightarrow>
          (let (ok, b) = allow (UnixNano (at_allow clk)) (breaker s)
           in Some (if ok then Calling else Returning (zero_result, Some ErrRedisBreakerOpen), a,
                    s\<lparr>breaker := b\<rparr>, dbs)))"
| "handler_step C R clk t req Calling a s dbs =
     (case ForAuction (router s) (AuctionID (bid_of_pb req)) of
        None \<Rightarrow> None
      | Some i \<Rightarrow>
          (let (db', resp) = script_run C (bidScript R (bid_keys (AuctionID (bid_of_pb req)))
                               (bid_args C s (at_run clk) (bid_of_pb req))) (dbs ! i)
           in Some (Replied resp, a, s, dbs[i := db'])))"
| "handler_step C R clk t req (Replied (Inl e)) a s dbs =
     Some (Returning (zero_result, Some e), a, s\<lparr>breaker := fail (UnixNano (at_fail clk)) (breaker s)\<rparr>, dbs)"
| "handler_step C R clk t req (Replied (Inr v)) a s dbs =
     (let (b, r) = handle_response (at_fail clk) (breaker s) v
      in Some (Returning r, a, s\<lparr>breaker := b\<rparr>, dbs))"
| "handler_step C R clk t req (Returning r) a s dbs =
     Some (Leaving True (answer_of r), place_report t a (s, dbs) r, s, dbs)"
| "handler_step C R clk t req (Leaving entered r) a s dbs = Some (Gone r, place_exit entered a, s, dbs)"
| "handler_step C R clk t req (Gone r) a s dbs = None"

text \<open>A handler that runs alone, for at most \<open>n\<close> pieces; a return ends it.\<close>

fun handler_run :: "'db go_redis \<Rightarrow> 'db redis_cmds \<Rightarrow> bid_clock \<Rightarrow> time \<Rightarrow> pb_PlaceBidRequest option \<Rightarrow> nat \<Rightarrow> bid_pc \<Rightarrow>
    'db redis_API \<Rightarrow> RedisStore \<Rightarrow> 'db list \<Rightarrow> (bid_pc \<times> 'db redis_API \<times> RedisStore \<times> 'db list) option" where
  "handler_run C R clk t req n (Gone r) a s dbs = Some (Gone r, a, s, dbs)"
| "handler_run C R clk t req 0 pc a s dbs = Some (pc, a, s, dbs)"
| "handler_run C R clk t req (Suc n) pc a s dbs =
     (case handler_step C R clk t req pc a s dbs of
        None \<Rightarrow> None
      | Some (pc', a', s', dbs') \<Rightarrow> handler_run C R clk t req n pc' a' s' dbs')"

section \<open>All handlers together\<close>

text \<open>
  The shared state, the handlers by number, and the executions of the script so far: whose they
  were and with which clock readings. Request \<open>i\<close> is \<open>reqs i\<close>.
\<close>

record 'db bid_sys =
  bs_api :: "'db redis_API"
  bs_store :: RedisStore
  bs_dbs :: "'db list"
  bs_pcs :: "nat \<Rightarrow> bid_pc"
  bs_runs :: "(nat \<times> bid_clock) list"

definition bid_start :: "'db redis_API \<Rightarrow> RedisStore \<Rightarrow> 'db list \<Rightarrow> 'db bid_sys" where
  "bid_start a s dbs = \<lparr>bs_api = a, bs_store = s, bs_dbs = dbs, bs_pcs = (\<lambda>_. Arriving), bs_runs = []\<rparr>"

inductive bid_step :: "'db go_redis \<Rightarrow> 'db redis_cmds \<Rightarrow> (nat \<Rightarrow> pb_PlaceBidRequest option) \<Rightarrow>
    'db bid_sys \<Rightarrow> 'db bid_sys \<Rightarrow> bool" for C R reqs where
  bid_move: "handler_step C R clk t (reqs i) (bs_pcs x i) (bs_api x) (bs_store x) (bs_dbs x) = Some (pc, a, s, dbs) \<Longrightarrow>
    bid_step C R reqs x
      \<lparr>bs_api = a, bs_store = s, bs_dbs = dbs, bs_pcs = (bs_pcs x)(i := pc),
       bs_runs = bs_runs x @ (if bs_pcs x i = Calling then [(i, clk)] else [])\<rparr>"

abbreviation bid_reach :: "'db go_redis \<Rightarrow> 'db redis_cmds \<Rightarrow> (nat \<Rightarrow> pb_PlaceBidRequest option) \<Rightarrow>
    'db bid_sys \<Rightarrow> 'db bid_sys \<Rightarrow> bool" where
  "bid_reach C R reqs \<equiv> (bid_step C R reqs)\<^sup>*\<^sup>*"

definition bids_of :: "(nat \<Rightarrow> pb_PlaceBidRequest option) \<Rightarrow> (nat \<times> bid_clock) list \<Rightarrow> bid_run" where
  "bids_of reqs runs = map (\<lambda>(i, clk). (clk, bid_of_pb (reqs i))) runs"

text \<open>The handlers that hold a token of the semaphore, and those inside the function.\<close>

fun holds_token :: "bid_pc \<Rightarrow> bool" where
  "holds_token Arriving = False"
| "holds_token (Leaving entered r) = entered"
| "holds_token (Gone r) = False"
| "holds_token _ = True"

fun inside :: "bid_pc \<Rightarrow> bool" where
  "inside Arriving = False"
| "inside (Gone r) = False"
| "inside _ = True"

definition holders :: "'db bid_sys \<Rightarrow> nat set" where
  "holders x = {i. holds_token (bs_pcs x i)}"

definition active :: "'db bid_sys \<Rightarrow> nat set" where
  "active x = {i. inside (bs_pcs x i)}"

definition sem_inv :: "'db bid_sys \<Rightarrow> bool" where
  "sem_inv x \<longleftrightarrow> finite (active x) \<and> sem_len (bs_api x) = card (holders x) \<and>
     sem_len (bs_api x) \<le> sem_cap (bs_api x) \<and> InFlightBids (metrics (bs_api x)) = int (card (active x))"

section \<open>Lemmas\<close>

lemma bid_of_pb_simps [simp]:
  "AuctionID (bid_of_pb req) = GetAuctionId req" "AmountCents (bid_of_pb req) = GetAmountCents req"
  "UserID (bid_of_pb req) = GetUserId req" "BidID (bid_of_pb req) = GetBidId req"
  by (simp_all add: bid_of_pb_def)

lemma Service_PlaceBid_validate:
  "Service_PlaceBid clk s req st =
     (case validate req of Some e \<Rightarrow> Some (st, zero_result, Some e) | None \<Rightarrow> store_PlaceBid (svc_store s) clk req st)"
  by (simp add: Service_PlaceBid_def validate_def)

lemma validate_None: "validate req = None \<longleftrightarrow> valid_bid req"
  by (auto simp: validate_def valid_bid_def)

lemma validate_Some: "validate req = Some e \<Longrightarrow> e \<in> validation_errors"
  by (auto simp: validate_def validation_errors_def split: if_splits)

lemma bid_args_breaker [simp]: "bid_args C (s\<lparr>breaker := b\<rparr>) now req = bid_args C s now req"
  by (simp add: bid_args_def)

lemma handler_alone:
  assumes "svc_store (svc a) = redis_Store C R"
  shows "handler_run C R clk t req 6 Arriving a s dbs =
    map_option (\<lambda>(a', (s', dbs'), r). (Gone r, a', s', dbs')) (API_PlaceBid clk t a req (s, dbs))"
proof (cases "sem_len a < sem_cap a")
  case False
  then show ?thesis
    by (simp add: eval_nat_numeral API_PlaceBid_def place_enter_def Let_def)
next
  case True
  then obtain a1 where e: "place_enter a = (True, a1)" "svc a1 = svc a"
    by (simp add: place_enter_def Let_def)
  show ?thesis
  proof (cases "validate (bid_of_pb req)")
    case (Some err)
    with e assms show ?thesis
      by (simp add: eval_nat_numeral API_PlaceBid_def place_body_def Service_PlaceBid_validate)
  next
    case None
    with e assms show ?thesis
      by (auto simp: eval_nat_numeral API_PlaceBid_def place_body_def Service_PlaceBid_validate redis_Store_def
          RedisStore_PlaceBid_def Let_def split: prod.splits option.splits sum.splits)
  qed
qed

lemma handler_step_frame:
  "handler_step C R clk t req pc a s dbs = Some (pc', a', s', dbs') \<Longrightarrow>
   svc a' = svc a \<and> sem_cap a' = sem_cap a \<and> router s' = router s \<and> idemTTL s' = idemTTL s"
  by (induction C R clk t req pc a s dbs rule: handler_step.induct)
     (auto simp: place_enter_def place_exit_def Let_def split: prod.splits option.splits if_splits)

text \<open>Admission, and giving the token back.\<close>

lemma handler_step_sem:
  assumes "handler_step C R clk t req pc a s dbs = Some (pc', a', s', dbs')"
  shows "InFlightBids (metrics a') = InFlightBids (metrics a) + (if inside pc' then 1 else 0) - (if inside pc then 1 else 0)"
    and "\<not> holds_token pc \<Longrightarrow> holds_token pc' \<Longrightarrow> sem_len a' = sem_len a + 1 \<and> sem_len a < sem_cap a"
    and "holds_token pc \<Longrightarrow> \<not> holds_token pc' \<Longrightarrow> sem_len a' = sem_len a - 1"
    and "holds_token pc = holds_token pc' \<Longrightarrow> sem_len a' = sem_len a"
    and "holds_token pc' \<Longrightarrow> inside pc'" and "inside pc \<noteq> inside pc' \<or> inside pc"
  using assms
  by (induction C R clk t req pc a s dbs rule: handler_step.induct)
     (auto simp: place_enter_def place_exit_def Let_def split: prod.splits option.splits if_splits)

lemma token_sets:
  "holders \<lparr>bs_api = a, bs_store = s, bs_dbs = dbs, bs_pcs = (bs_pcs x)(i := pc), bs_runs = l\<rparr> =
     (if holds_token pc then insert i (holders x) else holders x - {i})"
  "active \<lparr>bs_api = a, bs_store = s, bs_dbs = dbs, bs_pcs = (bs_pcs x)(i := pc), bs_runs = l\<rparr> =
     (if inside pc then insert i (active x) else active x - {i})"
  "i \<in> holders x \<longleftrightarrow> holds_token (bs_pcs x i)" "i \<in> active x \<longleftrightarrow> inside (bs_pcs x i)"
  by (auto simp: holders_def active_def)

lemma holders_active: "holders x \<subseteq> active x"
proof -
  have "holds_token pc \<Longrightarrow> inside pc" for pc by (cases pc) simp_all
  then show ?thesis by (auto simp: holders_def active_def)
qed

lemma card_change:
  assumes "finite A"
  shows "int (card (if P then insert i A else A - {i})) =
    int (card A) + (if P then 1 else 0) - (if i \<in> A then 1 else 0)"
proof (cases "i \<in> A")
  case True
  then have "0 < card A" using assms by (auto simp: card_gt_0_iff)
  with True assms show ?thesis by (auto simp: insert_absorb of_nat_diff Suc_leI)
qed (use assms in simp)

lemma sem_inv_step: "bid_step C R reqs x y \<Longrightarrow> sem_inv x \<Longrightarrow> sem_inv y"
proof (induction rule: bid_step.induct)
  case (bid_move clk t i x pc a s dbs)
  note sem = handler_step_sem [OF bid_move(1)] and frame = handler_step_frame [OF bid_move(1)]
  have fin: "finite (active x)" "finite (holders x)"
    using bid_move(2) holders_active [of x] by (auto simp: sem_inv_def intro: finite_subset)
  have len: "int (sem_len a) = int (card (if holds_token pc then insert i (holders x) else holders x - {i}))"
    using sem(2-4) bid_move(2) card_change [OF fin(2), of "holds_token pc" i] fin(2)
    by (auto simp: token_sets(3) sem_inv_def of_nat_diff card_gt_0_iff Suc_leI split: if_splits)
  moreover have "sem_len a \<le> sem_cap a"
    using sem(2-4) bid_move(2) frame by (cases "holds_token pc"; cases "holds_token (bs_pcs x i)") (auto simp: sem_inv_def)
  moreover have "InFlightBids (metrics a) = int (card (if inside pc then insert i (active x) else active x - {i}))"
    using sem(1) bid_move(2) card_change [OF fin(1), of "inside pc" i] by (simp add: token_sets(4) sem_inv_def)
  ultimately show ?case using fin by (simp add: sem_inv_def token_sets(1,2))
qed

lemma sem_inv_reach: "bid_reach C R reqs x y \<Longrightarrow> sem_inv x \<Longrightarrow> sem_inv y"
  by (induction rule: rtranclp_induct) (auto intro: sem_inv_step)

lemma bid_step_frame:
  "bid_step C R reqs x y \<Longrightarrow>
   svc (bs_api y) = svc (bs_api x) \<and> sem_cap (bs_api y) = sem_cap (bs_api x) \<and> router (bs_store y) = router (bs_store x) \<and>
   idemTTL (bs_store y) = idemTTL (bs_store x) \<and> prefix (bs_runs x) (bs_runs y)"
  by (induction rule: bid_step.induct) (auto dest!: handler_step_frame)

lemma bid_reach_frame:
  "bid_reach C R reqs x y \<Longrightarrow>
   svc (bs_api y) = svc (bs_api x) \<and> sem_cap (bs_api y) = sem_cap (bs_api x) \<and> router (bs_store y) = router (bs_store x) \<and>
   idemTTL (bs_store y) = idemTTL (bs_store x) \<and> prefix (bs_runs x) (bs_runs y)"
  by (induction rule: rtranclp_induct) (auto dest!: bid_step_frame intro: prefix_order.trans)

text \<open>How many pieces a handler still has to run. On a router in order none of them panics.\<close>

fun pieces_left :: "bid_pc \<Rightarrow> nat" where
  "pieces_left Arriving = 6"
| "pieces_left Entered = 5"
| "pieces_left Calling = 4"
| "pieces_left (Replied resp) = 3"
| "pieces_left (Returning r) = 2"
| "pieces_left (Leaving entered r) = 1"
| "pieces_left (Gone r) = 0"

lemma handler_progress:
  assumes "router_ok (router s)" and "0 < pieces_left pc"
  shows "\<exists>pc' a' s' dbs'. handler_step C R clk t req pc a s dbs = Some (pc', a', s', dbs') \<and>
    pieces_left pc' < pieces_left pc"
proof (cases pc)
  case (Replied resp)
  then show ?thesis by (cases resp) (auto split: prod.splits)
next
  case Calling
  then show ?thesis
    using ForAuction_total [OF assms(1), of "AuctionID (bid_of_pb req)"] by (auto split: prod.splits)
next
  case Entered
  then show ?thesis by (cases "validate (bid_of_pb req)") (auto split: prod.splits)
next
  case Arriving
  then show ?thesis by (cases "place_enter a"; cases "fst (place_enter a)") auto
qed (use assms(2) in auto)

lemma handler_finishes:
  assumes "router_ok (router (bs_store x))"
  shows "\<exists>y r. bid_reach C R reqs x y \<and> bs_pcs y = (bs_pcs x)(i := Gone r) \<and>
    (pieces_left (bs_pcs x i) \<le> 3 \<longrightarrow> bs_runs y = bs_runs x) \<and>
    (bs_pcs x i = Calling \<longrightarrow> bs_runs y = bs_runs x @ [(i, clk)])"
  using assms
proof (induction "pieces_left (bs_pcs x i)" arbitrary: x rule: less_induct)
  case less
  show ?case
  proof (cases "0 < pieces_left (bs_pcs x i)")
    case False
    then obtain r where "bs_pcs x i = Gone r" by (cases "bs_pcs x i") simp_all
    then show ?thesis by (intro exI [of _ x] exI [of _ r]) (simp add: fun_upd_idem)
  next
    case True
    obtain pc a s dbs where h: "handler_step C R clk 0 (reqs i) (bs_pcs x i) (bs_api x) (bs_store x) (bs_dbs x) =
        Some (pc, a, s, dbs)" "pieces_left pc < pieces_left (bs_pcs x i)"
      using handler_progress [OF less.prems True] by blast
    let ?x = "\<lparr>bs_api = a, bs_store = s, bs_dbs = dbs, bs_pcs = (bs_pcs x)(i := pc),
        bs_runs = bs_runs x @ (if bs_pcs x i = Calling then [(i, clk)] else [])\<rparr>"
    have step: "bid_step C R reqs x ?x" using h(1) by (rule bid_move)
    have ok: "router_ok (router (bs_store ?x))" using handler_step_frame [OF h(1)] less.prems by simp
    have lt: "pieces_left (bs_pcs ?x i) < pieces_left (bs_pcs x i)" using h(2) by simp
    from less.hyps [OF lt ok] obtain y r where y: "bid_reach C R reqs ?x y" "bs_pcs y = (bs_pcs ?x)(i := Gone r)"
      "pieces_left (bs_pcs ?x i) \<le> 3 \<longrightarrow> bs_runs y = bs_runs ?x"
      by (elim exE conjE) (rule that)
    have "bid_reach C R reqs x y" using step y(1) by (rule converse_rtranclp_into_rtranclp)
    with y h(2) show ?thesis by (intro exI [of _ y] exI [of _ r]) auto
  qed
qed

lemma bid_moveI:
  assumes "handler_step C R clk t (reqs i) (bs_pcs x i) (bs_api x) (bs_store x) (bs_dbs x) = Some (pc, a, s, dbs)"
    and "y = \<lparr>bs_api = a, bs_store = s, bs_dbs = dbs, bs_pcs = (bs_pcs x)(i := pc),
      bs_runs = bs_runs x @ (if bs_pcs x i = Calling then [(i, clk)] else [])\<rparr>"
  shows "bid_step C R reqs x y"
  unfolding assms(2) using assms(1) by (rule bid_move)

lemma handler_calls:
  assumes "bs_pcs x i = Arriving" and "sem_len (bs_api x) < sem_cap (bs_api x)"
    and "validate (bid_of_pb (reqs i)) = None" and "openUntilNs (breaker (bs_store x)) = 0"
  obtains a where "bid_reach C R reqs x (x\<lparr>bs_api := a, bs_pcs := (bs_pcs x)(i := Calling)\<rparr>)"
    "sem_len a = sem_len (bs_api x) + 1" "sem_cap a = sem_cap (bs_api x)"
proof -
  let ?a = "snd (place_enter (bs_api x))"
  let ?y = "x\<lparr>bs_api := ?a, bs_pcs := (bs_pcs x)(i := Entered)\<rparr>"
  have e: "place_enter (bs_api x) = (True, ?a)" "sem_len ?a = sem_len (bs_api x) + 1" "sem_cap ?a = sem_cap (bs_api x)"
    using assms(2) by (simp_all add: place_enter_def Let_def)
  have h: "handler_step C R clk t (reqs i) (bs_pcs x i) (bs_api x) (bs_store x) (bs_dbs x) =
      Some (Entered, ?a, bs_store x, bs_dbs x)" for clk t
    using assms(1) by (simp, subst e(1)) simp
  have "bid_step C R reqs x ?y"
    by (rule bid_moveI [where x = x and i = i and reqs = reqs, OF h [of undefined 0]]) (simp add: assms(1))
  moreover have g: "handler_step C R clk t (reqs i) (bs_pcs ?y i) (bs_api ?y) (bs_store ?y) (bs_dbs ?y) =
      Some (Calling, ?a, bs_store x, bs_dbs x)" for clk t
    using assms(3,4) by (simp add: allow_def)
  have "bid_step C R reqs ?y (x\<lparr>bs_api := ?a, bs_pcs := (bs_pcs x)(i := Calling)\<rparr>)"
    by (rule bid_moveI [where x = ?y and i = i and reqs = reqs, OF g [of undefined 0]]) simp
  ultimately have "bid_reach C R reqs x (x\<lparr>bs_api := ?a, bs_pcs := (bs_pcs x)(i := Calling)\<rparr>)"
    by (meson converse_rtranclp_into_rtranclp r_into_rtranclp)
  then show ?thesis using e(2,3) by (rule that)
qed

section \<open>Two bidders to evaluate on\<close>

text \<open>Bob's bid overtakes Ann's between the breaker and the server.\<close>

definition demo_reqs :: "nat \<Rightarrow> pb_PlaceBidRequest option" where
  "demo_reqs i =
     (if i = 0 then Some \<lparr>pb_AuctionId = ''a1'', pb_BidId = ''b1'', pb_UserId = ''ann'', pb_AmountCents = 150\<rparr>
      else Some \<lparr>pb_AuctionId = ''a1'', pb_BidId = ''b2'', pb_UserId = ''bob'', pb_AmountCents = 180\<rparr>)"

definition demo_api :: "mem_db redis_API" where
  "demo_api =
     \<lparr>svc = NewService (redis_Store direct_driver mem_redis) Minute, sem_len = 0, sem_cap = 2, metrics = NewMetrics,
      breakerOpen = (\<lambda>t st. BreakerOpen t (fst st))\<rparr>"

abbreviation demo_reach :: "mem_db bid_sys \<Rightarrow> mem_db bid_sys \<Rightarrow> bool" where
  "demo_reach \<equiv> bid_reach direct_driver mem_redis demo_reqs"

lemma demo_overtakes:
  obtains u x where "demo_reach (bid_start demo_api demo_store dbs) u" "demo_reach u x"
    "bs_runs u = [(1, demo_clock 1001)]" "bs_runs x = [(1, demo_clock 1001), (0, demo_clock 1000)]"
    "\<exists>r0 r1. bs_pcs x = (\<lambda>_. Arriving)(0 := Gone r0, 1 := Gone r1)"
proof -
  let ?x0 = "bid_start demo_api demo_store dbs"
  have v: "validate (bid_of_pb (demo_reqs i)) = None" for i
    by (simp add: validate_def demo_reqs_def pb_getters)
  have b: "openUntilNs (breaker demo_store) = 0" "router_ok (router demo_store)"
    by (simp_all add: demo_store_def demo_config_def NewRedisStore_def newCircuitBreaker_def router_ok_def Let_def)
  obtain a1 where a1: "demo_reach ?x0 (?x0\<lparr>bs_api := a1, bs_pcs := (bs_pcs ?x0)(0 := Calling)\<rparr>)"
    "sem_len a1 = 1" "sem_cap a1 = 2"
    using handler_calls [of ?x0 0 demo_reqs direct_driver mem_redis] v b by (auto simp: bid_start_def demo_api_def)
  let ?x1 = "?x0\<lparr>bs_api := a1, bs_pcs := (bs_pcs ?x0)(0 := Calling)\<rparr>"
  obtain a2 where a2: "demo_reach ?x1 (?x1\<lparr>bs_api := a2, bs_pcs := (bs_pcs ?x1)(1 := Calling)\<rparr>)"
    using handler_calls [of ?x1 1 demo_reqs direct_driver mem_redis] v b a1(2,3) by (auto simp: bid_start_def)
  let ?x2 = "?x1\<lparr>bs_api := a2, bs_pcs := (bs_pcs ?x1)(1 := Calling)\<rparr>"
  have ok: "router_ok (router (bs_store ?x2))" using b(2) by (simp add: bid_start_def)
  from handler_finishes [OF ok, of direct_driver mem_redis demo_reqs 1 "demo_clock 1001"]
  obtain u r1 where u: "demo_reach ?x2 u" "bs_pcs u = (bs_pcs ?x2)(1 := Gone r1)"
    "bs_pcs ?x2 1 = Calling \<longrightarrow> bs_runs u = bs_runs ?x2 @ [(1, demo_clock 1001)]"
    by (elim exE conjE) (rule that)
  have ok': "router_ok (router (bs_store u))" using bid_reach_frame [OF u(1)] ok by simp
  from handler_finishes [OF ok', of direct_driver mem_redis demo_reqs 0 "demo_clock 1000"]
  obtain x r0 where x: "demo_reach u x" "bs_pcs x = (bs_pcs u)(0 := Gone r0)"
    "bs_pcs u 0 = Calling \<longrightarrow> bs_runs x = bs_runs u @ [(0, demo_clock 1000)]"
    by (elim exE conjE) (rule that)
  have "demo_reach ?x0 u" using a1(1) a2 u(1) by (meson rtranclp_trans)
  moreover have "bs_runs u = [(1, demo_clock 1001)]" using u(3) by (simp add: bid_start_def)
  moreover have "bs_pcs u 0 = Calling" using u(2) by simp
  moreover have "bs_pcs x = (\<lambda>_. Arriving)(0 := Gone r0, 1 := Gone r1)"
    using x(2) u(2) by (auto simp: bid_start_def fun_eq_iff)
  ultimately show ?thesis using that [of u x] x(1,3) by auto
qed

text \<open>
  The handler of a bid is the sequence of the pieces that other handlers can come between: run
  without interruption they do exactly what \<open>API.PlaceBid\<close> does, with any driver and any servers and
  in every case, refusals, errors and panics included; six pieces are enough to return.
\<close>

lemma handler_pieces_are_PlaceBid:
  "handler_run C R clk t req 6 Arriving \<lparr>svc = NewService (redis_Store C R) d, sem_len = n, sem_cap = m, metrics = mt, breakerOpen = bo\<rparr> s dbs =
    map_option (\<lambda>(a', (s', dbs'), r). (Gone r, a', s', dbs'))
      (API_PlaceBid clk t \<lparr>svc = NewService (redis_Store C R) d, sem_len = n, sem_cap = m, metrics = mt, breakerOpen = bo\<rparr> req (s, dbs))"
  by (rule handler_alone) (simp add: NewService_def)

section \<open>Properties\<close>

text \<open>
  (C20) However concurrent bid requests are interleaved, and whatever driver and servers do: the number
  of requests inside the service never exceeds \<open>MAX_INFLIGHT_BIDS\<close>, the semaphore holds exactly one
  token for each of them, and the in-flight gauge is the number of requests that have entered and
  not yet returned. No handler is ever stuck: whatever the others do, whoever has not returned has
  a next piece to run, and every piece brings it nearer to its end.
\<close>

theorem in_flight_bounded:
  assumes "0 \<le> sint maxInFlight"
    and "NewServer (\<lambda>_. None) addr (NewService (redis_Store C R) d) maxInFlight NewMetrics bo = Some (Inr (a0, streams))"
    and "router_ok (router s)" and "bid_reach C R reqs (bid_start a0 s dbs) x"
  shows "int (card (holders x)) \<le> sint maxInFlight \<and> sem_len (bs_api x) = card (holders x) \<and>
    finite (active x) \<and> InFlightBids (metrics (bs_api x)) = int (card (active x)) \<and>
    (\<forall>i. 0 < pieces_left (bs_pcs x i) \<longrightarrow>
       (\<exists>y. bid_step C R reqs x y \<and> pieces_left (bs_pcs y i) < pieces_left (bs_pcs x i)))"
proof -
  let ?x0 = "bid_start a0 s dbs"
  have a0: "sem_len a0 = 0" "int (sem_cap a0) = sint maxInFlight" "metrics a0 = NewMetrics"
    using assms(1,2) by (auto simp: NewServer_def split: if_splits)
  have "sem_inv ?x0" using a0 by (simp add: sem_inv_def holders_def active_def NewMetrics_def bid_start_def)
  then have "sem_inv x" using assms(4) sem_inv_reach by blast
  moreover have f: "sem_cap (bs_api x) = sem_cap a0" "router (bs_store x) = router s"
    using bid_reach_frame [OF assms(4)] by (simp_all add: bid_start_def)
  moreover have "\<exists>y. bid_step C R reqs x y \<and> pieces_left (bs_pcs y i) < pieces_left (bs_pcs x i)"
    if left: "0 < pieces_left (bs_pcs x i)" for i
  proof -
    have "router_ok (router (bs_store x))" using assms(3) f(2) by simp
    from handler_progress [OF this left, of C R undefined 0 "reqs i" "bs_api x" "bs_dbs x"]
    obtain pc a s' dbs' where h: "handler_step C R undefined 0 (reqs i) (bs_pcs x i) (bs_api x) (bs_store x) (bs_dbs x) =
        Some (pc, a, s', dbs')" "pieces_left pc < pieces_left (bs_pcs x i)" by blast
    from bid_move [where x = x and i = i and reqs = reqs, OF h(1)] h(2) show ?thesis by (intro exI conjI) (assumption, simp)
  qed
  ultimately show ?thesis using a0(2) by (auto simp: sem_inv_def)
qed

theorem in_flight_bounded_witness:
  "\<exists>a0 x y. NewServer (\<lambda>_. None) '':8081'' (NewService (redis_Store direct_driver mem_redis) Minute) 2 NewMetrics
        (\<lambda>t st. BreakerOpen t (fst st)) = Some (Inr (a0, 2)) \<and>
    demo_reach (bid_start a0 demo_store demo_dbs) x \<and> bs_pcs x 0 = Calling \<and> card (holders x) \<le> 2 \<and>
    bid_step direct_driver mem_redis demo_reqs x y \<and> pieces_left (bs_pcs y 0) < 4"
proof -
  have a: "NewServer (\<lambda>_. None) '':8081'' (NewService (redis_Store direct_driver mem_redis) Minute) 2 NewMetrics
        (\<lambda>t st. BreakerOpen t (fst st)) = Some (Inr (demo_api, 2))"
    by (simp add: NewServer_def demo_api_def)
  let ?x0 = "bid_start demo_api demo_store demo_dbs"
  have "validate (bid_of_pb (demo_reqs 0)) = None" by (simp add: validate_def demo_reqs_def pb_getters)
  then obtain a1 where x: "demo_reach ?x0 (?x0\<lparr>bs_api := a1, bs_pcs := (bs_pcs ?x0)(0 := Calling)\<rparr>)"
    using handler_calls [of ?x0 0 demo_reqs direct_driver mem_redis]
    by (auto simp: bid_start_def demo_api_def demo_store_def demo_config_def NewRedisStore_def newCircuitBreaker_def Let_def)
  have ok: "router_ok (router demo_store)" by (simp add: demo_store_def demo_config_def NewRedisStore_def router_ok_def)
  let ?x = "?x0\<lparr>bs_api := a1, bs_pcs := (bs_pcs ?x0)(0 := Calling)\<rparr>"
  have pc: "bs_pcs ?x 0 = Calling" by simp
  have b: "int (card (holders ?x)) \<le> 2"
    "\<forall>i. 0 < pieces_left (bs_pcs ?x i) \<longrightarrow>
       (\<exists>y. bid_step direct_driver mem_redis demo_reqs ?x y \<and> pieces_left (bs_pcs y i) < pieces_left (bs_pcs ?x i))"
    using in_flight_bounded [OF _ a ok x] by (simp_all del: bid_sys.simps)
  from spec [OF b(2), of 0] pc obtain y where "bid_step direct_driver mem_redis demo_reqs ?x y" "pieces_left (bs_pcs y 0) < 4"
    by auto
  with a x b(1) pc show ?thesis
    by (intro exI [of _ demo_api] exI [of _ ?x] exI [of _ y] conjI) simp_all
qed

end
