(* ===== verification/Linear.thy ===== *)
theory Linear
  imports Concurrent
begin

text \<open>
  Concurrent bids on working servers. The order in which the servers execute the scripts is an order
  of the bids in which the sequential run has the same effect and the same answers; \<open>in_order\<close> is the
  invariant of all interleavings behind it. From it, the highest bid wins under concurrency.
\<close>

section \<open>What a handler carries\<close>

text \<open>An answer given without an execution of the script on working servers.\<close>

definition turned_away :: "pb_PlaceBidRequest option \<Rightarrow> status + pb_PlaceBidResponse \<Rightarrow> bool" where
  "turned_away req r \<longleftrightarrow>
     r = Inl server_overloaded \<or> (\<exists>e. validate (bid_of_pb req) = Some e \<and> r = Inl (status_of e))"

fun pc_before :: "pb_PlaceBidRequest option \<Rightarrow> bid_pc \<Rightarrow> bool" where
  "pc_before req Arriving = True"
| "pc_before req Entered = True"
| "pc_before req Calling \<longleftrightarrow> validate (bid_of_pb req) = None"
| "pc_before req (Replied resp) = False"
| "pc_before req (Returning r) \<longleftrightarrow> (\<exists>e. validate (bid_of_pb req) = Some e \<and> snd r = Some e)"
| "pc_before req (Leaving entered r) = turned_away req r"
| "pc_before req (Gone r) = turned_away req r"

text \<open>After the script has run with the outcome \<open>o\<close>, the handler carries that outcome to its caller.\<close>

fun pc_after :: "PlaceBidResult \<times> go_error option \<Rightarrow> bid_pc \<Rightarrow> bool" where
  "pc_after r (Replied (Inr v)) \<longleftrightarrow> (\<forall>t b. handle_response t b v = (if snd r = None then success b else b, r))"
| "pc_after r (Returning r') \<longleftrightarrow> r' = r"
| "pc_after r (Leaving entered ans) \<longleftrightarrow> ans = answer_of r"
| "pc_after r (Gone ans) \<longleftrightarrow> ans = answer_of r"
| "pc_after r _ = False"

section \<open>The order of the executions\<close>

lemma place_all_append:
  "place_all C R (xs @ ys) s dbs =
     (case place_all C R xs s dbs of
        None \<Rightarrow> None
      | Some (s', dbs', rs) \<Rightarrow> map_option (\<lambda>(s'', dbs'', rs'). (s'', dbs'', rs @ rs')) (place_all C R ys s' dbs'))"
  by (induction xs arbitrary: s dbs) (auto simp: option.map_id prod.case_eq_if split: option.splits prod.splits)

lemma closed_breaker:
  assumes "\<forall>t. \<not> BreakerOpen t s"
  obtains b where "allow (UnixNano now) (breaker s) = (True, b)" "\<forall>t. \<not> BreakerOpen t (s\<lparr>breaker := b\<rparr>)"
proof (cases "allow (UnixNano now) (breaker s)")
  case (Pair ok b)
  have "\<not> isOpen (UnixNano now) (breaker s)" using spec [OF assms, of now] by (simp add: BreakerOpen_def)
  then have "ok" "\<And>u. \<not> isOpen u b"
    using Pair brk.closed_passes [of "UnixNano now" "breaker s"] brk.passing_closes [of "UnixNano now" "breaker s"] by auto
  with Pair that show ?thesis by (simp add: BreakerOpen_def)
qed

lemma step_before:
  assumes "handler_step C R clk t req pc a s dbs = Some (pc', a', s', dbs')"
    and "pc_before req pc" and "pc \<noteq> Calling" and "\<forall>t. \<not> BreakerOpen t s"
  shows "pc_before req pc' \<and> dbs' = dbs \<and> (\<forall>t. \<not> BreakerOpen t s')"
proof -
  obtain b where "allow (UnixNano (at_allow clk)) (breaker s) = (True, b)" "\<forall>t. \<not> BreakerOpen t (s\<lparr>breaker := b\<rparr>)"
    using closed_breaker [OF assms(4)] .
  with assms show ?thesis
    by (cases pc) (auto simp: turned_away_def answer_of_def split: prod.splits bool.splits option.splits if_splits)
qed

lemma step_after:
  assumes "handler_step C R clk t req pc a s dbs = Some (pc', a', s', dbs')"
    and "pc_after r pc" and "\<forall>t. \<not> BreakerOpen t s"
  shows "pc_after r pc' \<and> dbs' = dbs \<and> (\<forall>t. \<not> BreakerOpen t s')"
proof (cases pc)
  case (Replied resp)
  with assms(2) obtain v where v: "resp = Inr v" by (cases resp) auto
  have "\<not> isOpen u (success (breaker s))" for u by (rule brk.success_closes)
  with assms Replied v show ?thesis by (auto simp: BreakerOpen_def split: if_splits)
qed (use assms in auto)

context redis_backend
begin

lemma PlaceBid_of_run:
  assumes "\<forall>t. \<not> BreakerOpen t s" and "ForAuction (router s) (AuctionID req) = Some i"
    and "script_run C (bidScript R (bid_keys (AuctionID req)) (bid_args C s (at_run clk) req)) (dbs ! i) = (db', Inr v)"
    and "\<forall>t b. handle_response t b v = (if snd r = None then success b else b, r)"
  obtains s' where "RedisStore_PlaceBid C R clk s req dbs = Some (s', dbs[i := db'], r)"
    "router s' = router s" "idemTTL s' = idemTTL s"
proof -
  obtain b where "allow (UnixNano (at_allow clk)) (breaker s) = (True, b)"
    using closed_breaker [OF assms(1)] .
  with assms(2-4) that show ?thesis
    by (cases r) (simp add: RedisStore_PlaceBid_def)
qed

definition in_order :: "(nat \<Rightarrow> pb_PlaceBidRequest option) \<Rightarrow> nat \<Rightarrow> RedisStore \<Rightarrow> 'db list \<Rightarrow> 'db bid_sys \<Rightarrow> bool" where
  "in_order reqs n s0 dbs0 x \<longleftrightarrow>
     (\<exists>sq rs. place_all C R (bids_of reqs (bs_runs x)) s0 dbs0 = Some (sq, bs_dbs x, rs) \<and>
        length rs = length (bs_runs x) \<and> store_ready (n - length (bs_runs x)) sq (bs_dbs x) \<and>
        router sq = router s0 \<and> idemTTL sq = idemTTL s0 \<and>
        (\<forall>k < length rs. pc_after (rs ! k) (bs_pcs x (fst (bs_runs x ! k))))) \<and>
     (\<forall>i. i \<notin> fst ` set (bs_runs x) \<longrightarrow> pc_before (reqs i) (bs_pcs x i)) \<and> distinct (map fst (bs_runs x)) \<and>
     (\<forall>t. \<not> BreakerOpen t (bs_store x)) \<and> router (bs_store x) = router s0 \<and> idemTTL (bs_store x) = idemTTL s0"

lemma in_order_start:
  assumes "store_ready n s dbs"
  shows "in_order reqs n s dbs (bid_start a s dbs)"
  using assms by (simp add: in_order_def bid_start_def bids_of_def ready_def)

lemma in_order_call:
  assumes ord: "in_order reqs n s0 dbs0 x" and pc: "bs_pcs x i = Calling"
    and step: "handler_step C R clk t (reqs i) (bs_pcs x i) (bs_api x) (bs_store x) (bs_dbs x) = Some (pc', a, s, dbs)"
    and room: "length (bs_runs x) < n"
    and plain: "plain_bid (sint (Milliseconds (idemTTL s0))) (sint (UnixMilli (at_run clk))) (bid_of_pb (reqs i))"
  shows "in_order reqs n s0 dbs0
    \<lparr>bs_api = a, bs_store = s, bs_dbs = dbs, bs_pcs = (bs_pcs x)(i := pc'), bs_runs = bs_runs x @ [(i, clk)]\<rparr>"
proof -
  let ?req = "bid_of_pb (reqs i)" and ?m = "n - Suc (length (bs_runs x))"
  obtain sq rs where q: "place_all C R (bids_of reqs (bs_runs x)) s0 dbs0 = Some (sq, bs_dbs x, rs)"
    "length rs = length (bs_runs x)" "store_ready (Suc ?m) sq (bs_dbs x)" "router sq = router s0" "idemTTL sq = idemTTL s0"
    "\<forall>k < length rs. pc_after (rs ! k) (bs_pcs x (fst (bs_runs x ! k)))"
    using ord room by (auto simp: in_order_def Suc_diff_Suc)
  have o: "\<forall>j. j \<notin> fst ` set (bs_runs x) \<longrightarrow> pc_before (reqs j) (bs_pcs x j)" "distinct (map fst (bs_runs x))"
    "\<forall>t. \<not> BreakerOpen t (bs_store x)" "router (bs_store x) = router s0" "idemTTL (bs_store x) = idemTTL s0"
    using ord by (simp_all add: in_order_def)
  have new: "i \<notin> fst ` set (bs_runs x)"
  proof
    assume "i \<in> fst ` set (bs_runs x)"
    then obtain k where "k < length rs" "fst (bs_runs x ! k) = i" using q(2) by (auto simp: in_set_conv_nth)
    then show False using q(6) pc by force
  qed
  have plain': "plain_bid (sint (Milliseconds (idemTTL sq))) (sint (UnixMilli (at_run clk))) ?req" using plain q(5) by simp
  have rdy: "store_ok valid is_hash is_stream sq (bs_dbs x)"
    "good_state (Suc ?m) (av_state (store_view hash stream sq (bs_dbs x) (AuctionID ?req)))"
    "\<forall>t. \<not> BreakerOpen t sq"
    using q(3) by (simp_all add: ready_def)
  obtain j db' v r where run: "ForAuction (router sq) (AuctionID ?req) = Some j"
    "script_run C (bidScript R (bid_keys (AuctionID ?req)) (bid_args C sq (at_run clk) ?req)) (bs_dbs x ! j) = (db', Inr v)"
    "\<forall>t b. handle_response t b v = (if snd r = None then success b else b, r)"
    using script_run_refines [OF rdy(1,2) plain'] by blast
  obtain sq' where p: "RedisStore_PlaceBid C R clk sq ?req (bs_dbs x) = Some (sq', (bs_dbs x)[j := db'], r)"
    "router sq' = router sq" "idemTTL sq' = idemTTL sq"
    using PlaceBid_of_run [OF rdy(3) run] .
  have rdy': "store_ready ?m sq' ((bs_dbs x)[j := db'])"
    using ready_step [OF q(3) plain'] p(1) by (metis option.inject prod.inject)
  have "bid_args C (bs_store x) (at_run clk) ?req = bid_args C sq (at_run clk) ?req"
    using q(5) o(5) by (simp add: bid_args_def)
  then have s: "pc' = Replied (Inr v)" "s = bs_store x" "dbs = (bs_dbs x)[j := db']"
    using step pc run(1,2) q(4) o(4) by (simp_all split: prod.splits)
  have "place_all C R (bids_of reqs (bs_runs x @ [(i, clk)])) s0 dbs0 = Some (sq', dbs, rs @ [r])"
    using q(1) p(1) s(3) by (simp add: bids_of_def place_all_append)
  moreover have "pc_after ((rs @ [r]) ! k) (((bs_pcs x)(i := pc')) (fst ((bs_runs x @ [(i, clk)]) ! k)))"
    if "k < length (rs @ [r])" for k
  proof (cases "k < length rs")
    case True
    then have "fst (bs_runs x ! k) \<noteq> i" using new q(2) by (metis image_eqI nth_mem)
    with True q(2,6) show ?thesis by (simp add: nth_append)
  qed (use that q(2) run(3) s(1) in \<open>simp add: nth_append\<close>)
  ultimately show ?thesis
    using q(2,4,5) p(2,3) rdy' o new s(2,3) by (auto simp: in_order_def)
qed

lemma in_order_step:
  assumes "bid_step C R reqs x y" and "in_order reqs n s0 dbs0 x"
    and "length (bs_runs y) \<le> n" and "plain_run s0 (bids_of reqs (bs_runs y))"
  shows "in_order reqs n s0 dbs0 y"
  using assms
proof (induction rule: bid_step.induct)
  case (bid_move clk t i x pc' a s dbs)
  show ?case
  proof (cases "bs_pcs x i = Calling")
    case True
    with bid_move in_order_call [OF bid_move(2) True bid_move(1)] show ?thesis
      by (simp add: plain_run_def bids_of_def)
  next
    case False
    have o: "\<forall>t. \<not> BreakerOpen t (bs_store x)" "\<forall>j. j \<notin> fst ` set (bs_runs x) \<longrightarrow> pc_before (reqs j) (bs_pcs x j)"
      using bid_move(2) by (simp_all add: in_order_def)
    note frame = handler_step_frame [OF bid_move(1)]
    show ?thesis
    proof (cases "i \<in> fst ` set (bs_runs x)")
      case False
      with step_before [OF bid_move(1) _ \<open>bs_pcs x i \<noteq> Calling\<close> o(1)] o(2)
      have st: "pc_before (reqs i) pc'" "dbs = bs_dbs x" "\<forall>t. \<not> BreakerOpen t s" by blast+
      have "((bs_pcs x)(i := pc')) (fst (bs_runs x ! k)) = bs_pcs x (fst (bs_runs x ! k))" if "k < length (bs_runs x)" for k
        using False that by (metis fun_upd_other image_eqI nth_mem)
      with bid_move(2) st frame \<open>bs_pcs x i \<noteq> Calling\<close> show ?thesis by (simp add: in_order_def) metis
    next
      case True
      then obtain l where l: "l < length (bs_runs x)" "fst (bs_runs x ! l) = i" by (auto simp: in_set_conv_nth)
      obtain sq rs where q: "place_all C R (bids_of reqs (bs_runs x)) s0 dbs0 = Some (sq, bs_dbs x, rs)"
        "length rs = length (bs_runs x)" "store_ready (n - length (bs_runs x)) sq (bs_dbs x)" "router sq = router s0" "idemTTL sq = idemTTL s0"
        "\<forall>k < length rs. pc_after (rs ! k) (bs_pcs x (fst (bs_runs x ! k)))" "distinct (map fst (bs_runs x))"
        using bid_move(2) by (auto simp: in_order_def)
      have st: "pc_after (rs ! l) pc'" "dbs = bs_dbs x" "\<forall>t. \<not> BreakerOpen t s"
        using step_after [OF bid_move(1) _ o(1), of "rs ! l"] q(2,6) l by auto
      have "pc_after (rs ! k) (((bs_pcs x)(i := pc')) (fst (bs_runs x ! k)))" if "k < length rs" for k
        using that q(2,6,7) st(1) l by (cases "k = l") (auto simp: distinct_conv_nth)
      with q st frame bid_move(2) \<open>bs_pcs x i \<noteq> Calling\<close> True show ?thesis by (auto simp: in_order_def)
    qed
  qed
qed

lemma in_order_reach:
  assumes "bid_reach C R reqs x y" and "in_order reqs n s0 dbs0 x"
    and "length (bs_runs y) \<le> n" and "plain_run s0 (bids_of reqs (bs_runs y))"
  shows "in_order reqs n s0 dbs0 y"
  using assms
proof (induction rule: rtranclp_induct)
  case (step y z)
  obtain l where l: "bs_runs z = bs_runs y @ l" using bid_step_frame [OF step(2)] by (auto simp: prefix_def)
  then have "in_order reqs n s0 dbs0 y" using step by (intro step(3)) (auto simp: plain_run_def bids_of_def)
  with step show ?case by (blast intro: in_order_step)
qed simp

end

lemma auction_at_router: "router s' = router s \<Longrightarrow> auction_at hash stream s' dbs a = auction_at hash stream s dbs a"
  by (simp add: auction_at_def store_view_def)

lemma place_spec_exists: "a_rec st \<noteq> None \<Longrightarrow> a_rec (fst (place_spec ttl now req eid st)) \<noteq> None"
  by (auto simp: place_spec_def Let_def split: option.splits)

lemma bids_of_Nil [simp]: "bids_of reqs [] = []"
  by (simp add: bids_of_def)

lemma bids_of_Cons [simp]: "bids_of reqs ((i, clk) # l) = (clk, bid_of_pb (reqs i)) # bids_of reqs l"
  by (simp add: bids_of_def)

lemma set_bids_on:
  "b \<in> set (bids_on a (bids_of reqs runs)) \<longleftrightarrow>
     (\<exists>i clk. (i, clk) \<in> set runs \<and> b = (clk, bid_of_pb (reqs i)) \<and> GetAuctionId (reqs i) = a)"
  by (force simp: bids_on_def bids_of_def image_iff)

lemma amounts_on:
  "bid_amount ` set (bids_on a (bids_of reqs runs)) =
     {sint (GetAmountCents (reqs i)) | i. (\<exists>clk. (i, clk) \<in> set runs) \<and> GetAuctionId (reqs i) = a}" (is "?L = ?R")
proof
  show "?L \<subseteq> ?R" by (clarsimp simp: set_bids_on bid_amount_def) blast
  show "?R \<subseteq> ?L"
  proof
    fix v
    assume "v \<in> ?R"
    then obtain i clk where i: "(i, clk) \<in> set runs" "GetAuctionId (reqs i) = a" "v = sint (GetAmountCents (reqs i))"
      by blast
    then have "(clk, bid_of_pb (reqs i)) \<in> set (bids_on a (bids_of reqs runs))" by (auto simp: set_bids_on)
    then show "v \<in> ?L" using i(3) by (intro image_eqI) (auto simp: bid_amount_def)
  qed
qed

lemma first_top_bidder:
  assumes "top_price p (bids_on a (bids_of reqs runs)) \<noteq> p"
  shows "\<exists>pre i clk post. runs = pre @ (i, clk) # post \<and> GetAuctionId (reqs i) = a \<and>
    sint (GetAmountCents (reqs i)) = top_price p (bids_on a (bids_of reqs runs)) \<and>
    top_bidder p w (bids_on a (bids_of reqs runs)) = GetUserId (reqs i) \<and>
    (\<forall>j \<in> fst ` set pre. GetAuctionId (reqs j) = a \<longrightarrow>
       sint (GetAmountCents (reqs j)) < top_price p (bids_on a (bids_of reqs runs)))"
proof -
  let ?bids = "bids_on a (bids_of reqs runs)" and ?t = "top_price p (bids_on a (bids_of reqs runs))"
  let ?Q = "\<lambda>(i, clk :: bid_clock). GetAuctionId (reqs i) = a \<and> sint (GetAmountCents (reqs i)) = ?t"
  have le: "sint (GetAmountCents (reqs i)) \<le> ?t" if "(i, clk) \<in> set runs" "GetAuctionId (reqs i) = a" for i clk
  proof -
    have "sint (GetAmountCents (reqs i)) \<in> bid_amount ` set ?bids" unfolding amounts_on using that by blast
    then show ?thesis unfolding top_price_def by (intro Max_ge) auto
  qed
  have "?t \<in> insert p (bid_amount ` set ?bids)" unfolding top_price_def by (rule Max_in) auto
  then have "filter (\<lambda>b. bid_amount b = ?t) ?bids \<noteq> []" using assms by (auto simp: filter_empty_conv)
  moreover have f: "filter (\<lambda>b. bid_amount b = ?t) ?bids = map (\<lambda>(i, clk). (clk, bid_of_pb (reqs i))) (filter ?Q runs)"
    by (simp add: bids_on_def bids_of_def filter_map comp_def bid_amount_def case_prod_unfold conj_commute)
  ultimately obtain i clk rest where q: "filter ?Q runs = (i, clk) # rest" by (cases "filter ?Q runs") auto
  then obtain pre post where pp: "runs = pre @ (i, clk) # post" "\<forall>x \<in> set pre. \<not> ?Q x" "?Q (i, clk)"
    unfolding filter_eq_Cons_iff by blast
  have "top_bidder p w ?bids = GetUserId (reqs i)" using assms q unfolding top_bidder_def f by simp
  moreover have "\<forall>j \<in> fst ` set pre. GetAuctionId (reqs j) = a \<longrightarrow> sint (GetAmountCents (reqs j)) < ?t"
    using pp(1,2) le by (fastforce simp: less_le)
  ultimately show ?thesis using pp by (intro exI [of _ pre] exI [of _ i] exI [of _ clk] exI [of _ post]) simp
qed

context redis_backend
begin

lemma results_on_existing:
  assumes "store_ready (length bids + n) s dbs" and "plain_run s bids" and "a_rec (auction_in s dbs a) \<noteq> None"
    and "place_all C R bids s dbs = Some (s', dbs', rs)" and "k < length bids" and "AuctionID (snd (bids ! k)) = a"
  shows "snd (rs ! k) = None"
  using assms
proof (induction bids arbitrary: s dbs k rs)
  case (Cons b rest)
  obtain clk req where b: "b = (clk, req)" by (cases b)
  have rdy: "store_ready (Suc (length rest + n)) s dbs"
    "plain_bid (sint (Milliseconds (idemTTL s))) (sint (UnixMilli (at_run clk))) req" "plain_run s rest"
    using Cons.prems(1,2) b by (simp_all add: plain_run_def)
  obtain s1 dbs1 eid where p:
    "RedisStore_PlaceBid C R clk s req dbs = Some (s1, dbs1, snd (place_spec (sint (Milliseconds (idemTTL s)))
       (sint (UnixMilli (at_run clk))) req eid (auction_in s dbs (AuctionID req))))"
    "auction_in s1 dbs1 (AuctionID req) = fst (place_spec (sint (Milliseconds (idemTTL s)))
       (sint (UnixMilli (at_run clk))) req eid (auction_in s dbs (AuctionID req)))"
    "\<forall>b. b \<noteq> AuctionID req \<longrightarrow> auction_in s1 dbs1 b = auction_in s dbs b"
    "store_ready (length rest + n) s1 dbs1" "idemTTL s1 = idemTTL s"
    by (rule ready_step [OF rdy(1,2)])
  obtain rs' where rs: "place_all C R rest s1 dbs1 = Some (s', dbs', rs')" "hd rs = snd (place_spec (sint (Milliseconds (idemTTL s)))
       (sint (UnixMilli (at_run clk))) req eid (auction_in s dbs (AuctionID req)))" "rs = hd rs # rs'"
    using Cons.prems(4) p(1) b by (auto split: option.splits)
  have "a_rec (auction_in s1 dbs1 a) \<noteq> None"
    using Cons.prems(3) p(2,3) place_spec_exists by (cases "AuctionID req = a") auto
  moreover have "plain_run s1 rest" using rdy(3) p(5) by (simp add: plain_run_def)
  ultimately show ?case
    using Cons.IH [OF p(4) _ _ rs(1)] Cons.prems(3,5,6) rs(2,3) b place_spec_fresh_None
    by (cases k; simp; metis list.sel(1) nth_Cons_0 nth_Cons_Suc)
qed simp

lemma in_order_answers:
  assumes "in_order reqs n s0 dbs0 x"
  shows "\<exists>sq rs. place_all C R (bids_of reqs (bs_runs x)) s0 dbs0 = Some (sq, bs_dbs x, rs) \<and>
    length rs = length (bs_runs x) \<and> router sq = router s0 \<and> distinct (map fst (bs_runs x)) \<and>
    (\<forall>t. \<not> BreakerOpen t (bs_store x)) \<and>
    (\<forall>k < length rs. bs_pcs x (fst (bs_runs x ! k)) \<noteq> Arriving) \<and>
    (\<forall>k < length rs. \<forall>r. bs_pcs x (fst (bs_runs x ! k)) = Gone r \<longrightarrow> r = answer_of (rs ! k)) \<and>
    (\<forall>i r. i \<notin> fst ` set (bs_runs x) \<longrightarrow> bs_pcs x i = Gone r \<longrightarrow> turned_away (reqs i) r)"
proof -
  obtain sq rs where q: "place_all C R (bids_of reqs (bs_runs x)) s0 dbs0 = Some (sq, bs_dbs x, rs)"
    "length rs = length (bs_runs x)" "router sq = router s0"
    "\<forall>k < length rs. pc_after (rs ! k) (bs_pcs x (fst (bs_runs x ! k)))"
    using assms by (auto simp: in_order_def)
  have "\<forall>t. \<not> BreakerOpen t (bs_store x)" "distinct (map fst (bs_runs x))"
    "\<forall>i. i \<notin> fst ` set (bs_runs x) \<longrightarrow> pc_before (reqs i) (bs_pcs x i)"
    using assms by (simp_all add: in_order_def)
  moreover have "pc_after r Arriving = False" "pc_after r (Gone ans) \<longleftrightarrow> ans = answer_of r" for r ans by simp_all
  ultimately show ?thesis using q by (intro exI [of _ sq] exI [of _ rs]) (metis pc_before.simps(7))
qed

end

context redis_backend
begin

text \<open>Once no handler is inside, the bids on an existing auction that were executed are those answered with a response.\<close>

lemma executed_iff_answered:
  assumes rdy: "store_ready (length (bids_of reqs (bs_runs x)) + 0) s dbs1" and rec: "a_rec (auction_in s dbs1 a) \<noteq> None"
    and plain: "plain_run s (bids_of reqs (bs_runs x))"
    and run: "place_all C R (bids_of reqs (bs_runs x)) s dbs1 = Some (sq, dbsq, rs)" and len: "length rs = length (bs_runs x)"
    and begun: "\<forall>k < length rs. bs_pcs x (fst (bs_runs x ! k)) \<noteq> Arriving"
    and answers: "\<forall>k < length rs. \<forall>r. bs_pcs x (fst (bs_runs x ! k)) = Gone r \<longrightarrow> r = answer_of (rs ! k)"
    and others: "\<forall>i r. i \<notin> fst ` set (bs_runs x) \<longrightarrow> bs_pcs x i = Gone r \<longrightarrow> turned_away (reqs i) r"
    and quiet: "\<forall>i. \<not> inside (bs_pcs x i)" and own: "GetAuctionId (reqs i) = a"
  shows "(\<exists>clk. (i, clk) \<in> set (bs_runs x)) \<longleftrightarrow> (\<exists>p. bs_pcs x i = Gone (Inr p))"
proof
  assume "\<exists>clk. (i, clk) \<in> set (bs_runs x)"
  then obtain k clk where k: "k < length (bs_runs x)" "bs_runs x ! k = (i, clk)" by (auto simp: in_set_conv_nth)
  then have "bs_pcs x i \<noteq> Arriving" using begun len by force
  then obtain ans where g: "bs_pcs x i = Gone ans" using quiet inside.elims(3) by metis
  have "AuctionID (snd (bids_of reqs (bs_runs x) ! k)) = a" using k own by (simp add: bids_of_def)
  then have "snd (rs ! k) = None" using results_on_existing [OF rdy plain rec run, of k] k(1) by (simp add: bids_of_def)
  then show "\<exists>p. bs_pcs x i = Gone (Inr p)" using answers len g k by (force simp: answer_of_def)
next
  assume "\<exists>p. bs_pcs x i = Gone (Inr p)"
  then have "i \<in> fst ` set (bs_runs x)" using others by (force simp: turned_away_def)
  then show "\<exists>clk. (i, clk) \<in> set (bs_runs x)" by force
qed

lemma concurrent_top:
  fixes creq s dbs x reqs
  defines "a \<equiv> NewAuctionID creq" and "p0 \<equiv> sint (OpeningPriceCents creq)" and "bids \<equiv> bids_of reqs (bs_runs x)"
  assumes rdy: "store_ready (length bids) s dbs" and n: "int (length bids) < 10 ^ 14"
    and exact: "exact14 p0" "exact14 (sint (UnixMilli (EndAt creq)))"
    and create: "RedisStore_CreateAuction C R s creq dbs = Some (dbs1, None)"
    and reach: "bid_reach C R reqs (bid_start api0 s dbs1) x" and quiet: "\<forall>i. \<not> inside (bs_pcs x i)"
    and plain: "plain_run s bids"
    and fresh: "fresh_bids (sint (UnixMilli (EndAt creq))) (a_results (auction_in s dbs a)) (bids_on a bids)"
  shows "\<exists>r. a_rec (auction_in s (bs_dbs x) a) = Some r \<and>
    a_price r = Max (insert p0 {sint (GetAmountCents (reqs i)) | i p. bs_pcs x i = Gone (Inr p) \<and> GetAuctionId (reqs i) = a}) \<and>
    (if a_price r = p0 then a_winner r = []
     else \<exists>pre i clk post p. bs_runs x = pre @ (i, clk) # post \<and> bs_pcs x i = Gone (Inr p) \<and> GetAuctionId (reqs i) = a \<and>
       a_price r = sint (GetAmountCents (reqs i)) \<and> a_winner r = GetUserId (reqs i) \<and>
       (\<forall>j \<in> fst ` set pre. GetAuctionId (reqs j) = a \<longrightarrow> sint (GetAmountCents (reqs j)) < a_price r))"
proof -
  have len: "length bids = length (bs_runs x)" by (simp add: bids_def bids_of_def)
  have rdy1: "store_ready (length bids + 0) s dbs1" "a_rec (auction_in s dbs1 a) \<noteq> None"
    using create_ready [OF rdy n exact(1) [unfolded p0_def] exact(2)] create by (auto simp: a_def create_spec_def)
  have "in_order reqs (length bids) s dbs1 x"
    using in_order_reach [OF reach in_order_start] rdy1(1) len plain by (simp add: bids_def)
  from in_order_answers [OF this, folded bids_def]
  obtain sq rs where q: "place_all C R bids s dbs1 = Some (sq, bs_dbs x, rs)"
    "length rs = length (bs_runs x)" "router sq = router s" "distinct (map fst (bs_runs x))" "\<forall>t. \<not> BreakerOpen t (bs_store x)"
    "\<forall>k < length rs. bs_pcs x (fst (bs_runs x ! k)) \<noteq> Arriving"
    "\<forall>k < length rs. \<forall>r. bs_pcs x (fst (bs_runs x ! k)) = Gone r \<longrightarrow> r = answer_of (rs ! k)"
    "\<forall>i r. i \<notin> fst ` set (bs_runs x) \<longrightarrow> bs_pcs x i = Gone r \<longrightarrow> turned_away (reqs i) r"
    by (elim exE conjE) (rule that)
  obtain r where r: "a_rec (auction_in sq (bs_dbs x) a) = Some r" "a_price r = top_price p0 (bids_on a bids)"
    "a_winner r = top_bidder p0 [] (bids_on a bids)"
    using highest_bid_run [OF rdy n exact(1) [unfolded p0_def] exact(2) plain fresh [unfolded a_def]] create q(1)
    by (auto simp: a_def p0_def)
  note answered = executed_iff_answered [OF rdy1 [unfolded bids_def] plain [unfolded bids_def] q(1) [unfolded bids_def] q(2,6-8) quiet]
  let ?R = "{sint (GetAmountCents (reqs i)) | i p. bs_pcs x i = Gone (Inr p) \<and> GetAuctionId (reqs i) = a}"
  have "bid_amount ` set (bids_on a bids) = ?R"
    unfolding bids_def amounts_on using answered by blast
  then have price: "a_price r = Max (insert p0 ?R)" using r(2) by (simp add: top_price_def)
  have "if a_price r = p0 then a_winner r = []
    else \<exists>pre i clk post p. bs_runs x = pre @ (i, clk) # post \<and> bs_pcs x i = Gone (Inr p) \<and> GetAuctionId (reqs i) = a \<and>
       a_price r = sint (GetAmountCents (reqs i)) \<and> a_winner r = GetUserId (reqs i) \<and>
       (\<forall>j \<in> fst ` set pre. GetAuctionId (reqs j) = a \<longrightarrow> sint (GetAmountCents (reqs j)) < a_price r)"
  proof (cases "a_price r = p0")
    case True
    then show ?thesis using r(2,3) by (simp add: top_bidder_def)
  next
    case False
    then obtain pre i clk post where i: "bs_runs x = pre @ (i, clk) # post" "GetAuctionId (reqs i) = a"
      "sint (GetAmountCents (reqs i)) = a_price r" "a_winner r = GetUserId (reqs i)"
      "\<forall>j \<in> fst ` set pre. GetAuctionId (reqs j) = a \<longrightarrow> sint (GetAmountCents (reqs j)) < a_price r"
      using first_top_bidder [of p0 a reqs "bs_runs x" "[]"] r(2,3) unfolding bids_def by auto
    moreover obtain p where "bs_pcs x i = Gone (Inr p)" using i(1,2) answered [of i] by auto
    ultimately have "\<exists>pre i clk post p. bs_runs x = pre @ (i, clk) # post \<and> bs_pcs x i = Gone (Inr p) \<and>
        GetAuctionId (reqs i) = a \<and> a_price r = sint (GetAmountCents (reqs i)) \<and> a_winner r = GetUserId (reqs i) \<and>
        (\<forall>j \<in> fst ` set pre. GetAuctionId (reqs j) = a \<longrightarrow> sint (GetAmountCents (reqs j)) < a_price r)"
      by (intro exI [of _ pre] exI [of _ i] exI [of _ clk] exI [of _ post] exI [of _ p] conjI) simp_all
    with False show ?thesis by (simp only: if_False)
  qed
  moreover have "a_rec (auction_in s (bs_dbs x) a) = Some r" using r(1) by (simp add: auction_at_router [OF q(3)])
  ultimately show ?thesis using price by (intro exI [of _ r] conjI)
qed

end

lemma demo_plain:
  "bs_runs x = [(1, demo_clock 1001), (0, demo_clock 1000)] \<Longrightarrow>
   plain_run demo_store (bids_of demo_reqs (bs_runs x)) \<and> length (bids_of demo_reqs (bs_runs x)) = 2"
  by (simp add: bids_of_def plain_run_def plain_bid_def demo_reqs_def pb_getters exact14_def)

lemma demo_answers:
  assumes "RedisStore_CreateAuction direct_driver mem_redis demo_store demo_auction demo_dbs = Some (dbs, None)"
    and "demo_reach (bid_start demo_api demo_store dbs) x" and "bs_runs x = [(1, demo_clock 1001), (0, demo_clock 1000)]"
    and "bs_pcs x i = Gone r" and "i < 2"
  shows "\<exists>p. r = Inr p"
proof -
  obtain dbs' where "RedisStore_CreateAuction direct_driver mem_redis demo_store demo_auction demo_dbs = Some (dbs', None)"
    "mem_ready 2 demo_store dbs'" "auction_at mem_hash mem_stream demo_store dbs' ''a1'' =
       \<lparr>a_rec = Some \<lparr>a_open = True, a_end = 5000, a_price = 100, a_winner = [], a_version = 0\<rparr>,
        a_results = Map.empty, a_log = []\<rparr>"
    using create_plain_witness [of 2] by auto
  then have rdy: "mem_ready 2 demo_store dbs" "a_rec (auction_at mem_hash mem_stream demo_store dbs ''a1'') \<noteq> None"
    using assms(1) by auto
  have bids: "plain_run demo_store (bids_of demo_reqs (bs_runs x))" "length (bids_of demo_reqs (bs_runs x)) = 2"
    "length (bs_runs x) \<le> 2"
    using demo_plain [OF assms(3)] assms(3) by simp_all
  from memb.in_order_answers [OF memb.in_order_reach [OF assms(2) memb.in_order_start [OF rdy(1)] bids(3,1)]]
  obtain sq rs where q: "place_all direct_driver mem_redis (bids_of demo_reqs (bs_runs x)) demo_store dbs = Some (sq, bs_dbs x, rs)"
    "length rs = length (bs_runs x)" "router sq = router demo_store" "distinct (map fst (bs_runs x))"
    "\<forall>t. \<not> BreakerOpen t (bs_store x)" "\<forall>k < length rs. bs_pcs x (fst (bs_runs x ! k)) \<noteq> Arriving"
    "\<forall>k < length rs. \<forall>r. bs_pcs x (fst (bs_runs x ! k)) = Gone r \<longrightarrow> r = answer_of (rs ! k)"
    by (elim exE conjE) (rule that, assumption+)
  have k: "1 - i < length rs" "fst (bs_runs x ! (1 - i)) = i" using q(2) assms(3,5) by (auto simp: less_2_cases_iff)
  have "AuctionID (snd (bids_of demo_reqs (bs_runs x) ! (1 - i))) = ''a1''"
    using assms(3,5) by (auto simp: less_2_cases_iff bids_of_def demo_reqs_def pb_getters)
  moreover have "mem_ready (length (bids_of demo_reqs (bs_runs x)) + 0) demo_store dbs" using rdy(1) bids(2) by simp
  moreover have "1 - i < length (bids_of demo_reqs (bs_runs x))" using bids(2) by simp
  ultimately have "snd (rs ! (1 - i)) = None"
    using memb.results_on_existing [OF _ bids(1) rdy(2) q(1)] by blast
  moreover have "r = answer_of (rs ! (1 - i))" using spec [OF q(7), of "1 - i"] k assms(4) by simp
  ultimately show ?thesis by (simp add: answer_of_def)
qed

section \<open>Properties\<close>

text \<open>
  (C3) Concurrent bids on working servers are linearizable: in every state \<open>x\<close> that any interleaving
  of any number of handlers can reach, the databases are those of the sequential run of the bids in
  the order in which the servers executed them, each handler at most once; every request that was
  answered got the answer of its place in that run, unless it was turned away for being invalid or
  for want of a token; the order only grows, so that a request answered before another one arrives
  comes first; and the breaker stays closed.
\<close>

theorem concurrent_bids_linearizable:
  assumes "redis_backend R valid hash stream ttl is_hash is_stream before tick C"
    and "ready valid hash stream is_hash is_stream n s dbs"
    and "bid_reach C R reqs (bid_start a s dbs) u" and "bid_reach C R reqs u x"
    and "length (bs_runs x) \<le> n" and "plain_run s (bids_of reqs (bs_runs x))"
  shows "\<exists>sq rs. place_all C R (bids_of reqs (bs_runs x)) s dbs = Some (sq, bs_dbs x, rs) \<and>
    length rs = length (bs_runs x) \<and> distinct (map fst (bs_runs x)) \<and>
    (\<forall>i r. bs_pcs x i = Gone r \<longrightarrow>
       (if i \<in> fst ` set (bs_runs x) then \<exists>k < length rs. fst (bs_runs x ! k) = i \<and> r = answer_of (rs ! k)
        else turned_away (reqs i) r)) \<and>
    prefix (bs_runs u) (bs_runs x) \<and> (\<forall>i. bs_pcs u i = Arriving \<longrightarrow> i \<notin> fst ` set (bs_runs u)) \<and>
    (\<forall>t. \<not> BreakerOpen t (bs_store x))"
proof -
  note start = redis_backend.in_order_start [OF assms(1,2)]
  have reach: "bid_reach C R reqs (bid_start a s dbs) x" using assms(3,4) by (rule rtranclp_trans)
  have p: "prefix (bs_runs u) (bs_runs x)" using bid_reach_frame [OF assms(4)] by simp
  then have bounds: "length (bs_runs u) \<le> n" "plain_run s (bids_of reqs (bs_runs u))"
    using assms(5,6) prefix_length_le [OF p] by (auto simp: plain_run_def bids_of_def dest!: set_mono_prefix)
  obtain rsu :: "(PlaceBidResult \<times> go_error option) list" where u: "length rsu = length (bs_runs u)"
    "\<forall>k < length rsu. bs_pcs u (fst (bs_runs u ! k)) \<noteq> Arriving"
    using redis_backend.in_order_answers [OF assms(1) redis_backend.in_order_reach [OF assms(1,3) start bounds]]
    by (elim exE conjE) (rule that, assumption+)
  have before: "i \<notin> fst ` set (bs_runs u)" if "bs_pcs u i = Arriving" for i
  proof
    assume "i \<in> fst ` set (bs_runs u)"
    then obtain k where "k < length (bs_runs u)" "fst (bs_runs u ! k) = i" by (metis imageE in_set_conv_nth)
    with u that show False by auto
  qed
  from redis_backend.in_order_answers [OF assms(1) redis_backend.in_order_reach [OF assms(1) reach start assms(5,6)]]
  obtain sq rs where q: "place_all C R (bids_of reqs (bs_runs x)) s dbs = Some (sq, bs_dbs x, rs)"
    "length rs = length (bs_runs x)" "router sq = router s" "distinct (map fst (bs_runs x))" "\<forall>t. \<not> BreakerOpen t (bs_store x)"
    "\<forall>k < length rs. bs_pcs x (fst (bs_runs x ! k)) \<noteq> Arriving"
    "\<forall>k < length rs. \<forall>r. bs_pcs x (fst (bs_runs x ! k)) = Gone r \<longrightarrow> r = answer_of (rs ! k)"
    "\<forall>i r. i \<notin> fst ` set (bs_runs x) \<longrightarrow> bs_pcs x i = Gone r \<longrightarrow> turned_away (reqs i) r"
    by (elim exE conjE) (rule that)
  have "\<exists>k < length rs. fst (bs_runs x ! k) = i \<and> r = answer_of (rs ! k)"
    if g: "bs_pcs x i = Gone r" and i: "i \<in> fst ` set (bs_runs x)" for i r
  proof -
    obtain k where "k < length (bs_runs x)" "fst (bs_runs x ! k) = i" using i by (metis imageE in_set_conv_nth)
    with q(2,7) g show ?thesis by auto
  qed
  with p before q show ?thesis by (intro exI [of _ sq] exI [of _ rs]) simp
qed

theorem concurrent_bids_linearizable_witness:
  "\<exists>dbs u x sq r0 r1.
    RedisStore_CreateAuction direct_driver mem_redis demo_store demo_auction demo_dbs = Some (dbs, None) \<and>
    demo_reach (bid_start demo_api demo_store dbs) u \<and> demo_reach u x \<and>
    place_all direct_driver mem_redis
      [(demo_clock 1001, bid_of_pb (demo_reqs 1)), (demo_clock 1000, bid_of_pb (demo_reqs 0))] demo_store dbs =
      Some (sq, bs_dbs x, [r1, r0]) \<and>
    bs_pcs x 0 = Gone (answer_of r0) \<and> bs_pcs x 1 = Gone (answer_of r1)"
proof -
  obtain dbs where c: "RedisStore_CreateAuction direct_driver mem_redis demo_store demo_auction demo_dbs = Some (dbs, None)"
    "mem_ready 2 demo_store dbs"
    using create_plain_witness [of 2] by auto
  obtain u x where ux: "demo_reach (bid_start demo_api demo_store dbs) u" "demo_reach u x"
    "bs_runs x = [(1, demo_clock 1001), (0, demo_clock 1000)]"
    and pcs: "\<exists>r0 r1. bs_pcs x = (\<lambda>_. Arriving)(0 := Gone r0, 1 := Gone r1)"
    by (rule demo_overtakes)
  have l: "length (bs_runs x) \<le> 2" "plain_run demo_store (bids_of demo_reqs (bs_runs x))"
    using ux(3) by (simp_all add: bids_of_def plain_run_def plain_bid_def demo_reqs_def pb_getters exact14_def)
  from concurrent_bids_linearizable [OF memb.redis_backend_axioms c(2) ux(1,2) l]
  obtain sq rs where q: "place_all direct_driver mem_redis (bids_of demo_reqs (bs_runs x)) demo_store dbs = Some (sq, bs_dbs x, rs)"
    "length rs = length (bs_runs x)" "distinct (map fst (bs_runs x))"
    "\<forall>i r. bs_pcs x i = Gone r \<longrightarrow>
       (if i \<in> fst ` set (bs_runs x) then \<exists>k < length rs. fst (bs_runs x ! k) = i \<and> r = answer_of (rs ! k)
        else turned_away (demo_reqs i) r)"
    by (elim exE conjE) (rule that)
  then obtain r1 r0 where rs: "rs = [r1, r0]" using ux(3) by (auto simp: length_Suc_conv)
  obtain g0 g1 where g: "bs_pcs x 0 = Gone g0" "bs_pcs x 1 = Gone g1" using pcs by auto
  have "g0 = answer_of r0" "g1 = answer_of r1"
    using spec [OF spec [OF q(4), of 0], of g0] spec [OF spec [OF q(4), of 1], of g1] g ux(3) rs
    by (auto simp: less_Suc_eq)
  moreover have "place_all direct_driver mem_redis
      [(demo_clock 1001, bid_of_pb (demo_reqs 1)), (demo_clock 1000, bid_of_pb (demo_reqs 0))] demo_store dbs =
      Some (sq, bs_dbs x, [r1, r0])"
    using q(1) rs ux(3) by (simp add: bids_of_def del: place_all.simps)
  ultimately show ?thesis using c(1) ux(1,2) g
    by (intro exI [of _ dbs] exI [of _ u] exI [of _ x] exI [of _ sq] exI [of _ r0] exI [of _ r1] conjI) simp_all
qed

text \<open>
  (C6) The highest bid wins under concurrency: when an auction has been created and then any number
  of handlers place bids on it and on others at the same time, each under its own fresh bid
  identifier and before the end, and all of them have returned, then its price is the maximum of the
  opening price and of the amounts of all the bids on it that got a response. If no bid beats the
  opening price nobody has won; otherwise the winner is the first to have bid this price, in the order
  in which the Redis servers executed the bids: a bidder who got a response and before whom every
  executed bid on the auction was lower.
\<close>

theorem concurrent_highest_bid_wins:
  fixes creq s dbs x reqs
  defines "a \<equiv> NewAuctionID creq" and "p0 \<equiv> sint (OpeningPriceCents creq)" and "bids \<equiv> bids_of reqs (bs_runs x)"
  assumes "redis_backend R valid hash stream ttl is_hash is_stream before tick C"
    and "ready valid hash stream is_hash is_stream (length bids) s dbs" and "int (length bids) < 10 ^ 14"
    and "exact14 p0" and "exact14 (sint (UnixMilli (EndAt creq)))"
    and "RedisStore_CreateAuction C R s creq dbs = Some (dbs1, None)"
    and "bid_reach C R reqs (bid_start api0 s dbs1) x" and "\<forall>i. \<not> inside (bs_pcs x i)"
    and "plain_run s bids"
    and "fresh_bids (sint (UnixMilli (EndAt creq))) (a_results (auction_at hash stream s dbs a)) (bids_on a bids)"
  shows "\<exists>r. a_rec (auction_at hash stream s (bs_dbs x) a) = Some r \<and>
    a_price r = Max (insert p0 {sint (GetAmountCents (reqs i)) | i p. bs_pcs x i = Gone (Inr p) \<and> GetAuctionId (reqs i) = a}) \<and>
    (if a_price r = p0 then a_winner r = []
     else \<exists>pre i clk post p. bs_runs x = pre @ (i, clk) # post \<and> bs_pcs x i = Gone (Inr p) \<and> GetAuctionId (reqs i) = a \<and>
       a_price r = sint (GetAmountCents (reqs i)) \<and> a_winner r = GetUserId (reqs i) \<and>
       (\<forall>j \<in> fst ` set pre. GetAuctionId (reqs j) = a \<longrightarrow> sint (GetAmountCents (reqs j)) < a_price r))"
  using redis_backend.concurrent_top [OF assms(4) assms(5,6) [unfolded bids_def] assms(7) [unfolded p0_def] assms(8-11)
      assms(12) [unfolded bids_def] assms(13) [unfolded bids_def a_def]]
  unfolding a_def p0_def bids_def .

theorem concurrent_highest_bid_wins_witness:
  "\<exists>dbs x r.
    RedisStore_CreateAuction direct_driver mem_redis demo_store demo_auction demo_dbs = Some (dbs, None) \<and>
    demo_reach (bid_start demo_api demo_store dbs) x \<and>
    bs_runs x = [(1, demo_clock 1001), (0, demo_clock 1000)] \<and>
    a_rec (auction_at mem_hash mem_stream demo_store (bs_dbs x) ''a1'') = Some r \<and> a_price r = 180 \<and> a_winner r = ''bob''"
proof -
  obtain dbs where c: "RedisStore_CreateAuction direct_driver mem_redis demo_store demo_auction demo_dbs = Some (dbs, None)"
    using create_plain_witness [of 2] by auto
  obtain u x where ux: "demo_reach (bid_start demo_api demo_store dbs) u" "demo_reach u x"
    and runs: "bs_runs x = [(1, demo_clock 1001), (0, demo_clock 1000)]"
    and pcs: "\<exists>r0 r1. bs_pcs x = (\<lambda>_. Arriving)(0 := Gone r0, 1 := Gone r1)"
    by (rule demo_overtakes)
  have reach: "demo_reach (bid_start demo_api demo_store dbs) x" using ux by (rule rtranclp_trans)
  obtain p0 p1 where p: "bs_pcs x = (\<lambda>_. Arriving)(0 := Gone (Inr p0), 1 := Gone (Inr p1))"
    using pcs demo_answers [OF c reach runs, of 0] demo_answers [OF c reach runs, of 1] by auto
  have e: "NewAuctionID demo_auction = ''a1''" "sint (OpeningPriceCents demo_auction) = 100"
    "sint (UnixMilli (EndAt demo_auction)) = 5000"
    by (simp_all add: demo_auction_def UnixMilli_def)
  have res: "a_results (auction_at mem_hash mem_stream demo_store demo_dbs ''a1'') = Map.empty"
    by (simp add: auction_at_def abs_auction_def demo_view fun_eq_iff)
  let ?bids = "bids_of demo_reqs (bs_runs x)"
  have fr: "fresh_bids 5000 Map.empty (bids_on ''a1'' ?bids)"
    by (simp add: runs fresh_bids_def bids_of_def bids_on_def demo_reqs_def pb_getters)
  have ready: "mem_ready (length ?bids) demo_store demo_dbs" "int (length ?bids) < 10 ^ 14"
    using demo_plain [OF runs] demo_ready [of 2] by simp_all
  have quiet: "\<forall>i. \<not> inside (bs_pcs x i)" by (simp add: p)
  have set: "{sint (GetAmountCents (demo_reqs i)) | i q. bs_pcs x i = Gone (Inr q) \<and> GetAuctionId (demo_reqs i) = ''a1''} = {150, 180}"
    by (auto simp: p demo_reqs_def pb_getters split: if_splits)
  obtain r where r: "a_rec (auction_at mem_hash mem_stream demo_store (bs_dbs x) ''a1'') = Some r"
    "a_price r = Max (insert 100 {150, 180})"
    "if a_price r = 100 then a_winner r = []
     else \<exists>pre i clk post q. bs_runs x = pre @ (i, clk) # post \<and> bs_pcs x i = Gone (Inr q) \<and> GetAuctionId (demo_reqs i) = ''a1'' \<and>
       a_price r = sint (GetAmountCents (demo_reqs i)) \<and> a_winner r = GetUserId (demo_reqs i) \<and>
       (\<forall>j \<in> fst ` set pre. GetAuctionId (demo_reqs j) = ''a1'' \<longrightarrow> sint (GetAmountCents (demo_reqs j)) < a_price r)"
    using concurrent_highest_bid_wins [OF memb.redis_backend_axioms ready _ _ c reach quiet conjunct1 [OF demo_plain [OF runs]],
        unfolded e res set] fr
    by (auto simp: exact14_def)
  then have "a_price r = 180" by simp
  with r(3) have "a_winner r = ''bob''" by (auto simp: demo_reqs_def pb_getters split: if_splits)
  with c reach runs r(1) \<open>a_price r = 180\<close> show ?thesis by blast
qed

end
