(* ===== verification/KeyTypes.thy ===== *)
theory KeyTypes
  imports AuctionProps
begin

text \<open>
  What holds of the store for every request, however large its numbers and whatever bytes its strings:
  each Redis key is only ever used with one type, every number the script has written it can read
  again, and so no operation on working servers fails but for a bid on a missing auction.
\<close>

section \<open>Every number written can be read\<close>

lemma read_exponent_plus:
  "ds \<noteq> [] \<Longrightarrow> \<forall>c \<in> set ds. is_digit c \<Longrightarrow> read_exponent (''e+'' @ ds) = Some (digits_val 0 ds)"
  by (simp add: read_exponent_def list_all_iff)

lemma strip_zeros_digits:
  assumes "\<forall>c \<in> set s. is_digit c"
  shows "\<forall>c \<in> set (strip_zeros s). is_digit c" and "length (strip_zeros s) \<le> length s"
proof -
  show "\<forall>c \<in> set (strip_zeros s). is_digit c"
    using assms set_dropWhileD [of _ "\<lambda>c. c = CHR ''0''" "rev s"] by (auto simp: strip_zeros_def)
  show "length (strip_zeros s) \<le> length s"
    using length_dropWhile_le [of "\<lambda>c. c = CHR ''0''" "rev s"] by (simp add: strip_zeros_def)
qed

lemma digits_append_other:
  assumes "\<forall>c \<in> set s. is_digit c" and "r = c # cs" and "\<not> is_digit c"
  shows "takeWhile is_digit (s @ r) = s" and "dropWhile is_digit (s @ r) = r"
  using assms by simp_all

lemma read_sci:
  assumes "length (show_nat m) \<le> Suc e"
  shows "\<exists>n. read_decimal (sci_notation m e) = Some n"
proof -
  obtain d ds where m: "show_nat m = d # ds" by (cases "show_nat m") simp_all
  have dig: "is_digit d" "\<forall>c \<in> set ds. is_digit c" using show_nat_Cons [OF m] by auto
  let ?f = "strip_zeros ds" and ?x = "''e+'' @ (if e < 10 then ''0'' else []) @ show_nat e"
  note f = strip_zeros_digits [OF dig(2)]
  have "digits_val 0 ((if e < 10 then ''0'' else []) @ show_nat e) = e"
    by (simp add: digit_val_def)
  moreover have "\<forall>c \<in> set ((if e < 10 then ''0'' else []) @ show_nat e). is_digit c"
    using show_nat_digits [of e] by (auto simp: is_digit_def)
  ultimately have x: "read_exponent ?x = Some e" using read_exponent_plus by (metis append_is_Nil_conv show_nat_nonempty)
  have e: "\<not> is_digit CHR ''e''" "\<not> is_digit CHR ''.''" by (simp_all add: is_digit_def)
  have sci: "sci_notation m e = d # (if ?f = [] then [] else CHR ''.'' # ?f) @ ?x"
    by (simp add: sci_notation_def m Let_def)
  have le: "length ?f \<le> e" using f(2) assms m by simp
  show ?thesis
  proof (cases "?f = []")
    case True
    then show ?thesis using x e dig(1) by (simp add: sci read_decimal_def)
  next
    case False
    have "takeWhile is_digit (?f @ ?x) = ?f" "dropWhile is_digit (?f @ ?x) = ?x"
      using digits_append_other [OF f(1), of ?x "CHR ''e''"] e by simp_all
    with False x e dig(1) le show ?thesis by (simp add: sci read_decimal_def Let_def)
  qed
qed

lemma show_nat_length_mono: "m \<le> n \<Longrightarrow> length (show_nat m) \<le> length (show_nat n)"
proof (induction n arbitrary: m rule: show_nat.induct)
  case (1 n)
  show ?case
  proof (cases "n < 10")
    case True
    with 1(2) show ?thesis by (simp add: show_nat.simps [of m] show_nat.simps [of n])
  next
    case False
    then have "length (show_nat (m div 10)) \<le> length (show_nat (n div 10))"
      using 1 by (intro "1.IH") (auto intro: div_le_mono)
    with False show ?thesis by (simp add: show_nat.simps [of m] show_nat.simps [of n])
  qed
qed

lemma round_even_le:
  assumes "2 \<le> n" and "0 < d"
  shows "round_even n d \<le> n"
proof (cases "d = 1")
  case False
  then have "n div d \<le> n div 2" using assms(2) by (intro div_le_mono2) auto
  then have "Suc (n div d) \<le> n" using assms(1) by linarith
  then show ?thesis by (simp add: round_even_def Let_def)
qed simp

lemma fmt_g14_readable: "\<exists>k. read_decimal (fmt_g14 n) = Some k"
proof (cases "n < 10 ^ 14")
  case False
  let ?k = "length (show_nat n)" and ?q = "round_even n (10 ^ (length (show_nat n) - 14))"
  have "?q \<le> n" "10 ^ 13 \<le> n" using False by (simp_all add: round_even_le)
  then have "length (show_nat ?q) \<le> ?k" "length (show_nat (10 ^ 13)) \<le> ?k" by (simp_all add: show_nat_length_mono)
  then show ?thesis using False read_sci [of "10 ^ 13" ?k] read_sci [of ?q "?k - 1"] by (simp add: fmt_g14_def Let_def)
qed (simp add: fmt_g14_def)

lemma fmt_g14_hd: "fmt_g14 n \<noteq> [] \<and> is_digit (hd (fmt_g14 n))"
  using show_nat_hd_digit by (auto simp: fmt_g14_def sci_notation_def Let_def)

lemma tostring_readable: "lua_tonumber (lua_tostring v) \<noteq> None"
proof (cases "v < 0")
  case True
  then show ?thesis using fmt_g14_readable [of "nat (- v)"] by (auto simp: lua_tostring_def lua_tonumber_def)
next
  case False
  then show ?thesis using fmt_g14_readable [of "nat v"] fmt_g14_hd [of "nat v"]
    by (auto simp: lua_tostring_def lua_tonumber_unsigned)
qed

section \<open>Any requests\<close>

datatype store_op = CreateOp CreateAuctionRequest | BidOp bid_clock PlaceBidRequest

text \<open>A sequence of operations, with the errors they return.\<close>

fun run_ops :: "'db go_redis \<Rightarrow> 'db redis_cmds \<Rightarrow> store_op list \<Rightarrow> RedisStore \<Rightarrow> 'db list \<Rightarrow>
    (RedisStore \<times> 'db list \<times> go_error option list) option" where
  "run_ops C R [] s dbs = Some (s, dbs, [])"
| "run_ops C R (CreateOp req # ops) s dbs =
     (case RedisStore_CreateAuction C R s req dbs of
        None \<Rightarrow> None
      | Some (dbs', e) \<Rightarrow> map_option (\<lambda>(s'', dbs'', es). (s'', dbs'', e # es)) (run_ops C R ops s dbs'))"
| "run_ops C R (BidOp clk req # ops) s dbs =
     (case RedisStore_PlaceBid C R clk s req dbs of
        None \<Rightarrow> None
      | Some (s', dbs', _, e) \<Rightarrow> map_option (\<lambda>(s'', dbs'', es). (s'', dbs'', e # es)) (run_ops C R ops s' dbs'))"

text \<open>The type of every key: hashes of states hold readable numbers, and nothing is of another type.\<close>

definition well_typed :: "('db \<Rightarrow> bool) \<Rightarrow> ('db \<Rightarrow> string \<Rightarrow> string \<rightharpoonup> string) \<Rightarrow> ('db \<Rightarrow> string \<Rightarrow> stream_entry list) \<Rightarrow>
    ('db \<Rightarrow> string \<Rightarrow> bool) \<Rightarrow> ('db \<Rightarrow> string \<Rightarrow> bool) \<Rightarrow> RedisStore \<Rightarrow> 'db list \<Rightarrow> bool" where
  "well_typed valid hash stream is_hash is_stream s dbs \<longleftrightarrow>
     store_ok valid is_hash is_stream s dbs \<and> (\<forall>a. numeric_state (av_state (store_view hash stream s dbs a)))"

fun op_result :: "store_op \<Rightarrow> go_error option \<Rightarrow> bool" where
  "op_result (CreateOp _) e \<longleftrightarrow> e = None"
| "op_result (BidOp _ _) e \<longleftrightarrow> e = None \<or> e = Some (ErrReason ''auction_not_found'')"

lemma numeric_upd:
  "numeric_state st \<Longrightarrow> (\<forall>f s. m f = Some s \<longrightarrow> f \<in> {''end_at'', ''current_price'', ''version''} \<longrightarrow> lua_tonumber s \<noteq> None) \<Longrightarrow>
   numeric_state (st ++ m)"
  by (auto simp: numeric_state_def map_add_def split: option.split)

lemma bid_state_numeric: "numeric_state st \<Longrightarrow> numeric_state (bid_state c st)"
  using tostring_readable by (auto simp: numeric_state_def bid_state_def)

text \<open>The reason the script gives for an error survives the decoding whatever the clock reads.\<close>

lemma decode_reason:
  assumes "CHR ''|'' \<notin> set r"
  shows "Reason (decodeCachedResult (encode n ''0'' r (Some 0) [] (Some 0) [])) = r"
proof -
  have "CHR ''|'' \<notin> set (tostring_opt (Some 0))" by (simp add: tostring_opt_def)
  then have "SplitN 7 CHR ''|'' (encode n ''0'' r (Some 0) [] (Some 0) []) =
      [''0'', r, tostring_opt (Some 0), [], tostring_opt (Some 0), [], tostring_opt n]"
    unfolding encode_def using assms by (intro SplitN_encoded) simp_all
  then show ?thesis by (simp add: decodeCachedResult_def pad_parts_def)
qed

lemma milliseconds_range: "\<bar>sint (Milliseconds d)\<bar> < 2 ^ 53"
proof -
  let ?k = "sgn (sint d) * (\<bar>sint d\<bar> div 10 ^ 6)"
  have "\<bar>sint d\<bar> \<le> 2 ^ 63" using int64_range [of d] by auto
  then have "\<bar>sint d\<bar> div 10 ^ 6 \<le> 2 ^ 63 div 10 ^ 6" by (rule zdiv_mono1) simp
  moreover have "0 \<le> \<bar>sint d\<bar> div 10 ^ 6" by simp
  ultimately have k: "\<bar>?k\<bar> < 2 ^ 53" by (auto simp: abs_mult sgn_if)
  then have "sint (Milliseconds d) = ?k" unfolding Milliseconds_def by (intro sint_int64) auto
  with k show ?thesis by simp
qed

context redis_backend
begin

lemma reads_any: "lua_tonumber (arg_int C w) = Some (to_double (sint w))"
  by (simp add: renders_int FormatInt_def lua_tonumber_show_int)

lemma PlaceBid_typed:
  assumes wt: "well_typed valid hash stream is_hash is_stream s dbs" and closed: "\<forall>t. \<not> BreakerOpen t s"
  shows "\<exists>s' dbs' res e. RedisStore_PlaceBid C R clk s req dbs = Some (s', dbs', res, e) \<and> op_result (BidOp clk req) e \<and>
    well_typed valid hash stream is_hash is_stream s' dbs' \<and> (\<forall>t. \<not> BreakerOpen t s')"
proof -
  let ?a = "AuctionID req" and ?ttl = "sint (Milliseconds (idemTTL s))"
  let ?c = "\<lparr>bc_bid = BidID req, bc_user = UserID req, bc_amount = to_double (sint (AmountCents req)),
    bc_now = to_double (sint (UnixMilli (at_run clk))), bc_ttl = ?ttl, bc_auction = ?a\<rparr>"
  have ok: "store_ok valid is_hash is_stream s dbs" "\<And>a. numeric_state (av_state (store_view hash stream s dbs a))"
    using wt by (simp_all add: well_typed_def)
  obtain i where i: "ForAuction (router s) ?a = Some i" "i < length dbs" "valid (dbs ! i)" "kinds_ok is_hash is_stream (dbs ! i)"
    using ok(1) by (rule store_ok_shard)
  have v: "store_view hash stream s dbs ?a = view_of hash stream ?a (dbs ! i)" using i(1) by (simp add: store_view_def)
  have ttl: "- (2 ^ 53) < bc_ttl ?c" "bc_ttl ?c < 2 ^ 53" using milliseconds_range [of "idemTTL s"] by auto
  have reads: "reads_as (bid_args C s (at_run clk) req) ?c"
    using milliseconds_range [of "idemTTL s"] by (simp add: reads_as_def bid_args_def reads_any to_double_exact)
  have num: "numeric_state (hash (dbs ! i) (stateKey ?a))" using ok(2) [of ?a] v by simp
  obtain db' eid where run: "bidScript R (bid_keys ?a) (bid_args C s (at_run clk) req) (dbs ! i) =
      (db', Inr (bid_reply ?c eid (view_of hash stream ?a (dbs ! i))))" "valid db'" "kinds_ok is_hash is_stream db'"
    "view_of hash stream ?a db' = bid_effect ?c eid (view_of hash stream ?a (dbs ! i))"
    "\<forall>b. b \<noteq> ?a \<longrightarrow> view_of hash stream b db' = view_of hash stream b (dbs ! i)"
    using bidScript_effect [OF i(3,4) reads num ttl] by blast
  obtain b where b: "allow (UnixNano (at_allow clk)) (breaker s) = (True, b)" "\<And>t. \<not> isOpen t b"
    using closed brk.closed_passes [of "UnixNano (at_allow clk)" "breaker s"]
      brk.passing_closes [of "UnixNano (at_allow clk)" "breaker s"]
    by (cases "allow (UnixNano (at_allow clk)) (breaker s)") (auto simp: BreakerOpen_def)
  let ?r = "bid_reply ?c eid (view_of hash stream ?a (dbs ! i))"
  have resp: "script_run C (bidScript R (bid_keys ?a) (bid_args C s (at_run clk) req)) (dbs ! i) =
      (db', Inr (Slice [IString (fst ?r), IString (snd ?r)]))"
    using run(1) by (intro runs_script) simp
  obtain b' res e where h: "handle_response (at_fail clk) b (Slice [IString (fst ?r), IString (snd ?r)]) = (b', res, e)"
    "e = None \<or> e = Some (ErrReason ''auction_not_found'')" "b' = b \<or> b' = success b"
  proof (cases "av_idem (view_of hash stream ?a (dbs ! i)) (BidID req)")
    case (Some x)
    then show ?thesis by (intro that) (auto simp: bid_reply_def)
  next
    case None
    then show ?thesis
      by (cases "bid_outcome ?c (hash (dbs ! i) (stateKey ?a)) = ''auction_not_found''")
         (auto simp: bid_reply_def bid_encoded_def decode_reason intro!: that)
  qed
  let ?s' = "s\<lparr>breaker := b'\<rparr>" and ?dbs' = "dbs[i := db']"
  have "RedisStore_PlaceBid C R clk s req dbs = Some (?s', ?dbs', res, e)"
    using i(1) b(1) resp h(1) by (simp add: RedisStore_PlaceBid_def)
  moreover have "numeric_state (av_state (store_view hash stream ?s' ?dbs' a))" for a
    using store_view_update [OF i(1,2) run(4,5)] ok(2) [of a] num by (auto simp: bid_effect_def bid_state_numeric)
  moreover have "\<not> BreakerOpen t ?s'" for t
    using h(3) b(2) brk.success_closes by (auto simp: BreakerOpen_def)
  ultimately show ?thesis
    using h(2) store_ok_update [OF ok(1) run(2,3)] by (auto simp: well_typed_def)
qed

lemma CreateAuction_typed:
  assumes wt: "well_typed valid hash stream is_hash is_stream s dbs"
  shows "\<exists>dbs'. RedisStore_CreateAuction C R s req dbs = Some (dbs', None) \<and>
    well_typed valid hash stream is_hash is_stream s dbs'"
proof -
  let ?a = "NewAuctionID req" and ?fvs = "auction_fields C req"
  have ok: "store_ok valid is_hash is_stream s dbs" "\<And>a. numeric_state (av_state (store_view hash stream s dbs a))"
    using wt by (simp_all add: well_typed_def)
  obtain i where i: "ForAuction (router s) ?a = Some i" "i < length dbs" "valid (dbs ! i)" "kinds_ok is_hash is_stream (dbs ! i)"
    using ok(1) by (rule store_ok_shard)
  have ne: "?fvs \<noteq> []" by (simp add: auction_fields_def)
  obtain db' where h: "HSET R (stateKey ?a) ?fvs (dbs ! i) = Inr db'" "valid db'" "kinds_ok is_hash is_stream db'"
    "hash db' = (hash (dbs ! i))(stateKey ?a := hash (dbs ! i) (stateKey ?a) ++ written ?fvs)" "stream db' = stream (dbs ! i)"
    using hset_state [OF i(3,4) ne] by blast
  have run: "RedisStore_CreateAuction C R s req dbs = Some (dbs[i := db'], None)"
    using i(1) runs_hset [of "HSET R (stateKey ?a) ?fvs", OF h(1)] by (simp add: RedisStore_CreateAuction_def)
  have v: "view_of hash stream ?a db' =
      (view_of hash stream ?a (dbs ! i))\<lparr>av_state := hash (dbs ! i) (stateKey ?a) ++ written ?fvs\<rparr>"
    "\<forall>b. b \<noteq> ?a \<longrightarrow> view_of hash stream b db' = view_of hash stream b (dbs ! i)"
    using h(4,5) by (simp_all add: view_of_def)
  have "numeric_state (hash (dbs ! i) (stateKey ?a) ++ written ?fvs)"
    using ok(2) [of ?a] i(1)
    by (auto simp: numeric_state_def written_def auction_fields_def reads_any)
  then have "numeric_state (av_state (store_view hash stream s (dbs[i := db']) a))" for a
    using store_view_update [OF i(1,2) v] ok(2) [of a] by simp
  moreover have "store_ok valid is_hash is_stream s (dbs[i := db'])"
    using store_ok_update [OF ok(1) h(2,3), of "breaker s" i] by simp
  ultimately show ?thesis using run by (auto simp: well_typed_def)
qed

lemma run_ops_typed:
  assumes "well_typed valid hash stream is_hash is_stream s dbs" and "\<forall>t. \<not> BreakerOpen t s"
  shows "\<exists>s' dbs' es. run_ops C R ops s dbs = Some (s', dbs', es) \<and> list_all2 op_result ops es \<and>
    well_typed valid hash stream is_hash is_stream s' dbs' \<and> (\<forall>t. \<not> BreakerOpen t s')"
  using assms
proof (induction ops arbitrary: s dbs)
  case (Cons op ops)
  show ?case
  proof (cases op)
    case (CreateOp req)
    obtain dbs1 where c: "RedisStore_CreateAuction C R s req dbs = Some (dbs1, None)"
      "well_typed valid hash stream is_hash is_stream s dbs1"
      using CreateAuction_typed [OF Cons.prems(1)] by blast
    from Cons.IH [OF c(2) Cons.prems(2)] c(1) CreateOp show ?thesis by auto
  next
    case (BidOp clk req)
    obtain s1 dbs1 res e where p: "RedisStore_PlaceBid C R clk s req dbs = Some (s1, dbs1, res, e)" "op_result (BidOp clk req) e"
      "well_typed valid hash stream is_hash is_stream s1 dbs1" "\<forall>t. \<not> BreakerOpen t s1"
      using PlaceBid_typed [OF Cons.prems] by blast
    from Cons.IH [OF p(3,4)] p(1,2) BidOp show ?thesis by auto
  qed
qed simp

end

section \<open>Property\<close>

text \<open>
  (C11) Every key keeps its type: from a store in order whose states hold numbers (fresh servers, for
  instance), any sequence of auctions created and bids placed, with any identifiers, users, amounts,
  clocks and idempotency window, separators and numbers beyond 14 digits included, is processed to
  its end. No create fails, a bid fails only because its auction does not exist, the breaker never
  opens, and afterwards every state and result key still holds a hash or nothing, every event key a
  stream or nothing, and every numeric field of every state a number the script can read.
\<close>

theorem store_keeps_types:
  assumes "redis_backend R valid hash stream ttl is_hash is_stream before tick C"
    and "well_typed valid hash stream is_hash is_stream s dbs" and "\<forall>t. \<not> BreakerOpen t s"
  shows "\<exists>s' dbs' es. run_ops C R ops s dbs = Some (s', dbs', es) \<and> list_all2 op_result ops es \<and>
    well_typed valid hash stream is_hash is_stream s' dbs' \<and> (\<forall>t. \<not> BreakerOpen t s')"
  by (rule redis_backend.run_ops_typed [OF assms])

theorem store_keeps_types_witness:
  "\<exists>s' dbs' es. run_ops direct_driver mem_redis
      [CreateOp \<lparr>NewAuctionID = ''x}:idem'', OpeningPriceCents = 9223372036854775807, EndAt = 0\<rparr>,
       BidOp (demo_clock 7) \<lparr>AuctionID = ''x}:idem'', BidID = ''|'', UserID = ''a|b'', AmountCents = 9223372036854775807\<rparr>,
       BidOp (demo_clock 8) \<lparr>AuctionID = ''y'', BidID = [], UserID = [], AmountCents = - 5\<rparr>]
      demo_store demo_dbs = Some (s', dbs', es) \<and> hd es = None \<and>
    well_typed mem_wf mem_hash mem_stream mem_is_hash mem_is_stream s' dbs'"
proof -
  have rdy: "mem_ready 0 demo_store demo_dbs" by (rule demo_ready) simp
  have wt: "well_typed mem_wf mem_hash mem_stream mem_is_hash mem_is_stream demo_store demo_dbs"
    using rdy by (auto simp: well_typed_def ready_def intro: good_numeric)
  have closed: "\<forall>t. \<not> BreakerOpen t demo_store" using rdy by (simp add: ready_def)
  from store_keeps_types [OF memb.redis_backend_axioms wt closed,
      of "[CreateOp \<lparr>NewAuctionID = ''x}:idem'', OpeningPriceCents = 9223372036854775807, EndAt = 0\<rparr>,
       BidOp (demo_clock 7) \<lparr>AuctionID = ''x}:idem'', BidID = ''|'', UserID = ''a|b'', AmountCents = 9223372036854775807\<rparr>,
       BidOp (demo_clock 8) \<lparr>AuctionID = ''y'', BidID = [], UserID = [], AmountCents = - 5\<rparr>]"]
  show ?thesis by (auto simp: list_all2_Cons1 simp del: run_ops.simps)
qed

end
