(* ===== verification/Window.thy ===== *)
theory Window
  imports Retries
begin

text \<open>
  Time on the servers: runs of bids between which time passes, and how long the results of an auction
  are remembered. All remembered results of an auction are fields of one Redis hash, and every newly
  answered bid sets the expiry of this hash to \<open>BID_IDEMPOTENCY_TTL\<close> again, so that they live and go
  together. \<open>memory\<close> is this behaviour on its own; the theory shows that the store has it.
\<close>

section \<open>Definitions\<close>

text \<open>Bids with the milliseconds that pass on every server before each of them.\<close>

type_synonym timed_run = "(int \<times> bid_clock \<times> PlaceBidRequest) list"

fun place_timed :: "'db go_redis \<Rightarrow> 'db redis_cmds \<Rightarrow> (int \<Rightarrow> 'db \<Rightarrow> 'db) \<Rightarrow> timed_run \<Rightarrow> RedisStore \<Rightarrow> 'db list \<Rightarrow>
    (RedisStore \<times> 'db list \<times> (PlaceBidResult \<times> go_error option) list) option" where
  "place_timed C R tick [] s dbs = Some (s, dbs, [])"
| "place_timed C R tick ((d, clk, req) # evs) s dbs =
     (case RedisStore_PlaceBid C R clk s req (map (tick d) dbs) of
        None \<Rightarrow> None
      | Some (s', dbs', res) \<Rightarrow>
          (case place_timed C R tick evs s' dbs' of
             None \<Rightarrow> None
           | Some (s'', dbs'', rs) \<Rightarrow> Some (s'', dbs'', res # rs)))"

definition timed_ok :: "int \<Rightarrow> timed_run \<Rightarrow> bool" where
  "timed_ok ttl evs \<longleftrightarrow>
     (\<forall>(d, clk, req) \<in> set evs. 0 \<le> d \<and> plain_bid ttl (sint (UnixMilli (at_run clk))) req)"

text \<open>Whose results are remembered and for how much longer; nothing is remembered otherwise.\<close>

type_synonym memory = "(int \<times> string set) option"

definition elapse :: "int \<Rightarrow> memory \<Rightarrow> memory" where
  "elapse d w = (case w of None \<Rightarrow> None | Some (t, ids) \<Rightarrow> if d < t then Some (t - d, ids) else None)"

definition answered :: "int \<Rightarrow> string \<Rightarrow> memory \<Rightarrow> memory" where
  "answered ttl bid w =
     (case w of
        None \<Rightarrow> Some (ttl, {bid})
      | Some (t, ids) \<Rightarrow> if bid \<in> ids then w else Some (ttl, insert bid ids))"

definition memory_next :: "int \<Rightarrow> string \<Rightarrow> PlaceBidRequest \<Rightarrow> memory \<Rightarrow> memory" where
  "memory_next ttl a req w = (if AuctionID req = a then answered ttl (BidID req) w else w)"

fun memory_after :: "int \<Rightarrow> string \<Rightarrow> memory \<Rightarrow> timed_run \<Rightarrow> memory" where
  "memory_after ttl a w [] = w"
| "memory_after ttl a w ((d, clk, req) # evs) = memory_after ttl a (memory_next ttl a req (elapse d w)) evs"

text \<open>The memory is never lost during a run.\<close>

fun unbroken :: "int \<Rightarrow> string \<Rightarrow> memory \<Rightarrow> timed_run \<Rightarrow> bool" where
  "unbroken ttl a w [] = True"
| "unbroken ttl a w ((d, clk, req) # evs) \<longleftrightarrow>
     elapse d w \<noteq> None \<and> unbroken ttl a (memory_next ttl a req (elapse d w)) evs"

text \<open>No state hash has an expiry (the program never sets one).\<close>

definition lasting :: "('db \<Rightarrow> string \<Rightarrow> int option) \<Rightarrow> 'db list \<Rightarrow> bool" where
  "lasting ttl dbs \<longleftrightarrow> (\<forall>db \<in> set dbs. \<forall>b. ttl db (stateKey b) = None)"

definition has_memory :: "('db \<Rightarrow> string \<Rightarrow> string \<rightharpoonup> string) \<Rightarrow> ('db \<Rightarrow> string \<Rightarrow> stream_entry list) \<Rightarrow>
    ('db \<Rightarrow> string \<Rightarrow> int option) \<Rightarrow> RedisStore \<Rightarrow> 'db list \<Rightarrow> string \<Rightarrow> memory \<Rightarrow> bool" where
  "has_memory hash stream ttl s dbs a w \<longleftrightarrow>
     dom (a_results (auction_at hash stream s dbs a)) = (case w of None \<Rightarrow> {} | Some (_, ids) \<Rightarrow> ids) \<and>
     (\<forall>i. ForAuction (router s) a = Some i \<longrightarrow> ttl (dbs ! i) (idemKey a) = map_option fst w)"

section \<open>Lemmas\<close>

lemma elapse_simps [simp]:
  "elapse d None = None" "elapse d (Some (t, ids)) = (if d < t then Some (t - d, ids) else None)"
  by (simp_all add: elapse_def)

lemma memory_next_le:
  "\<forall>t ids. w = Some (t, ids) \<longrightarrow> t \<le> ttl \<Longrightarrow> memory_next ttl a req w = Some (t, ids) \<Longrightarrow> t \<le> ttl"
  by (auto simp: memory_next_def answered_def split: if_splits option.splits)

lemma memory_after_le:
  assumes "\<forall>t ids. w = Some (t, ids) \<longrightarrow> t \<le> ttl" and "\<forall>e \<in> set evs. 0 \<le> fst e"
    and "memory_after ttl a w evs = Some (t, ids)"
  shows "t \<le> ttl"
  using assms
proof (induction evs arbitrary: w)
  case (Cons e evs)
  obtain d clk req where e: "e = (d, clk, req)" by (cases e)
  have "\<forall>t ids. elapse d w = Some (t, ids) \<longrightarrow> t \<le> ttl"
    using Cons.prems(1,2) e by (auto simp: elapse_def split: option.splits if_splits)
  then have "\<forall>t ids. memory_next ttl a req (elapse d w) = Some (t, ids) \<longrightarrow> t \<le> ttl"
    using memory_next_le [of "elapse d w" ttl a req] by blast
  with Cons e show ?case by auto
qed simp

text \<open>Within one window after a new answer nothing is lost.\<close>

lemma unbroken_short:
  assumes "\<forall>e \<in> set evs. 0 \<le> fst e" and "0 \<le> d" and "t \<le> ttl" and "sum_list (map fst evs) + d < t"
  shows "unbroken ttl a (Some (t, ids)) evs \<and> elapse d (memory_after ttl a (Some (t, ids)) evs) \<noteq> None"
  using assms
proof (induction evs arbitrary: t ids)
  case (Cons e evs)
  obtain d0 clk req where e: "e = (d0, clk, req)" by (cases e)
  have "0 \<le> sum_list (map fst evs)" using Cons.prems(1) by (intro sum_list_nonneg) auto
  then have d0: "0 \<le> d0" "d0 < t" "sum_list (map fst evs) + d < t - d0" using Cons.prems e by auto
  obtain t' ids' where n: "memory_next ttl a req (Some (t - d0, ids)) = Some (t', ids')" "t - d0 \<le> t'" "t' \<le> ttl"
    using Cons.prems(3) d0(1) that by (cases "AuctionID req = a \<and> BidID req \<notin> ids") (auto simp: memory_next_def answered_def)
  with Cons.IH [of t' ids'] Cons.prems(1,2) d0 e show ?case by simp
qed auto

lemma dom_place_results:
  assumes "a_rec st \<noteq> None" and "0 < ttl"
  shows "dom (a_results (fst (place_spec ttl now req eid st))) = insert (BidID req) (dom (a_results st))"
  using assms by (auto simp: place_spec_def remember_def Let_def split: option.splits)

lemma place_spec_keeps_rec: "a_rec st \<noteq> None \<Longrightarrow> a_rec (fst (place_spec ttl now req eid st)) \<noteq> None"
  by (auto simp: place_spec_def Let_def split: option.splits)

lemma newly_answered_iff:
  "newly_answered (store_view hash stream s dbs a) req \<longleftrightarrow>
   a_results (auction_at hash stream s dbs a) (BidID req) = None \<and> a_rec (auction_at hash stream s dbs a) \<noteq> None"
  unfolding newly_answered_def auction_at_def abs_auction_def by (simp only: abs_state_exists auction_st.select_convs comp_apply option.map_disc_iff)

context redis_backend
begin

abbreviation memory_in :: "RedisStore \<Rightarrow> 'db list \<Rightarrow> string \<Rightarrow> memory \<Rightarrow> bool" where
  "memory_in \<equiv> has_memory hash stream ttl"

text \<open>Time passes on every server: states and events stay, results go when their window is over.\<close>

lemma tick_view:
  assumes "store_ok valid is_hash is_stream s dbs" and "lasting ttl dbs" and "0 \<le> d"
    and "ForAuction (router s) b = Some i"
  shows "store_view hash stream s (map (tick d) dbs) b =
    (case ttl (dbs ! i) (idemKey b) of
       Some t \<Rightarrow> if d < t then store_view hash stream s dbs b else (store_view hash stream s dbs b)\<lparr>av_idem := Map.empty\<rparr>
     | None \<Rightarrow> store_view hash stream s dbs b) \<and>
    ttl (map (tick d) dbs ! i) (idemKey b) =
      (case ttl (dbs ! i) (idemKey b) of Some t \<Rightarrow> if d < t then Some (t - d) else None | None \<Rightarrow> None)"
proof -
  have i: "i < length dbs" "valid (dbs ! i)"
    using store_ok_shard [OF assms(1), of b thesis for thesis] assms(4) by auto
  then have "ttl (dbs ! i) (stateKey b) = None" using assms(2) by (simp add: lasting_def)
  then show ?thesis
    using i assms(3,4) tick_keeps [of "dbs ! i" d "stateKey b"] tick_keeps [of "dbs ! i" d "idemKey b"]
      tick_expires [of "dbs ! i" "idemKey b" _ d] tick_stream [of d "dbs ! i"]
    by (auto simp: store_view_def view_of_def split: option.split)
qed

lemma tick_ready:
  assumes "store_ready n s dbs" and "lasting ttl dbs" and "0 \<le> d"
  shows "store_ready n s (map (tick d) dbs)" and "lasting ttl (map (tick d) dbs)"
proof -
  have ok: "store_ok valid is_hash is_stream s dbs" using assms(1) by (simp add: ready_def)
  have "kinds_ok is_hash is_stream (tick d x) \<and> valid (tick d x)" if "x \<in> set dbs" for x
    using ok that assms(3) by (auto simp: store_ok_def kinds_ok_def intro: tick_key tick_wf)
  then have ok': "store_ok valid is_hash is_stream s (map (tick d) dbs)" using ok by (auto simp: store_ok_def)
  have "av_state (store_view hash stream s (map (tick d) dbs) b) = av_state (store_view hash stream s dbs b)" for b
  proof -
    obtain i where "ForAuction (router s) b = Some i" using ok by (rule store_ok_shard)
    from tick_view [OF ok assms(2,3) this] show ?thesis by (auto split: option.splits if_splits)
  qed
  with ok' assms(1) show "store_ready n s (map (tick d) dbs)" by (simp add: ready_def)
  show "lasting ttl (map (tick d) dbs)"
    unfolding lasting_def
  proof (intro ballI allI)
    fix x b assume "x \<in> set (map (tick d) dbs)"
    then obtain db where db: "db \<in> set dbs" "x = tick d db" by auto
    then have "valid db" "ttl db (stateKey b) = None" using ok assms(2) by (auto simp: store_ok_def lasting_def)
    with tick_keeps [of db d "stateKey b"] assms(3) db(2) show "ttl x (stateKey b) = None" by simp
  qed
qed

lemma tick_memory:
  assumes "store_ready n s dbs" and "lasting ttl dbs" and "0 \<le> d" and "memory_in s dbs a w"
  shows "memory_in s (map (tick d) dbs) a (elapse d w)"
    and "a_rec (auction_in s (map (tick d) dbs) a) = a_rec (auction_in s dbs a)"
    and "elapse d w \<noteq> None \<Longrightarrow> auction_in s (map (tick d) dbs) a = auction_in s dbs a"
proof -
  have ok: "store_ok valid is_hash is_stream s dbs" using assms(1) by (simp add: ready_def)
  obtain i where i: "ForAuction (router s) a = Some i" using ok by (rule store_ok_shard)
  note view = tick_view [OF ok assms(2,3) i]
  from view assms(4) i show "memory_in s (map (tick d) dbs) a (elapse d w)"
    by (auto simp: has_memory_def elapse_def auction_at_def abs_auction_def split: option.splits if_splits)
  from view show "a_rec (auction_in s (map (tick d) dbs) a) = a_rec (auction_in s dbs a)"
    by (auto simp: auction_at_def abs_auction_def split: option.splits if_splits)
  show "auction_in s (map (tick d) dbs) a = auction_in s dbs a" if "elapse d w \<noteq> None"
    using view assms(4) i that
    by (auto simp: has_memory_def elapse_def auction_at_def split: option.splits if_splits)
qed

lemma PlaceBid_memory:
  fixes s req clk
  defines "ttl0 \<equiv> sint (Milliseconds (idemTTL s))"
  assumes rdy: "store_ready (Suc n) s dbs" and last: "lasting ttl dbs"
    and plain: "plain_bid ttl0 (sint (UnixMilli (at_run clk))) req" and pos: "0 < ttl0"
  obtains s' dbs' eid where
    "RedisStore_PlaceBid C R clk s req dbs =
      Some (s', dbs', snd (place_spec ttl0 (sint (UnixMilli (at_run clk))) req eid (auction_in s dbs (AuctionID req))))"
    "\<forall>a. auction_in s' dbs' a = (if a = AuctionID req
       then fst (place_spec ttl0 (sint (UnixMilli (at_run clk))) req eid (auction_in s dbs a)) else auction_in s dbs a)"
    "store_ready n s' dbs'" "idemTTL s' = idemTTL s" "lasting ttl dbs'" "router s' = router s"
    "\<forall>a i. ForAuction (router s) a = Some i \<longrightarrow> ttl (dbs' ! i) (idemKey a) =
       (if a = AuctionID req \<and> a_results (auction_in s dbs a) (BidID req) = None \<and> a_rec (auction_in s dbs a) \<noteq> None
        then Some ttl0 else ttl (dbs ! i) (idemKey a))"
proof -
  have r: "store_ok valid is_hash is_stream s dbs" "\<not> BreakerOpen (at_allow clk) s"
    "\<And>b. good_state (Suc n) (av_state (store_view hash stream s dbs b))"
    using rdy by (auto simp: ready_def)
  obtain s' dbs' eid where p:
    "RedisStore_PlaceBid C R clk s req dbs =
      Some (s', dbs', snd (place_spec ttl0 (sint (UnixMilli (at_run clk))) req eid (auction_in s dbs (AuctionID req))))"
    "auction_in s' dbs' (AuctionID req) =
      fst (place_spec ttl0 (sint (UnixMilli (at_run clk))) req eid (auction_in s dbs (AuctionID req)))"
    "good_state n (av_state (store_view hash stream s' dbs' (AuctionID req)))"
    "\<forall>b. b \<noteq> AuctionID req \<longrightarrow> store_view hash stream s' dbs' b = store_view hash stream s dbs b"
    "store_ok valid is_hash is_stream s' dbs'" "router s' = router s" "idemTTL s' = idemTTL s" "\<forall>t. \<not> BreakerOpen t s'"
    "eid \<noteq> []" "length dbs' = length dbs"
    "\<forall>j < length dbs. ttl (dbs' ! j) =
      (if ForAuction (router s) (AuctionID req) = Some j \<and> newly_answered (store_view hash stream s dbs (AuctionID req)) req
       then (ttl (dbs ! j))(idemKey (AuctionID req) := (if ttl0 \<le> 0 then None else Some ttl0)) else ttl (dbs ! j))"
    using PlaceBid_refines [OF r(1,2) r(3) plain [unfolded ttl0_def], folded ttl0_def]
    by (elim exE conjE) (rule that)
  have "good_state n (av_state (store_view hash stream s' dbs' b))" for b
    using p(3,4) good_state_less [OF r(3)] by (cases "b = AuctionID req") simp_all
  then have rdy': "store_ready n s' dbs'" using p(5,8) by (simp add: ready_def)
  have at: "\<forall>a. auction_in s' dbs' a = (if a = AuctionID req
       then fst (place_spec ttl0 (sint (UnixMilli (at_run clk))) req eid (auction_in s dbs a)) else auction_in s dbs a)"
    using p(2,4) by (simp add: auction_at_def)
  have "ttl (dbs' ! j) (stateKey b) = None" if "j < length dbs" for j b
    using last p(11) that by (auto simp: lasting_def)
  then have "lasting ttl dbs'" using p(10) by (auto simp: lasting_def in_set_conv_nth)
  moreover have "ttl (dbs' ! i) (idemKey a) =
      (if a = AuctionID req \<and> a_results (auction_in s dbs a) (BidID req) = None \<and> a_rec (auction_in s dbs a) \<noteq> None
       then Some ttl0 else ttl (dbs ! i) (idemKey a))" if "ForAuction (router s) a = Some i" for a i
  proof -
    have "i < length dbs" using store_ok_shard [OF r(1), of a thesis for thesis] that by auto
    with p(11) that pos show ?thesis by (auto simp: newly_answered_iff)
  qed
  ultimately show ?thesis using that [OF p(1) at rdy' p(7) _ p(6)] by blast
qed

lemma has_memory_place:
  assumes "memory_in s dbs a w" and "a_rec (auction_in s dbs a) \<noteq> None" and "0 < ttl0" and "router s' = router s"
    and "\<forall>a. auction_in s' dbs' a = (if a = AuctionID req
       then fst (place_spec ttl0 now req eid (auction_in s dbs a)) else auction_in s dbs a)"
    and "\<forall>a i. ForAuction (router s) a = Some i \<longrightarrow> ttl (dbs' ! i) (idemKey a) =
       (if a = AuctionID req \<and> a_results (auction_in s dbs a) (BidID req) = None \<and> a_rec (auction_in s dbs a) \<noteq> None
        then Some ttl0 else ttl (dbs ! i) (idemKey a))"
  shows "memory_in s' dbs' a (memory_next ttl0 a req w)"
proof (cases "AuctionID req = a")
  case True
  have dom: "dom (a_results (auction_in s' dbs' a)) = insert (BidID req) (dom (a_results (auction_in s dbs a)))"
    using dom_place_results [OF assms(2,3)] assms(5) True by simp
  show ?thesis
  proof (cases "BidID req \<in> dom (a_results (auction_in s dbs a))")
    case dup: True
    then have "memory_next ttl0 a req w = w"
      using assms(1) True by (auto simp: has_memory_def memory_next_def answered_def split: option.splits)
    moreover have "ttl (dbs' ! i) (idemKey a) = ttl (dbs ! i) (idemKey a)" if "ForAuction (router s) a = Some i" for i
      using assms(6) that dup by auto
    ultimately show ?thesis using assms(1,4) dom dup by (simp add: has_memory_def insert_absorb)
  next
    case new: False
    then have "memory_next ttl0 a req w = Some (ttl0, insert (BidID req) (dom (a_results (auction_in s dbs a))))"
      using assms(1) True by (auto simp: has_memory_def memory_next_def answered_def split: option.splits)
    moreover have "ttl (dbs' ! i) (idemKey a) = Some ttl0" if "ForAuction (router s) a = Some i" for i
      using assms(2,6) that new True by auto
    ultimately show ?thesis using assms(4) dom by (simp add: has_memory_def)
  qed
next
  case False
  with assms(1,4,5,6) show ?thesis by (auto simp: has_memory_def memory_next_def)
qed

text \<open>A run of bids and waiting: the memory is that of \<open>memory_after\<close>, and unbroken it keeps every result.\<close>

lemma timed_run_memory:
  fixes s
  defines "ttl0 \<equiv> sint (Milliseconds (idemTTL s))"
  assumes "store_ready (length evs + n) s dbs" and "lasting ttl dbs" and "timed_ok ttl0 evs" and "0 < ttl0"
    and "a_rec (auction_in s dbs a) \<noteq> None" and "memory_in s dbs a w"
  shows "\<exists>s' dbs' rs. place_timed C R tick evs s dbs = Some (s', dbs', rs) \<and> length rs = length evs \<and>
    idemTTL s' = idemTTL s \<and> store_ready n s' dbs' \<and> lasting ttl dbs' \<and> a_rec (auction_in s' dbs' a) \<noteq> None \<and>
    memory_in s' dbs' a (memory_after ttl0 a w evs) \<and>
    (unbroken ttl0 a w evs \<longrightarrow> (\<forall>bid r. a_results (auction_in s dbs a) bid = Some r \<longrightarrow>
       a_results (auction_in s' dbs' a) bid = Some r))"
  using assms(2-) unfolding ttl0_def
proof (induction evs arbitrary: s dbs w)
  case Nil
  then show ?case by simp
next
  case (Cons e evs)
  obtain d clk req where e: "e = (d, clk, req)" by (cases e)
  let ?T = "sint (Milliseconds (idemTTL s))" and ?dbs = "map (tick d) dbs"
  have ok: "0 \<le> d" "plain_bid ?T (sint (UnixMilli (at_run clk))) req" "timed_ok ?T evs"
    using Cons.prems(3) e by (simp_all add: timed_ok_def)
  have rdy: "store_ready (Suc (length evs + n)) s dbs" using Cons.prems(1) by simp
  note t = tick_ready [OF rdy Cons.prems(2) ok(1)] tick_memory [OF rdy Cons.prems(2) ok(1) Cons.prems(6)]
  have rec: "a_rec (auction_in s ?dbs a) \<noteq> None" using t(4) Cons.prems(5) by simp
  obtain s1 dbs1 eid where p: "RedisStore_PlaceBid C R clk s req ?dbs =
      Some (s1, dbs1, snd (place_spec ?T (sint (UnixMilli (at_run clk))) req eid (auction_in s ?dbs (AuctionID req))))"
    "\<forall>a. auction_in s1 dbs1 a = (if a = AuctionID req
       then fst (place_spec ?T (sint (UnixMilli (at_run clk))) req eid (auction_in s ?dbs a)) else auction_in s ?dbs a)"
    "store_ready (length evs + n) s1 dbs1" "idemTTL s1 = idemTTL s" "lasting ttl dbs1" "router s1 = router s"
    "\<forall>a i. ForAuction (router s) a = Some i \<longrightarrow> ttl (dbs1 ! i) (idemKey a) =
       (if a = AuctionID req \<and> a_results (auction_in s ?dbs a) (BidID req) = None \<and> a_rec (auction_in s ?dbs a) \<noteq> None
        then Some ?T else ttl (?dbs ! i) (idemKey a))"
    by (rule PlaceBid_memory [OF t(1,2) ok(2) Cons.prems(4)])
  have mem: "memory_in s1 dbs1 a (memory_next ?T a req (elapse d w))"
    by (rule has_memory_place [OF t(3) rec Cons.prems(4) p(6,2,7)])
  have rec1: "a_rec (auction_in s1 dbs1 a) \<noteq> None" using p(2) rec place_spec_keeps_rec by metis
  obtain s' dbs' rs where q: "place_timed C R tick evs s1 dbs1 = Some (s', dbs', rs)" "length rs = length evs"
    "idemTTL s' = idemTTL s" "store_ready n s' dbs'" "lasting ttl dbs'" "a_rec (auction_in s' dbs' a) \<noteq> None"
    "memory_in s' dbs' a (memory_after ?T a (memory_next ?T a req (elapse d w)) evs)"
    "unbroken ?T a (memory_next ?T a req (elapse d w)) evs \<longrightarrow> (\<forall>bid r. a_results (auction_in s1 dbs1 a) bid = Some r \<longrightarrow>
       a_results (auction_in s' dbs' a) bid = Some r)"
    using Cons.IH [OF p(3,5) _ _ rec1, unfolded p(4), OF ok(3) Cons.prems(4) mem] by (elim exE conjE) (rule that)
  have "a_results (auction_in s1 dbs1 a) bid = Some r"
    if "elapse d w \<noteq> None" "a_results (auction_in s dbs a) bid = Some r" for bid r
    using t(5) [OF that(1)] that(2) p(2) place_spec_keeps_result [OF _ Cons.prems(4)] by metis
  with q p(1,4) e show ?case by simp
qed

end

section \<open>Property\<close>

text \<open>
  (C9) How long results are remembered: after a new answer to a bid, with any bids on any auctions and
  any waiting in between, the bid identifiers the auction remembers are exactly those of \<open>memory_after\<close>:
  all results of an auction are forgotten together, once \<open>BID_IDEMPOTENCY_TTL\<close> has passed since the last
  bid on this auction that was newly answered. As long as this has not happened, a retry is answered as
  a duplicate with the first result and changes nothing, however long ago the first attempt was; this
  is always so within one window after it, and never once a whole window has passed without bids.
  Waiting changes nothing else of the auction.
\<close>

theorem idempotency_window:
  fixes s req clk d and evs :: timed_run and dbs :: "'db list" and hash :: "'db \<Rightarrow> string \<Rightarrow> string \<rightharpoonup> string"
    and stream :: "'db \<Rightarrow> string \<Rightarrow> stream_entry list"
  defines "ttl0 \<equiv> sint (Milliseconds (idemTTL s))" and "a \<equiv> AuctionID req"
  defines "w0 \<equiv> Some (ttl0, insert (BidID req) (dom (a_results (auction_at hash stream s dbs a))))"
  defines "w \<equiv> elapse d (memory_after ttl0 a w0 evs)"
  assumes backend: "redis_backend R valid hash stream ttl is_hash is_stream before tick C"
    and rdy: "ready valid hash stream is_hash is_stream (length evs + 2) s dbs" and last: "lasting ttl dbs"
    and st: "a_rec (auction_at hash stream s dbs a) \<noteq> None" "a_results (auction_at hash stream s dbs a) (BidID req) = None"
    and plain: "plain_bid ttl0 (sint (UnixMilli (at_run clk))) req" "plain_bid ttl0 (sint (UnixMilli (at_run clk'))) req'"
    and evs: "timed_ok ttl0 evs" and same: "AuctionID req' = a" "BidID req' = BidID req" and pos: "0 < ttl0" "0 \<le> d"
  shows "\<exists>s1 dbs1 r s2 dbs2 rs. RedisStore_PlaceBid C R clk s req dbs = Some (s1, dbs1, r, None) \<and>
    place_timed C R tick evs s1 dbs1 = Some (s2, dbs2, rs) \<and>
    dom (a_results (auction_at hash stream s2 (map (tick d) dbs2) a)) = (case w of None \<Rightarrow> {} | Some (_, ids) \<Rightarrow> ids) \<and>
    a_rec (auction_at hash stream s2 (map (tick d) dbs2) a) = a_rec (auction_at hash stream s2 dbs2 a) \<and>
    (unbroken ttl0 a w0 evs \<and> w \<noteq> None \<longrightarrow>
      (\<exists>s3 dbs3. RedisStore_PlaceBid C R clk' s2 req' (map (tick d) dbs2) = Some (s3, dbs3, r\<lparr>Duplicate := True\<rparr>, None) \<and>
         auction_at hash stream s3 dbs3 a = auction_at hash stream s2 dbs2 a)) \<and>
    (sum_list (map fst evs) + d < ttl0 \<longrightarrow> unbroken ttl0 a w0 evs \<and> w \<noteq> None) \<and>
    (ttl0 \<le> d \<longrightarrow> w = None)"
proof -
  let ?at = "auction_at hash stream" and ?rdy = "ready valid hash stream is_hash is_stream"
  have "?rdy (Suc (length evs + 1)) s dbs" using rdy by simp
  then obtain s1 dbs1 eid where p: "RedisStore_PlaceBid C R clk s req dbs =
      Some (s1, dbs1, snd (place_spec ttl0 (sint (UnixMilli (at_run clk))) req eid (?at s dbs a)))"
    "\<forall>b. ?at s1 dbs1 b = (if b = a then fst (place_spec ttl0 (sint (UnixMilli (at_run clk))) req eid (?at s dbs b)) else ?at s dbs b)"
    "?rdy (length evs + 1) s1 dbs1" "idemTTL s1 = idemTTL s" "lasting ttl dbs1" "router s1 = router s"
    "\<forall>b i. ForAuction (router s) b = Some i \<longrightarrow> ttl (dbs1 ! i) (idemKey b) =
       (if b = a \<and> a_results (?at s dbs b) (BidID req) = None \<and> a_rec (?at s dbs b) \<noteq> None then Some ttl0 else ttl (dbs ! i) (idemKey b))"
    using redis_backend.PlaceBid_memory [OF backend _ last plain(1) [unfolded ttl0_def] pos(1) [unfolded ttl0_def]]
    unfolding a_def ttl0_def by blast
  obtain st1 r r0 where spec: "place_spec ttl0 (sint (UnixMilli (at_run clk))) req eid (?at s dbs a) = (st1, r, None)"
    "a_results st1 (BidID req) = Some r0" "r0\<lparr>Duplicate := True\<rparr> = r\<lparr>Duplicate := True\<rparr>"
    using place_spec_remembers [OF st(1) pos(1)] by blast
  have at1: "?at s1 dbs1 a = st1" using p(2) spec(1) by simp
  have rec1: "a_rec (?at s1 dbs1 a) \<noteq> None" using place_spec_keeps_rec [OF st(1)] p(2) by simp
  have mem1: "has_memory hash stream ttl s1 dbs1 a w0"
    using dom_place_results [OF st(1) pos(1)] p(2,6,7) st by (simp add: has_memory_def w0_def)
  have T1: "sint (Milliseconds (idemTTL s1)) = ttl0" using p(4) by (simp add: ttl0_def)
  obtain s2 dbs2 rs where q: "place_timed C R tick evs s1 dbs1 = Some (s2, dbs2, rs)" "idemTTL s2 = idemTTL s1"
    "?rdy 1 s2 dbs2" "lasting ttl dbs2" "has_memory hash stream ttl s2 dbs2 a (memory_after ttl0 a w0 evs)"
    "unbroken ttl0 a w0 evs \<Longrightarrow> a_results (?at s2 dbs2 a) (BidID req) = Some r0"
    using redis_backend.timed_run_memory [OF backend p(3,5) _ _ rec1 mem1, unfolded T1, OF evs pos(1)] spec(2) at1 by blast
  note t = redis_backend.tick_ready [OF backend q(3,4) pos(2)] redis_backend.tick_memory [OF backend q(3,4) pos(2) q(5)]
  have retry: "\<exists>s3 dbs3. RedisStore_PlaceBid C R clk' s2 req' (map (tick d) dbs2) = Some (s3, dbs3, r\<lparr>Duplicate := True\<rparr>, None) \<and>
      ?at s3 dbs3 a = ?at s2 dbs2 a" if "unbroken ttl0 a w0 evs" "w \<noteq> None"
  proof -
    have T2: "sint (Milliseconds (idemTTL s2)) = ttl0" using q(2) T1 by simp
    have at: "?at s2 (map (tick d) dbs2) a = ?at s2 dbs2 a" using t(5) that(2) by (simp add: w_def)
    have "place_spec ttl0 now req' eid (?at s2 dbs2 a) = (?at s2 dbs2 a, r\<lparr>Duplicate := True\<rparr>, None)" for now eid
      using place_spec_retry q(6) [OF that(1)] same(2) spec(3) by metis
    with redis_backend.ready_step [OF backend t(1) [unfolded One_nat_def], of clk' req'] plain(2) T2 same(1) at show ?thesis
      by (metis fst_conv snd_conv)
  qed
  have nonneg: "\<forall>e \<in> set evs. 0 \<le> fst e" using evs by (auto simp: timed_ok_def)
  have short: "unbroken ttl0 a w0 evs \<and> w \<noteq> None" if "sum_list (map fst evs) + d < ttl0"
    using unbroken_short [OF nonneg pos(2) order_refl that] by (simp add: w0_def w_def)
  have long: "w = None" if "ttl0 \<le> d"
    using memory_after_le [of w0 ttl0 evs a] nonneg that
    by (cases "memory_after ttl0 a w0 evs") (auto simp: w0_def w_def)
  show ?thesis
    using p(1) q(1) t(3,4) retry short long spec(1)
    by (intro exI [of _ s1] exI [of _ dbs1] exI [of _ r] exI [of _ s2] exI [of _ dbs2] exI [of _ rs])
       (simp add: has_memory_def w_def)
qed

theorem idempotency_window_witness:
  "\<exists>dbs s1 dbs1 r s2 dbs2 rs s3 dbs3.
    RedisStore_CreateAuction direct_driver mem_redis demo_store demo_auction demo_dbs = Some (dbs, None) \<and>
    RedisStore_PlaceBid direct_driver mem_redis (demo_clock 1000) demo_store (demo_bid ''b1'' ''ann'' 150) dbs =
      Some (s1, dbs1, r, None) \<and>
    place_timed direct_driver mem_redis mem_tick [(400000, demo_clock 1001, demo_bid ''b2'' ''bob'' 180)] s1 dbs1 =
      Some (s2, dbs2, rs) \<and>
    RedisStore_PlaceBid direct_driver mem_redis (demo_clock 1002) s2 (demo_bid ''b1'' ''ann'' 150)
       (map (mem_tick 400000) dbs2) = Some (s3, dbs3, r\<lparr>Duplicate := True\<rparr>, None)"
proof -
  let ?req = "demo_bid ''b1'' ''ann'' 150" and ?evs = "[(400000 :: int, demo_clock 1001, demo_bid ''b2'' ''bob'' 180)]"
  obtain dbs where c: "RedisStore_CreateAuction direct_driver mem_redis demo_store demo_auction demo_dbs = Some (dbs, None)"
    "mem_ready (length ?evs + 2) demo_store dbs"
    "auction_at mem_hash mem_stream demo_store dbs ''a1'' =
       \<lparr>a_rec = Some \<lparr>a_open = True, a_end = 5000, a_price = 100, a_winner = [], a_version = 0\<rparr>,
        a_results = Map.empty, a_log = []\<rparr>" "map mem_ttl dbs = map mem_ttl demo_dbs"
    by (rule create_plain_witness [of "length ?evs + 2"]) simp_all
  have "mem_ttl mem_empty k = None" for k by (simp add: mem_ttl_def mem_live_def mem_empty_def)
  moreover have "mem_ttl db = mem_ttl mem_empty" if "db \<in> set dbs" for db
    using arg_cong [OF c(4), of set] that by auto
  ultimately have last: "lasting mem_ttl dbs" by (simp add: lasting_def)
  have h: "a_rec (auction_at mem_hash mem_stream demo_store dbs (AuctionID ?req)) \<noteq> None"
    "a_results (auction_at mem_hash mem_stream demo_store dbs (AuctionID ?req)) (BidID ?req) = None"
    using c(3) by (simp_all add: demo_bid_def)
  have p: "plain_bid (sint (Milliseconds (idemTTL demo_store))) (sint (UnixMilli (at_run (demo_clock 1000)))) ?req"
    "plain_bid (sint (Milliseconds (idemTTL demo_store))) (sint (UnixMilli (at_run (demo_clock 1002)))) ?req"
    "timed_ok (sint (Milliseconds (idemTTL demo_store))) ?evs"
    by (simp_all add: demo_bid_def plain_bid_def exact14_def timed_ok_def)
  have same: "AuctionID ?req = AuctionID ?req" "BidID ?req = BidID ?req" "0 < sint (Milliseconds (idemTTL demo_store))"
    "0 \<le> (400000 :: int)" by simp_all
  let ?w0 = "Some (sint (Milliseconds (idemTTL demo_store)),
    insert (BidID ?req) (dom (a_results (auction_at mem_hash mem_stream demo_store dbs (AuctionID ?req)))))"
  let ?kept = "unbroken (sint (Milliseconds (idemTTL demo_store))) (AuctionID ?req) ?w0 ?evs \<and>
    elapse 400000 (memory_after (sint (Milliseconds (idemTTL demo_store))) (AuctionID ?req) ?w0 ?evs) \<noteq> None"
  have kept: ?kept using c(3) by (simp add: demo_bid_def memory_next_def answered_def)
  from idempotency_window [OF memb.redis_backend_axioms c(2) last h p same]
  obtain s1 dbs1 r s2 dbs2 rs where q:
    "RedisStore_PlaceBid direct_driver mem_redis (demo_clock 1000) demo_store ?req dbs = Some (s1, dbs1, r, None)"
    "place_timed direct_driver mem_redis mem_tick ?evs s1 dbs1 = Some (s2, dbs2, rs)"
    "?kept \<longrightarrow> (\<exists>s3 dbs3. RedisStore_PlaceBid direct_driver mem_redis (demo_clock 1002) s2 ?req (map (mem_tick 400000) dbs2) =
       Some (s3, dbs3, r\<lparr>Duplicate := True\<rparr>, None) \<and> auction_at mem_hash mem_stream s3 dbs3 (AuctionID ?req) =
       auction_at mem_hash mem_stream s2 dbs2 (AuctionID ?req))"
    by (elim exE conjE) (rule that, assumption+)
  from mp [OF q(3) kept] obtain s3 dbs3 where
    "RedisStore_PlaceBid direct_driver mem_redis (demo_clock 1002) s2 ?req (map (mem_tick 400000) dbs2) =
       Some (s3, dbs3, r\<lparr>Duplicate := True\<rparr>, None)" by (elim exE conjE) (rule that)
  with c(1) q(1,2) show ?thesis
    by (intro exI conjI)
qed

end
