(* ===== verification/Spec2Isabelle.thy ===== *)
theory Spec2Isabelle
  imports Process LiveFeed HubLive LoadFlags Linear KeyTypes Window
begin

text \<open>
  A verification development for the auction server under \<open>apps/api\<close> (Go).

  \<^bold>\<open>The program.\<close> Clients create auctions and place bids over gRPC
  (\<open>internal/transport/grpc/server.go\<close>). The handlers admit a bounded number of bids at a time and call
  the service (\<open>internal/engine/service.go\<close>), which validates a request and hands it to the store
  (\<open>redis_store.go\<close>). The store picks one of several Redis servers by the CRC-32 of the auction and
  runs a Lua script there, which decides about the bid, remembers the answer under the bid's
  identifier for a while, and appends accepted bids to the auction's stream; a circuit breaker
  (\<open>breaker.go\<close>) refuses bids after repeated failures. A dispatcher (\<open>dispatcher.go\<close>) polls the streams of
  the auctions that have spectators and passes their events to the hub
  (\<open>internal/transport/ws/hub.go\<close>), which fans them out as JSON to websocket clients (\<open>handler.go\<close>).
  \<open>internal/config/config.go\<close> reads the settings, \<open>cmd/server/main.go\<close> puts everything together, and
  \<open>bench/loadtest/main.go\<close> drives a running server.

  \<^bold>\<open>Conventions.\<close> Go integers keep their width as words, so that sums wrap; strings are byte strings;
  errors are values; \<open>None\<close> as the result of an operation is a panic, or a blocking send where its
  theory says so. Times are nanoseconds since 1970 as integers and are arguments. Redis and the
  go-redis driver are parameters: \<open>'db redis_cmds\<close> and \<open>'db go_redis\<close>, with the behaviour the program
  relies on in the locales \<open>redis_server\<close> and \<open>redis_backend\<close>; which options the driver's \<open>NewClient\<close> accepts
  without a panic is the argument \<open>accepts\<close> of the router and of \<open>main_start\<close>. Both are interpreted on a model of a
  server in memory (\<open>mem_redis\<close>, \<open>direct_driver\<close>), on which the witnesses of the theorems are
  evaluated; theorems about any driver or server say so. Lua numbers are the integers that doubles
  represent, with the rounding of \<open>%.14g\<close>; the statements that compare printed numbers are restricted to
  14 digits (\<open>exact14\<close>), and what happens beyond is a theorem of its own.

  \<^bold>\<open>The theories\<close>, in the order in which they build on each other:

  \<^item> \<open>Prelude\<close>, \<open>GoStd\<close>, \<open>GoTime\<close>, \<open>LuaNum\<close>, \<open>Json\<close>: digits and words; the parts of \<open>strconv\<close>, \<open>strings\<close>,
    \<open>hash/crc32\<close>, \<open>time\<close> and \<open>encoding/json\<close> the program calls; Lua's number conversions. A marshalled
    message is read back by a JSON reader.
  \<^item> \<open>Config\<close>: \<open>Load\<close> and its helpers over an environment function, log levels as a linear order.
    Defaults, which error is reported, round trip of durations.
  \<^item> \<open>Types\<close>, \<open>Breaker\<close>: the records of \<open>types.go\<close>; the breaker sequentially, against a two-state
    specification (locale \<open>breaker_contract\<close>), and as goroutines sharing its atomic fields.
  \<^item> \<open>Redis\<close>, \<open>Script\<close>, \<open>Router\<close>, \<open>Store\<close>: the contract of a server, the Lua script statement by statement,
    sharding, and the three operations of \<open>RedisStore\<close> with their decoding.
  \<^item> \<open>Auction\<close>, \<open>AuctionProps\<close>, \<open>Retries\<close>, \<open>StoreProps\<close>, \<open>Events\<close>: an auction as a record, a map of answers
    and a log (\<open>place_spec\<close>, \<open>create_spec\<close>); the store refines it, and runs of bids keep it consistent with
    its log, give the auction to the highest bid, process a bid identifier once, and end for good.
    Outages, routing, what a read of events returns, and three ways in which encoding loses data.
  \<^item> \<open>Window\<close>: runs of bids between which time passes on the servers, and exactly which results are
    remembered: those of the current window, which every newly answered bid on the auction renews.
  \<^item> \<open>KeyTypes\<close>: any operations on any auctions keep the types of all keys of the store's servers.
  \<^item> \<open>Service\<close>, \<open>Grpc\<close>: the \<open>Store\<close> interface (locale \<open>store_contract\<close>), validation, and the two handlers
    with their metrics, each as one function.
  \<^item> \<open>Concurrent\<close>, \<open>Linear\<close>: the bid handler cut into the pieces between which other handlers run: entry,
    admission, the breaker's check, the driver's call, the breaker's update, metrics, deferred calls.
    Taken in a row the pieces are the handler; interleaved they admit a bounded number of requests,
    and what the requests get and leave behind is that of bids placed one after the other.
  \<^item> \<open>Hub\<close>, \<open>HubProps\<close>, \<open>HubLive\<close>: the hub, its channels, clients and pumps as one step relation. What a
    subscriber is given, an execution in which the hub blocks on its own channel, and a bound on the
    number of clients below which it cannot.
  \<^item> \<open>Dispatcher\<close>, \<open>LiveFeed\<close>: a tick of the dispatcher over a store that can be read (locale \<open>event_source\<close>,
    of which the Redis store is an instance), runs of ticks, and bids and ticks interleaved.
  \<^item> \<open>Http\<close>: the query of a websocket request, from its raw text to the handler's subscription.
  \<^item> \<open>Wiring\<close>, \<open>Process\<close>: start-up, probes and shutdown of the server process; its routes with the library's
    redirection of paths that are not clean, and its goroutines from the start of the servers to the
    end of \<open>main\<close>.
  \<^item> \<open>Loadtest\<close>, \<open>LoadFlags\<close>: the worker pool of the load test, which ends, counts right and leaves the
    expected price; its command line, its ways to start or fail, and its report.
  \<^item> This theory: the chain from the bids to the spectators.

  \<^bold>\<open>Bounds.\<close> No fuel is used: loops over data are structural or have a measure, the endless loops (hub,
  dispatcher, pumps, workers) are step relations or lists of ticks, and results are proved to exist.
  Runs are bounded by fewer than \<open>10 ^ 14\<close> bids because versions are printed with 14 digits; a router
  has fewer than \<open>2 ^ 32\<close> clients because the code reduces the checksum modulo a \<open>uint32\<close>.

  \<^bold>\<open>Not modelled.\<close> The generated protobuf and gRPC code beyond messages and getters, the accept loops
  of the HTTP and gRPC servers, the JSON log output, the delivery of signals and the Prometheus
  exposition call libraries only. In \<open>Process\<close> the two graceful stops are single steps, taken when the
  library returns from them. Deadlines are errors the driver may return. Of the latency histogram
  only the number of observations is kept. The breaker's methods are single steps in \<open>Concurrent\<close>;
  their own atomic operations are interleaved in \<open>Breaker\<close>. Requests with the method \<open>CONNECT\<close> and paths with
  escapes are left out of the routes. The elapsed time and throughput of the
  load test are floating-point figures of its last line and are left out. The dashboard is a separate
  TypeScript program.
\<close>

section \<open>From the bids to the spectators\<close>

text \<open>
  (C2) What spectators see is the auction: after an auction is created, however its bids (and those of
  other auctions) interleave with the ticks of the dispatcher, once the ticks after the last bid
  suffice to read the stream, a websocket client that stays subscribed while the hub works through
  the dispatcher's messages has been given one JSON message per event of the auction's stream,
  in the order of the stream, nothing twice and nothing left out; and since the creation these
  events are the accepted bids with versions 1, 2, 3 and strictly rising amounts, the last of which
  is the price and winner of the auction.
\<close>

theorem spectators_see_every_accepted_bid:
  fixes req s dbs evs d and hash :: "'db \<Rightarrow> string \<Rightarrow> string \<rightharpoonup> string" and stream :: "'db \<Rightarrow> string \<Rightarrow> stream_entry list"
  defines "a \<equiv> NewAuctionID req" and "ttl0 \<equiv> sint (Milliseconds (idemTTL s))"
  defines "k \<equiv> length (a_log (auction_at hash stream s dbs a))"
  assumes "redis_backend R valid hash stream ttl is_hash is_stream before tick C"
    and "ready valid hash stream is_hash is_stream (length evs) s dbs" and "int (length evs) < 10 ^ 14"
    and "exact14 (sint (OpeningPriceCents req))" and "exact14 (sint (UnixMilli (EndAt req)))"
    and "labelled (store_view hash stream s dbs)" and "\<forall>e \<in> set evs. live_ok ttl0 a e"
    and "0 < sint (streamCount d)" and "offsets d a = None"
    and "k + bid_count evs \<le> trailing evs * nat (sint (streamCount d))"
  shows "\<exists>dbs1 s' dbs' d' ms. RedisStore_CreateAuction C R s req dbs = Some (dbs1, None) \<and>
    live C R evs s dbs1 d = Some (s', dbs', d', ms) \<and>
    log_inv (sint (OpeningPriceCents req)) k (auction_at hash stream s' dbs' a) \<and>
    (\<forall>depth tr0 h0 tr h1 c. hub_runs (hub_init depth) tr0 h0 \<and> hub_runs h0 tr h1 \<and> run h0 = Selecting \<and>
       c \<in> members (hub h0) a \<and> (\<forall>l \<in> set tr. spares a c l) \<and>
       pending_for a (hub h0) = [] \<and> queued_for a tr = map (Marshal \<circ> snd) (messages_for a ms) \<and>
       pending_for a (hub h1) = [] \<longrightarrow>
       given_to h1 c = given_to h0 c @ map (Marshal \<circ> bid_message) (a_log (auction_at hash stream s' dbs' a)))"
proof -
  let ?st = "auction_at hash stream s dbs a" and ?J = "log_inv (sint (OpeningPriceCents req)) k"
  obtain dbs1 where c: "RedisStore_CreateAuction C R s req dbs = Some (dbs1, None)"
    "auction_at hash stream s dbs1 a = create_spec req ?st"
    "\<forall>b. b \<noteq> a \<longrightarrow> auction_at hash stream s dbs1 b = auction_at hash stream s dbs b"
    "ready valid hash stream is_hash is_stream (length evs + 0) s dbs1"
    using redis_backend.create_ready [OF assms(4-8)] by (auto simp: a_def)
  have log: "a_log (auction_at hash stream s dbs1 a) = a_log ?st" by (simp add: c(2) create_spec_def)
  have "a_log (auction_at hash stream s dbs1 b) = a_log (auction_at hash stream s dbs b)" for b
    using log c(3) by (cases "b = a") simp_all
  then have lab: "labelled (store_view hash stream s dbs1)" using assms(9) by (simp add: labelled_iff)
  have J: "?J (auction_at hash stream s dbs1 a)" by (simp add: c(2) k_def log_inv_create)
  have pos: "at_pos (offsets d a) (av_events (store_view hash stream s dbs1 a)) 0" using assms(12) by (simp add: at_pos_def)
  obtain s' dbs' d' ms m later where l: "live C R evs s dbs1 d = Some (s', dbs', d', ms)"
    "a_log (auction_at hash stream s' dbs' a) = a_log (auction_at hash stream s dbs1 a) @ later"
    "?J (auction_at hash stream s' dbs' a)" "length later \<le> bid_count evs"
    "feeds a (nat (sint (streamCount d))) (trailing evs) 0 ms m (a_log (auction_at hash stream s' dbs' a))"
    using redis_backend.live_feed [OF assms(4) c(4) lab assms(10) [unfolded ttl0_def] carried_log J assms(11) pos le0]
    by (elim exE conjE) (rule that)
  have "length (a_log (auction_at hash stream s' dbs' a)) \<le> trailing evs * nat (sint (streamCount d))"
    using l(2,4) log assms(13) k_def by simp
  then have ms: "messages_for a ms = map (\<lambda>e. (a, bid_message e)) (a_log (auction_at hash stream s' dbs' a))"
    using l(5) by (simp add: feeds_def)
  have "given_to h1 c = given_to h0 c @ map (Marshal \<circ> bid_message) (a_log (auction_at hash stream s' dbs' a))"
    if h: "hub_runs (hub_init depth) tr0 h0" "hub_runs h0 tr h1" "run h0 = Selecting" "c \<in> members (hub h0) a"
      "\<forall>l \<in> set tr. spares a c l" "pending_for a (hub h0) = []"
      "queued_for a tr = map (Marshal \<circ> snd) (messages_for a ms)" "pending_for a (hub h1) = []" for depth tr0 h0 tr h1 c
  proof -
    have "hub_inv h0" using hub_inv_runs [OF h(1) hub_inv_init] .
    then have "given_to h1 c = given_to h0 c @ sent_to a tr"
      using settled_runs [OF h(2) _ _ h(5)] h(3,4) by (simp add: settled_def)
    with hub_fifo [OF h(2), of a] h(6,7,8) ms show ?thesis by (simp add: comp_def)
  qed
  with c(1) l(1,3) show ?thesis by blast
qed

theorem spectators_see_every_accepted_bid_witness:
  "\<exists>dbs1 s' dbs' d' ms. RedisStore_CreateAuction direct_driver mem_redis demo_store demo_auction demo_dbs = Some (dbs1, None) \<and>
    live direct_driver mem_redis
      [Bid (demo_clock 1000) (demo_bid ''b1'' ''ann'' 150), Tick 0 [''a1''], Bid (demo_clock 1001) (demo_bid ''b2'' ''bob'' 180),
       Tick 1 [''a1'']] demo_store dbs1 (NewEventDispatcher 0) = Some (s', dbs', d', ms) \<and>
    log_inv 100 0 (auction_at mem_hash mem_stream s' dbs' ''a1'')"
proof -
  let ?evs = "[Bid (demo_clock 1000) (demo_bid ''b1'' ''ann'' 150), Tick 0 [''a1''],
    Bid (demo_clock 1001) (demo_bid ''b2'' ''bob'' 180), Tick 1 [''a1'']]"
  have rdy: "mem_ready (length ?evs) demo_store demo_dbs" by (rule demo_ready) simp
  have lab: "labelled (store_view mem_hash mem_stream demo_store demo_dbs)" by (simp add: labelled_def demo_view)
  have a: "NewAuctionID demo_auction = ''a1''" by (simp add: demo_auction_def)
  have ok: "\<forall>e \<in> set ?evs. live_ok (sint (Milliseconds (idemTTL demo_store))) (NewAuctionID demo_auction) e"
    by (simp add: a plain_bid_def demo_bid_def exact14_def)
  have k: "length (a_log (auction_at mem_hash mem_stream demo_store demo_dbs ''a1'')) = 0" by (simp add: a_log_at demo_view)
  have cnt: "length (a_log (auction_at mem_hash mem_stream demo_store demo_dbs (NewAuctionID demo_auction))) + bid_count ?evs
      \<le> trailing ?evs * nat (sint (streamCount (NewEventDispatcher 0)))"
    unfolding a k by (simp add: bid_count_def trailing_def NewEventDispatcher_def)
  from spectators_see_every_accepted_bid [OF memb.redis_backend_axioms rdy _ _ _ lab ok _ _ cnt] show ?thesis
    unfolding a k
    by (simp add: demo_auction_def exact14_def UnixMilli_def NewEventDispatcher_def del: live.simps) blast
qed

end
